(* ===== verification/Prelude.thy ===== *)
theory Prelude
  imports Main "HOL-Library.Word" "HOL-Library.AList" "HOL-Library.Sublist"
begin

text \<open>
  Shared vocabulary of the development: Rust's \<open>Result\<close> as a sum type, \<open>HashMap\<close> as an
  association list with distinct keys, machine integers as words, decimal and hexadecimal
  formatting, UTF-8 validation, integer parsing, and the generic reachability rule the
  step relations of the components use.

  A \<open>HashMap\<close> is the list of its entries. The order of that list stands for the iteration
  order, which Rust leaves unspecified: every theorem about a map is about its lookups
  (\<^const>\<open>map_of\<close>) or is invariant under permuting the entries.
\<close>

section \<open>Types\<close>

type_synonym u8 = "8 word"
type_synonym u16 = "16 word"
type_synonym u32 = "32 word"
type_synonym u64 = "64 word"
type_synonym bytes = "u8 list"
type_synonym ('k, 'v) hash_map = "('k \<times> 'v) list"
type_synonym ('e, 'a) result = "'e + 'a"

abbreviation Ok :: "'a \<Rightarrow> ('e, 'a) result" where
  "Ok \<equiv> Inr"

abbreviation Err :: "'e \<Rightarrow> ('e, 'a) result" where
  "Err \<equiv> Inl"

named_theorems caminus_simps \<open>unfolding rules of the small accessors of the model\<close>

section \<open>Results\<close>

text \<open>The \<open>?\<close> operator with \<open>map_err\<close>: the error is converted and returned at once.\<close>

definition try_map :: "('e \<Rightarrow> 'f) \<Rightarrow> ('e, 'a) result \<Rightarrow> ('a \<Rightarrow> ('f, 'b) result) \<Rightarrow> ('f, 'b) result" where
  "try_map h r k = (case r of Inl e \<Rightarrow> Inl (h e) | Inr a \<Rightarrow> k a)"

definition ok_or :: "'a option \<Rightarrow> 'e \<Rightarrow> ('e, 'a) result" where
  "ok_or x e = (case x of None \<Rightarrow> Inl e | Some a \<Rightarrow> Inr a)"

definition is_ok :: "('e, 'a) result \<Rightarrow> bool" where
  "is_ok r = (case r of Inl _ \<Rightarrow> False | Inr _ \<Rightarrow> True)"

text \<open>A \<open>for\<close> loop that leaves the function at the first error.\<close>

fun for_each :: "'a list \<Rightarrow> ('a \<Rightarrow> ('e, unit) result) \<Rightarrow> ('e, unit) result" where
  "for_each [] f = Inr ()"
| "for_each (x # xs) f = (case f x of Inl e \<Rightarrow> Inl e | Inr _ \<Rightarrow> for_each xs f)"

text \<open>A stateful operation called once for each element of a stream: its outputs in order and
  the state it leaves.\<close>

fun feed :: "('s \<Rightarrow> 'a \<Rightarrow> 'b \<times> 's) \<Rightarrow> 's \<Rightarrow> 'a list \<Rightarrow> 'b list \<times> 's" where
  "feed op s [] = ([], s)"
| "feed op s (x # xs) = (let (y, s') = op s x; (ys, t) = feed op s' xs in (y # ys, t))"

section \<open>Hash maps\<close>

abbreviation hm_get :: "('k, 'v) hash_map \<Rightarrow> 'k \<Rightarrow> 'v option" where
  "hm_get \<equiv> map_of"

definition hm_insert :: "'k \<Rightarrow> 'v \<Rightarrow> ('k, 'v) hash_map \<Rightarrow> ('k, 'v) hash_map" where
  "hm_insert k v m = AList.update k v m"

definition hm_remove :: "'k \<Rightarrow> ('k, 'v) hash_map \<Rightarrow> ('k, 'v) hash_map" where
  "hm_remove k m = AList.delete k m"

definition hm_contains_key :: "('k, 'v) hash_map \<Rightarrow> 'k \<Rightarrow> bool" where
  "hm_contains_key m k \<longleftrightarrow> hm_get m k \<noteq> None"

abbreviation hm_keys :: "('k, 'v) hash_map \<Rightarrow> 'k list" where
  "hm_keys m \<equiv> map fst m"

abbreviation hm_values :: "('k, 'v) hash_map \<Rightarrow> 'v list" where
  "hm_values m \<equiv> map snd m"

definition hm_ok :: "('k, 'v) hash_map \<Rightarrow> bool" where
  "hm_ok m \<longleftrightarrow> distinct (hm_keys m)"

section \<open>Text\<close>

definition byte_of_char :: "char \<Rightarrow> u8" where
  "byte_of_char c = of_nat (of_char c)"

definition char_of_byte :: "u8 \<Rightarrow> char" where
  "char_of_byte b = char_of (unat b)"

definition as_bytes :: "string \<Rightarrow> bytes" where
  "as_bytes s = map byte_of_char s"

definition digit_char :: "nat \<Rightarrow> char" where
  "digit_char d = char_of (48 + d)"

definition char_digit :: "char \<Rightarrow> nat option" where
  "char_digit c = (let n = of_char c in if 48 \<le> n \<and> n \<le> (57::nat) then Some (n - 48) else None)"

text \<open>The \<open>Display\<close> form of an unsigned integer.\<close>

fun show_nat :: "nat \<Rightarrow> string" where
  "show_nat n = (if n < 10 then [digit_char n] else show_nat (n div 10) @ [digit_char (n mod 10)])"

declare show_nat.simps [simp del]

text \<open>
  \<open>str::parse::<u64>\<close>: an optional leading plus sign, at least one digit, and every
  intermediate value below \<open>2 ^ 64\<close>.
\<close>

fun parse_digits :: "nat \<Rightarrow> string \<Rightarrow> nat option" where
  "parse_digits acc [] = Some acc"
| "parse_digits acc (c # cs) =
     (case char_digit c of
        None \<Rightarrow> None
      | Some d \<Rightarrow> if acc * 10 + d < 2 ^ 64 then parse_digits (acc * 10 + d) cs else None)"

definition parse_u64 :: "string \<Rightarrow> u64 option" where
  "parse_u64 s =
     (let ds = (case s of [] \<Rightarrow> [] | c # cs \<Rightarrow> if c = CHR ''+'' then cs else s)
      in if ds = [] then None else map_option of_nat (parse_digits 0 ds))"

definition hex_digit :: "nat \<Rightarrow> char" where
  "hex_digit d = (if d < 10 then char_of (48 + d) else char_of (87 + d))"

text \<open>\<open>{:0wx}\<close>: the low \<open>w\<close> hexadecimal digits, most significant first.\<close>

fun hex_fixed :: "nat \<Rightarrow> nat \<Rightarrow> string" where
  "hex_fixed 0 n = []"
| "hex_fixed (Suc w) n = hex_fixed w (n div 16) @ [hex_digit (n mod 16)]"

definition hex_bytes :: "bytes \<Rightarrow> string" where
  "hex_bytes bs = concat (map (\<lambda>b. hex_fixed 2 (unat b)) bs)"

section \<open>UTF-8\<close>

definition utf8_cont :: "u8 \<Rightarrow> bool" where
  "utf8_cont b \<longleftrightarrow> 0x80 \<le> b \<and> b \<le> 0xBF"

text \<open>Well-formed byte sequences as \<open>String::from_utf8\<close> accepts them.\<close>

fun utf8_valid :: "bytes \<Rightarrow> bool" where
  "utf8_valid [] = True"
| "utf8_valid (b # bs) =
     (if b \<le> 0x7F then utf8_valid bs
      else if 0xC2 \<le> b \<and> b \<le> 0xDF then
        (case bs of c # r \<Rightarrow> utf8_cont c \<and> utf8_valid r | _ \<Rightarrow> False)
      else if 0xE0 \<le> b \<and> b \<le> 0xEF then
        (case bs of
           c # d # r \<Rightarrow> utf8_cont c \<and> utf8_cont d
             \<and> (b = 0xE0 \<longrightarrow> 0xA0 \<le> c) \<and> (b = 0xED \<longrightarrow> c \<le> 0x9F) \<and> utf8_valid r
         | _ \<Rightarrow> False)
      else if 0xF0 \<le> b \<and> b \<le> 0xF4 then
        (case bs of
           c # d # e # r \<Rightarrow> utf8_cont c \<and> utf8_cont d \<and> utf8_cont e
             \<and> (b = 0xF0 \<longrightarrow> 0x90 \<le> c) \<and> (b = 0xF4 \<longrightarrow> c \<le> 0x8F) \<and> utf8_valid r
         | _ \<Rightarrow> False)
      else False)"

definition from_utf8 :: "bytes \<Rightarrow> string option" where
  "from_utf8 bs = (if utf8_valid bs then Some (map char_of_byte bs) else None)"

section \<open>Reachable states\<close>

inductive reach :: "('s \<Rightarrow> bool) \<Rightarrow> ('s \<Rightarrow> 's \<Rightarrow> bool) \<Rightarrow> 's \<Rightarrow> bool" for start move where
  at_start: "start s \<Longrightarrow> reach start move s"
| by_move: "reach start move s \<Longrightarrow> move s t \<Longrightarrow> reach start move t"

text \<open>
  The interface between a step relation and its invariant: whoever shows the two laws gets
  the invariant in every reachable state, and a second, dependent one on top of it.
\<close>

locale inductive_invariant =
  fixes start :: "'s \<Rightarrow> bool"
    and move :: "'s \<Rightarrow> 's \<Rightarrow> bool"
    and inv :: "'s \<Rightarrow> bool"
  assumes start_inv: "start s \<Longrightarrow> inv s"
    and move_inv: "inv s \<Longrightarrow> move s t \<Longrightarrow> inv t"
begin

lemma reach_inv: "reach start move s \<Longrightarrow> inv s"
  by (induction rule: reach.induct) (blast intro: start_inv move_inv)+

lemma star_inv: "move\<^sup>*\<^sup>* s t \<Longrightarrow> inv s \<Longrightarrow> inv t"
  by (induction rule: rtranclp_induct) (blast intro: move_inv)+

end

section \<open>Lemmas on results and loops\<close>

lemma try_map_simps [simp]:
  "try_map h (Inl e) k = Inl (h e)"
  "try_map h (Inr a) k = k a"
  by (simp_all add: try_map_def)

lemma ok_or_simps [simp]:
  "ok_or None e = Inl e"
  "ok_or (Some a) e = Inr a"
  by (simp_all add: ok_or_def)

lemma is_ok_simps [simp]:
  "is_ok (Inl e) = False"
  "is_ok (Inr a) = True"
  by (simp_all add: is_ok_def)

lemma is_ok_unit: "is_ok (r :: ('e, unit) result) \<longleftrightarrow> r = Inr ()"
  by (cases r) simp_all

lemma for_each_Ok_iff: "for_each xs f = Inr () \<longleftrightarrow> (\<forall>x \<in> set xs. f x = Inr ())"
  by (induction xs) (auto split: sum.splits)

lemma for_each_Err: "for_each xs f = Inl e \<Longrightarrow> \<exists>x \<in> set xs. f x = Inl e"
  by (induction xs) (auto split: sum.splits)

lemma for_each_cong [fundef_cong]:
  "xs = ys \<Longrightarrow> (\<And>x. x \<in> set ys \<Longrightarrow> f x = g x) \<Longrightarrow> for_each xs f = for_each ys g"
  by (induction ys arbitrary: xs) (auto split: sum.splits)

lemma feed_append:
  "feed op s (xs @ ys) =
     (let (us, t) = feed op s xs; (vs, t') = feed op t ys in (us @ vs, t'))"
  by (induction xs arbitrary: s) (simp_all add: Let_def split_def)

lemma length_feed [simp]: "length (fst (feed op s xs)) = length xs"
  by (induction xs arbitrary: s) (simp_all add: Let_def split_def)

lemma feed_invariant:
  assumes "P s" and "\<And>s x. P s \<Longrightarrow> P (snd (op s x))"
  shows "P (snd (feed op s xs))"
  using assms(1) by (induction xs arbitrary: s) (simp_all add: assms(2) Let_def split_def)

text \<open>Simulation: a relation between two states that every step keeps, with equal outputs.\<close>

lemma feed_simulation:
  assumes "R s t"
    and "\<And>s t x. R s t \<Longrightarrow> fst (f s x) = fst (g t x) \<and> R (snd (f s x)) (snd (g t x))"
  shows "fst (feed f s xs) = fst (feed g t xs) \<and> R (snd (feed f s xs)) (snd (feed g t xs))"
  using assms(1)
proof (induction xs arbitrary: s t)
  case (Cons x xs)
  from assms(2) [OF Cons.prems, of x] Cons.IH [of "snd (f s x)" "snd (g t x)"]
  show ?case by (simp add: Let_def split_def)
qed simp

section \<open>Lemmas on hash maps\<close>

text \<open>
  What a client of a map relies on: lookups after an insertion and a removal, and that the
  keys stay distinct.
\<close>

locale keyed_table =
  fixes get :: "'m \<Rightarrow> 'k \<Rightarrow> 'v option"
    and put :: "'k \<Rightarrow> 'v \<Rightarrow> 'm \<Rightarrow> 'm"
    and del :: "'k \<Rightarrow> 'm \<Rightarrow> 'm"
    and ok :: "'m \<Rightarrow> bool"
  assumes get_put: "get (put k v m) = (get m)(k \<mapsto> v)"
    and get_del: "get (del k m) = (get m)(k := None)"
    and ok_put: "ok m \<Longrightarrow> ok (put k v m)"
    and ok_del: "ok m \<Longrightarrow> ok (del k m)"
begin

lemma get_put_same: "get (put k v m) k = Some v"
  by (simp add: get_put)

lemma get_put_other: "k' \<noteq> k \<Longrightarrow> get (put k v m) k' = get m k'"
  by (simp add: get_put)

lemma get_del_same: "get (del k m) k = None"
  by (simp add: get_del)

lemma get_del_other: "k' \<noteq> k \<Longrightarrow> get (del k m) k' = get m k'"
  by (simp add: get_del)

lemma ok_fold_put: "ok m \<Longrightarrow> ok (fold (\<lambda>x. put (f x) (g x)) xs m)"
  by (induction xs arbitrary: m) (simp_all add: ok_put)

lemma get_fold_put:
  "get (fold (\<lambda>x. put (f x) (g x)) xs m) = get m ++ map_of (rev (map (\<lambda>x. (f x, g x)) xs))"
  by (induction xs arbitrary: m) (simp_all add: get_put map_add_upd_left)

end

interpretation hm: keyed_table map_of hm_insert hm_remove hm_ok
  by unfold_locales
    (simp_all add: hm_insert_def hm_remove_def hm_ok_def update_conv' delete_conv'
      AList.distinct_update AList.distinct_delete)

lemmas hm_lookup [simp] = hm.get_put hm.get_del
lemmas hm_ok_intros [intro, simp] = hm.ok_put hm.ok_del

lemma hm_ok_Nil [simp]: "hm_ok []"
  by (simp add: hm_ok_def)

lemma hm_keys_remove: "set (hm_keys (hm_remove k m)) = set (hm_keys m) - {k}"
  by (auto simp: hm_remove_def delete_keys)


lemma hm_contains_key_iff: "hm_contains_key m k \<longleftrightarrow> k \<in> set (hm_keys m)"
  by (auto simp: hm_contains_key_def map_of_eq_None_iff)

lemma hm_contains_key_insert [simp]: "hm_contains_key (hm_insert k v m) k' \<longleftrightarrow> k' = k \<or> hm_contains_key m k'"
  by (simp add: hm_contains_key_def)

lemma hm_contains_key_Nil [simp]: "\<not> hm_contains_key [] k"
  by (simp add: hm_contains_key_def)

lemma length_hm_insert:
  "length (hm_insert k v m) = (if hm_contains_key m k then length m else Suc (length m))"
  by (induction m) (auto simp: hm_insert_def hm_contains_key_def)

lemma ball_entries:
  "distinct (map fst m) \<Longrightarrow> (\<forall>p \<in> set m. P p) \<longleftrightarrow> (\<forall>k v. map_of m k = Some v \<longrightarrow> P (k, v))"
  by auto

lemma map_le_Some: "f \<subseteq>\<^sub>m g \<Longrightarrow> f k = Some v \<Longrightarrow> g k = Some v"
  by (metis map_le_def domI)

text \<open>Two maps with distinct keys and the same lookups hold the same entries.\<close>

lemma hm_entries:
  assumes "hm_ok m"
  shows "set m = {(k, v). hm_get m k = Some v}"
  using assms by (auto simp: hm_ok_def)

lemma hm_values_set:
  assumes "hm_ok m"
  shows "set (hm_values m) = ran (hm_get m)"
  using assms by (simp add: hm_ok_def ran_distinct)

section \<open>Lemmas on text\<close>

lemma of_char_less [simp]: "of_char c < (256 :: nat)"
  using nat_of_char_less_256 [of c] by simp

lemma char_of_byte_of_char [simp]: "char_of_byte (byte_of_char c) = c"
  by (simp add: char_of_byte_def byte_of_char_def unat_of_nat)

lemma byte_of_char_of_byte [simp]: "byte_of_char (char_of_byte b) = b"
proof -
  have "unat b < 256" using unsigned_less [of b, where 'a = nat] by simp
  then show ?thesis by (simp add: char_of_byte_def byte_of_char_def)
qed

lemma as_bytes_Nil [simp]: "as_bytes [] = []"
  by (simp add: as_bytes_def)

lemma length_as_bytes [simp]: "length (as_bytes s) = length s"
  by (simp add: as_bytes_def)

lemma string_of_as_bytes [simp]: "map char_of_byte (as_bytes s) = s"
  by (simp add: as_bytes_def comp_def)

lemma inj_as_bytes: "as_bytes s = as_bytes t \<longleftrightarrow> s = t"
  by (metis string_of_as_bytes)

lemma from_utf8_as_bytes: "from_utf8 (as_bytes s) = (if utf8_valid (as_bytes s) then Some s else None)"
  by (simp add: from_utf8_def)

lemma char_digit_digit_char [simp]: "d < 10 \<Longrightarrow> char_digit (digit_char d) = Some d"
  by (simp add: char_digit_def digit_char_def)

lemma char_digit_less: "char_digit c = Some d \<Longrightarrow> d < 10"
  by (auto simp: char_digit_def Let_def split: if_splits)

lemma digit_char_neq_plus: "d < 10 \<Longrightarrow> digit_char d \<noteq> CHR ''+''"
  using char_digit_digit_char [of d] by (auto simp: char_digit_def)

lemma show_nat_nonempty [simp]: "show_nat n \<noteq> []"
  by (subst show_nat.simps) simp

lemma show_nat_digits: "set (show_nat n) \<subseteq> digit_char ` {..<10}"
proof (induction n rule: show_nat.induct)
  case (1 n)
  then show ?case by (subst show_nat.simps) auto
qed

lemma parse_digits_append:
  "parse_digits a (xs @ ys) = Option.bind (parse_digits a xs) (\<lambda>b. parse_digits b ys)"
  by (induction xs arbitrary: a) (auto split: option.splits)

lemma le_times_10: "n \<le> n * (10 :: nat)"
  by simp

lemma parse_digits_show:
  assumes "a * 10 ^ length (show_nat n) + n < 2 ^ 64"
  shows "parse_digits a (show_nat n) = Some (a * 10 ^ length (show_nat n) + n)"
  using assms
proof (induction n rule: show_nat.induct)
  case (1 n)
  show ?case
  proof (cases "n < 10")
    case True
    then have "show_nat n = [digit_char n]" by (subst show_nat.simps) simp
    with True "1.prems" show ?thesis by simp
  next
    case False
    let ?m = "n div 10" and ?l = "length (show_nat (n div 10))"
    have sn: "show_nat n = show_nat ?m @ [digit_char (n mod 10)]"
      using False by (subst show_nat.simps) simp
    have eq: "(a * 10 ^ ?l + ?m) * 10 + n mod 10 = a * 10 ^ length (show_nat n) + n"
      by (simp add: sn algebra_simps)
    from "1.prems" have "(a * 10 ^ ?l + ?m) * 10 + n mod 10 < 2 ^ 64" unfolding eq .
    moreover from this have "a * 10 ^ ?l + ?m < 2 ^ 64"
      by (rule le_less_trans [rotated]) (rule trans_le_add1, rule le_times_10)
    ultimately show ?thesis
      using "1.IH" [OF False] eq by (simp add: sn parse_digits_append)
  qed
qed

lemma parse_u64_show [simp]: "parse_u64 (show_nat (unat (w :: u64))) = Some w"
proof -
  let ?s = "show_nat (unat w)"
  obtain c cs where s: "?s = c # cs" by (cases ?s) auto
  then have "c \<in> digit_char ` {..<10}" using show_nat_digits [of "unat w"] by auto
  then have "c \<noteq> CHR ''+''" using digit_char_neq_plus by auto
  moreover have "parse_digits 0 ?s = Some (unat w)"
    using parse_digits_show [of 0 "unat w"] unsigned_less [of w, where 'a = nat] by simp
  ultimately show ?thesis by (simp add: parse_u64_def s)
qed

lemma length_show_nat: "n < 10 ^ k \<Longrightarrow> 0 < k \<Longrightarrow> length (show_nat n) \<le> k"
proof (induction k arbitrary: n)
  case (Suc k)
  show ?case
  proof (cases "n < 10")
    case True
    then show ?thesis by (subst show_nat.simps) simp
  next
    case False
    have "n div 10 < 10 ^ k" using Suc.prems(1) by (simp add: div_less_iff_less_mult)
    moreover have "0 < k" using False Suc.prems(1) by (cases k) simp_all
    ultimately have "length (show_nat (n div 10)) \<le> k" by (rule Suc.IH)
    then show ?thesis using False by (subst show_nat.simps) simp
  qed
qed simp

lemma show_u64_inject: "show_nat (unat (v :: u64)) = show_nat (unat w) \<longleftrightarrow> v = w"
  by (metis parse_u64_show option.inject)

lemma length_hex_fixed [simp]: "length (hex_fixed w n) = w"
  by (induction w arbitrary: n) simp_all

lemma length_hex_bytes [simp]: "length (hex_bytes bs) = 2 * length bs"
  by (induction bs) (simp_all add: hex_bytes_def)

lemma hex_bytes_Nil [simp]: "hex_bytes [] = []"
  by (simp add: hex_bytes_def)

lemma hex_bytes_Cons: "hex_bytes (b # bs) = hex_fixed 2 (unat b) @ hex_bytes bs"
  by (simp add: hex_bytes_def)

section \<open>ASCII text is UTF-8\<close>

lemma utf8_ascii: "\<forall>c \<in> set s. of_char c < (128 :: nat) \<Longrightarrow> utf8_valid (as_bytes s)"
proof (induction s)
  case (Cons c s)
  then have "unat (byte_of_char c) < 128" by (simp add: byte_of_char_def unat_of_nat)
  then have "byte_of_char c \<le> 0x7F" by (simp add: word_le_nat_alt)
  with Cons show ?case by (simp add: as_bytes_def)
qed (simp add: as_bytes_def)

lemma show_nat_ascii: "c \<in> set (show_nat n) \<Longrightarrow> of_char c < (128 :: nat)"
  using show_nat_digits [of n] by (auto simp: digit_char_def)

end
