(* ===== verification/F64.thy ===== *)
theory F64
  imports Complex_Main Prelude "HOL-Library.Log_Nat"
begin

text \<open>
  Rust's \<open>f64\<close> and \<open>std::time::Duration\<close>, as far as the program uses them. A finite
  \<open>f64\<close> is the rational number it denotes; every arithmetic operation is the exact result
  rounded to 53 significant bits, ties to even, with the subnormal range at the bottom
  (\<open>fl\<close>). The largest values the program computes are far below the overflow threshold,
  so infinities and NaN are not represented; an operation that would produce one is an error
  value where it is called. A \<open>Duration\<close> or an \<open>Instant\<close> is a count of nanoseconds.
\<close>

type_synonym f64 = rat
type_synonym duration = nat
type_synonym instant = nat

section \<open>Rounding\<close>

definition pow2 :: "int \<Rightarrow> rat" where
  "pow2 e = 2 powi e"

text \<open>The exponent of a positive rational: \<open>pow2 (ilog2 x) \<le> x < pow2 (ilog2 x + 1)\<close>.\<close>

definition ilog2 :: "rat \<Rightarrow> int" where
  "ilog2 x = (let (p, q) = quotient_of x; e = bitlen p - bitlen q
              in if x < pow2 e then e - 1 else e)"

text \<open>Round to the nearest integer, ties to even.\<close>

definition rne :: "rat \<Rightarrow> int" where
  "rne x = (let f = \<lfloor>x\<rfloor>; d = x - of_int f
            in if d < 1 / 2 then f else if 1 / 2 < d then f + 1
               else if even f then f else f + 1)"

definition ulp_exp :: "rat \<Rightarrow> int" where
  "ulp_exp x = max (ilog2 \<bar>x\<bar> - 52) (- 1074)"

definition fl :: "rat \<Rightarrow> f64" where
  "fl x = (if x = 0 then 0 else of_int (rne (x / pow2 (ulp_exp x))) * pow2 (ulp_exp x))"

section \<open>Operations\<close>

definition fadd :: "f64 \<Rightarrow> f64 \<Rightarrow> f64" where
  "fadd x y = fl (x + y)"

definition fsub :: "f64 \<Rightarrow> f64 \<Rightarrow> f64" where
  "fsub x y = fl (x - y)"

definition fmul :: "f64 \<Rightarrow> f64 \<Rightarrow> f64" where
  "fmul x y = fl (x * y)"

definition fdiv :: "f64 \<Rightarrow> f64 \<Rightarrow> f64" where
  "fdiv x y = fl (x / y)"

definition f64_of_nat :: "nat \<Rightarrow> f64" where
  "f64_of_nat n = fl (of_nat n)"

definition f64_of_int :: "int \<Rightarrow> f64" where
  "f64_of_int n = fl (of_int n)"

definition f64_of_u32 :: "u32 \<Rightarrow> f64" where
  "f64_of_u32 w = f64_of_nat (unat w)"

text \<open>\<open>f64::fract\<close>: the part after truncation towards zero.\<close>

definition fract :: "f64 \<Rightarrow> f64" where
  "fract x = (if 0 \<le> x then x - of_int \<lfloor>x\<rfloor> else x - of_int \<lceil>x\<rceil>)"

section \<open>Durations\<close>

definition nanos_per_sec :: nat where
  "nanos_per_sec = 1000000000"

definition from_millis :: "nat \<Rightarrow> duration" where
  "from_millis n = n * 1000000"

definition as_secs_f64 :: "duration \<Rightarrow> f64" where
  "as_secs_f64 d =
     fadd (f64_of_nat (d div nanos_per_sec)) (fdiv (f64_of_nat (d mod nanos_per_sec)) 1000000000)"

text \<open>
  \<open>Duration::from_secs_f64\<close> rounds to the nearest nanosecond; \<open>None\<close> is its panic, on a
  negative argument or one of \<open>2 ^ 64\<close> seconds and more.
\<close>

definition from_secs_f64 :: "f64 \<Rightarrow> duration option" where
  "from_secs_f64 x = (if x < 0 \<or> 2 ^ 64 \<le> x then None else Some (nat (rne (x * 1000000000))))"

definition mul_f64 :: "duration \<Rightarrow> f64 \<Rightarrow> duration option" where
  "mul_f64 d k = from_secs_f64 (fmul k (as_secs_f64 d))"

section \<open>The exponent\<close>

lemma pow2_pos [simp]: "0 < pow2 e"
  by (simp add: pow2_def)

lemma pow2_nonneg [simp]: "0 \<le> pow2 e"
  by (simp add: pow2_def)

lemma pow2_nonzero [simp]: "pow2 e \<noteq> 0"
  by (simp add: pow2_def)

lemma pow2_add: "pow2 (a + b) = pow2 a * pow2 b"
  by (simp add: pow2_def power_int_add)

lemma pow2_diff: "pow2 (a - b) = pow2 a / pow2 b"
  by (simp add: pow2_def power_int_diff)

lemma pow2_mono: "a \<le> b \<Longrightarrow> pow2 a \<le> pow2 b"
  by (simp add: pow2_def power_int_increasing)

lemma pow2_less: "a < b \<Longrightarrow> pow2 a < pow2 b"
  by (simp add: pow2_def power_int_strict_increasing)

lemma pow2_less_iff: "pow2 a < pow2 b \<longleftrightarrow> a < b"
  using pow2_less pow2_mono by (metis not_le)

lemma pow2_nat: "0 \<le> e \<Longrightarrow> pow2 e = of_int (2 ^ nat e)"
  by (simp add: pow2_def power_int_def)

lemma bitlen_rat:
  assumes "0 < p"
  shows "pow2 (bitlen p - 1) \<le> of_int p" and "of_int p < pow2 (bitlen p)"
proof -
  have b: "2 ^ nat (bitlen p - 1) \<le> p \<and> p < 2 ^ nat (bitlen p)" and "0 < bitlen p"
    using assms bitlen_bounds [of p] bitlen_nonneg [of p] by (auto simp: bitlen_eq_zero_iff less_le)
  then show "pow2 (bitlen p - 1) \<le> of_int p" and "of_int p < pow2 (bitlen p)"
    by (simp_all add: pow2_nat del: of_int_power)
qed

lemma ilog2_bounds:
  assumes "0 < x"
  shows "pow2 (ilog2 x) \<le> x" and "x < pow2 (ilog2 x + 1)"
proof -
  obtain p q where pq: "quotient_of x = (p, q)" by fastforce
  then have q: "0 < q" and x: "x = of_int p / of_int q"
    using quotient_of_denom_pos quotient_of_div by auto
  with assms have p: "0 < p" by (simp add: zero_less_divide_iff)
  let ?e = "bitlen p - bitlen q"
  have up: "x < pow2 (?e + 1)"
  proof -
    have "of_int p * pow2 (bitlen q - 1) < pow2 (bitlen p) * of_int q"
      using bitlen_rat [OF p] bitlen_rat [OF q] p q
      by (intro mult_less_le_imp_less) auto
    then show ?thesis
      using q by (simp add: x pow2_add pow2_diff field_simps)
  qed
  have low: "pow2 (?e - 1) \<le> x"
  proof -
    have "pow2 (bitlen p - 1) * of_int q \<le> of_int p * pow2 (bitlen q)"
      using bitlen_rat [OF p] bitlen_rat [OF q] p q
      by (intro mult_mono) auto
    then show ?thesis
      using q by (simp add: x pow2_add pow2_diff field_simps)
  qed
  show "pow2 (ilog2 x) \<le> x" and "x < pow2 (ilog2 x + 1)"
    using up low by (auto simp: ilog2_def pq Let_def not_less)
qed


lemma ilog2_mono:
  assumes "0 < x" and "x \<le> y"
  shows "ilog2 x \<le> ilog2 y"
proof -
  have "pow2 (ilog2 x) < pow2 (ilog2 y + 1)"
    using assms ilog2_bounds [of x] ilog2_bounds [of y] by linarith
  then show ?thesis by (simp add: pow2_less_iff)
qed

section \<open>Rounding to an integer\<close>

lemma rne_bounds: "\<lfloor>x\<rfloor> \<le> rne x" and rne_upper: "rne x \<le> \<lfloor>x\<rfloor> + 1"
  by (simp_all add: rne_def Let_def)

lemma rne_of_int [simp]: "rne (of_int n) = n"
  by (simp add: rne_def)

lemma rne_mono: "x \<le> y \<Longrightarrow> rne x \<le> rne y"
proof (cases "\<lfloor>x\<rfloor> = \<lfloor>y\<rfloor>")
  case True
  assume "x \<le> y"
  with True show ?thesis by (auto simp: rne_def Let_def)
next
  case False
  assume "x \<le> y"
  with False have "\<lfloor>x\<rfloor> + 1 \<le> \<lfloor>y\<rfloor>" using floor_mono [of x y] by linarith
  then show ?thesis using rne_upper [of x] rne_bounds [of y] by linarith
qed

lemma rne_le_int: "x \<le> of_int n \<Longrightarrow> rne x \<le> n"
  using rne_mono [of x "of_int n"] by simp

lemma int_le_rne: "of_int n \<le> x \<Longrightarrow> n \<le> rne x"
  using rne_mono [of "of_int n" x] by simp

lemma rne_minus: "rne (- x) = - rne x"
proof -
  have fl: "\<lfloor>- x\<rfloor> = (if x = of_int \<lfloor>x\<rfloor> then - \<lfloor>x\<rfloor> else - \<lfloor>x\<rfloor> - 1)"
    by (simp add: floor_minus ceiling_altdef)
  show ?thesis
    by (auto simp: rne_def Let_def fl)
qed

section \<open>Rounding to a double\<close>

lemma ulp_exp_minus [simp]: "ulp_exp (- x) = ulp_exp x"
  by (simp add: ulp_exp_def)

lemma fl_minus: "fl (- x) = - fl x"
  by (simp add: fl_def rne_minus)

lemma fl_0 [simp]: "fl 0 = 0"
  by (simp add: fl_def)

lemma fl_nonneg: "0 \<le> x \<Longrightarrow> 0 \<le> fl x"
  by (auto simp: fl_def intro!: mult_nonneg_nonneg int_le_rne)

text \<open>A power of two at or above the rounding unit is a multiple of it.\<close>

lemma pow2_multiple: "e \<le> k \<Longrightarrow> pow2 k / pow2 e = of_int (2 ^ nat (k - e))"
  by (simp add: pow2_diff [symmetric] pow2_nat del: of_int_power)

lemma fl_le_pow2:
  assumes "0 < x" and "x \<le> pow2 k" and "ulp_exp x \<le> k"
  shows "fl x \<le> pow2 k"
proof -
  let ?e = "ulp_exp x"
  have "x / pow2 ?e \<le> pow2 k / pow2 ?e"
    using assms(2) by (simp add: divide_right_mono less_imp_le)
  then have "rne (x / pow2 ?e) \<le> 2 ^ nat (k - ?e)"
    unfolding pow2_multiple [OF assms(3)] by (rule rne_le_int)
  then have "of_int (rne (x / pow2 ?e)) \<le> pow2 k / pow2 ?e"
    unfolding pow2_multiple [OF assms(3)] of_int_le_iff .
  then show ?thesis using assms(1) by (simp add: fl_def pos_le_divide_eq)
qed

lemma pow2_le_fl:
  assumes "pow2 k \<le> x" and "ulp_exp x \<le> k"
  shows "pow2 k \<le> fl x"
proof -
  let ?e = "ulp_exp x"
  have x: "0 < x" using assms(1) pow2_pos [of k] by linarith
  have "pow2 k / pow2 ?e \<le> x / pow2 ?e"
    using assms(1) by (simp add: divide_right_mono less_imp_le)
  then have "2 ^ nat (k - ?e) \<le> rne (x / pow2 ?e)"
    unfolding pow2_multiple [OF assms(2)] by (rule int_le_rne)
  then have "pow2 k / pow2 ?e \<le> of_int (rne (x / pow2 ?e))"
    unfolding pow2_multiple [OF assms(2)] of_int_le_iff .
  then show ?thesis using x by (simp add: fl_def pos_divide_le_eq)
qed

lemma fl_mono_pos:
  assumes "0 < x" and "x \<le> y"
  shows "fl x \<le> fl y"
proof -
  have L: "ilog2 x \<le> ilog2 y" using assms by (rule ilog2_mono)
  show ?thesis
  proof (cases "ulp_exp x = ulp_exp y")
    case True
    have "rne (x / pow2 (ulp_exp y)) \<le> rne (y / pow2 (ulp_exp y))"
      using assms by (intro rne_mono divide_right_mono) (simp_all add: less_imp_le)
    with True assms show ?thesis by (simp add: fl_def mult_right_mono less_imp_le)
  next
    case False
    have e: "ulp_exp x < ilog2 y" "ilog2 x < ilog2 y" "ulp_exp y \<le> ilog2 y"
      using False L assms by (auto simp: ulp_exp_def max_def split: if_splits)
    have "x \<le> pow2 (ilog2 y)"
      using ilog2_bounds(2) [OF assms(1)] pow2_mono [of "ilog2 x + 1" "ilog2 y"] e(2) by linarith
    then have "fl x \<le> pow2 (ilog2 y)" using e(1) assms(1) by (simp add: fl_le_pow2)
    also have "\<dots> \<le> fl y" using e(3) assms ilog2_bounds(1) [of y] by (simp add: pow2_le_fl)
    finally show ?thesis .
  qed
qed

lemma fl_mono: "x \<le> y \<Longrightarrow> fl x \<le> fl y"
proof -
  assume xy: "x \<le> y"
  consider "0 < x" | "x \<le> 0" "0 \<le> y" | "y < 0" by linarith
  then show ?thesis
  proof cases
    case 1
    then show ?thesis using xy by (rule fl_mono_pos)
  next
    case 2
    then have "0 \<le> fl (- x)" and "0 \<le> fl y" by (simp_all add: fl_nonneg del: fl_minus)
    then show ?thesis by (simp add: fl_minus)
  next
    case 3
    with xy have "fl (- y) \<le> fl (- x)" by (simp add: fl_mono_pos)
    then show ?thesis by (simp add: fl_minus)
  qed
qed

lemma fl_of_int:
  assumes "\<bar>n\<bar> < 2 ^ 53"
  shows "fl (of_int n) = of_int n"
proof (cases "n = 0")
  case False
  let ?x = "of_int n :: rat" and ?e = "ulp_exp (of_int n)"
  have "\<bar>?x\<bar> < pow2 53" using assms by (simp add: pow2_nat del: of_int_power flip: of_int_abs)
  then have "pow2 (ilog2 \<bar>?x\<bar>) < pow2 53" using ilog2_bounds(1) [of "\<bar>?x\<bar>"] False by force
  then have e: "?e \<le> 0" by (simp add: ulp_exp_def pow2_less_iff)
  have "?x / pow2 ?e = of_int (n * 2 ^ nat (- ?e))"
    using pow2_multiple [OF e] by (simp add: pow2_def field_simps)
  then have "of_int (rne (?x / pow2 ?e)) = ?x / pow2 ?e" by (simp only: rne_of_int)
  then show ?thesis using False by (simp add: fl_def)
qed simp


lemma fl_of_nat: "n < 2 ^ 53 \<Longrightarrow> fl (of_nat n) = of_nat n"
  using fl_of_int [of "int n"] by simp

lemma u32_small: "unat (w :: u32) < 2 ^ 53"
proof -
  have "unat w < 2 ^ 32" using unsigned_less [of w, where 'a = nat] by simp
  then show ?thesis by (rule less_le_trans) simp
qed

text \<open>The conversion from \<open>u32\<close> is exact.\<close>

lemma f64_of_u32_exact: "f64_of_u32 w = rat_of_nat (unat w)"
  unfolding f64_of_u32_def f64_of_nat_def by (rule fl_of_nat) (rule u32_small)

lemma fl_f64_of_u32 [simp]: "fl (f64_of_u32 w) = f64_of_u32 w"
  unfolding f64_of_u32_exact by (rule fl_of_nat) (rule u32_small)

lemma f64_of_u32_less_iff: "f64_of_u32 v < f64_of_u32 w \<longleftrightarrow> unat v < unat w"
  unfolding f64_of_u32_exact by (rule of_nat_less_iff)

lemma f64_of_u32_le_iff: "f64_of_u32 v \<le> f64_of_u32 w \<longleftrightarrow> unat v \<le> unat w"
  unfolding f64_of_u32_exact by (rule of_nat_le_iff)

lemma f64_of_nat_nonneg [simp]: "0 \<le> f64_of_nat n"
  by (simp add: f64_of_nat_def fl_nonneg)

lemma f64_of_u32_nonneg [simp]: "0 \<le> f64_of_u32 w"
  by (simp add: f64_of_u32_def)

lemma f64_of_u32_numerals [simp]: "f64_of_u32 0 = 0" "f64_of_u32 1 = 1"
  by (simp_all add: f64_of_u32_exact)

lemma as_secs_nonneg [simp]: "0 \<le> as_secs_f64 d"
  by (simp add: as_secs_f64_def fadd_def fdiv_def fl_nonneg)

lemma as_secs_0 [simp]: "as_secs_f64 0 = 0"
  by (simp add: as_secs_f64_def fadd_def fdiv_def f64_of_nat_def)

lemma fl_dyadic: "fl (1 / 2) = 1 / 2" "fl (3 / 4) = 3 / 4" "fl (5 / 4) = 5 / 4" "fl (5 / 8) = 5 / 8"
  by code_simp+

lemma half_second_le: "from_millis 500 \<le> d \<Longrightarrow> 1 / 2 \<le> as_secs_f64 d"
proof (cases "d < nanos_per_sec")
  case True
  assume "from_millis 500 \<le> d"
  then have "500000000 \<le> d" by (simp add: from_millis_def)
  then have "1 / 2 \<le> rat_of_nat d / 1000000000" by simp
  then have "fl (fl (1 / 2)) \<le> fl (fl (rat_of_nat d / 1000000000))" by (intro fl_mono)
  then show ?thesis
    using True by (simp add: as_secs_f64_def fadd_def fdiv_def nanos_per_sec_def f64_of_nat_def fl_of_nat fl_dyadic)
next
  case False
  then have "1 \<le> d div nanos_per_sec" by (simp add: nanos_per_sec_def)
  then have "rat_of_int 1 \<le> rat_of_nat (d div nanos_per_sec)" by simp
  then have "fl (rat_of_int 1) \<le> f64_of_nat (d div nanos_per_sec)"
    unfolding f64_of_nat_def by (rule fl_mono)
  moreover have "0 \<le> fdiv (f64_of_nat (d mod nanos_per_sec)) 1000000000"
    by (simp add: fdiv_def fl_nonneg)
  ultimately have "rat_of_int 1 \<le> f64_of_nat (d div nanos_per_sec) + fdiv (f64_of_nat (d mod nanos_per_sec)) 1000000000"
    using fl_of_int [of 1] by simp
  then have "fl (rat_of_int 1) \<le> as_secs_f64 d" unfolding as_secs_f64_def fadd_def by (rule fl_mono)
  then show ?thesis using fl_of_int [of 1] by simp
qed

lemma fract_of_int [simp]: "fract (of_int n) = 0"
  by (simp add: fract_def)

lemma fract_eq_0_iff: "fract x = 0 \<longleftrightarrow> x \<in> \<int>"
proof
  assume "fract x = 0"
  then have "x = of_int \<lfloor>x\<rfloor> \<or> x = of_int \<lceil>x\<rceil>" by (auto simp: fract_def split: if_splits)
  then show "x \<in> \<int>" by (metis Ints_of_int)
qed (auto elim: Ints_cases)

text \<open>Converting an integer never leaves the integers.\<close>

lemma f64_of_nat_Ints: "f64_of_nat n \<in> \<int>"
proof (cases "n < 2 ^ 53")
  case True
  then show ?thesis by (simp add: f64_of_nat_def fl_of_nat)
next
  case False
  let ?x = "rat_of_nat n"
  have pos: "0 < ?x" using False by (simp add: not_less)
  have "pow2 53 = rat_of_nat (2 ^ 53)" by (simp add: pow2_def)
  also have "\<dots> \<le> ?x" using False by (simp only: of_nat_le_iff not_less)
  finally have "pow2 53 < pow2 (ilog2 ?x + 1)" using ilog2_bounds(2) [OF pos] by linarith
  then have "0 \<le> ulp_exp ?x" by (simp add: pow2_less_iff ulp_exp_def)
  then have "pow2 (ulp_exp ?x) \<in> \<int>" by (simp add: pow2_nat del: of_int_power)
  then show ?thesis by (simp add: f64_of_nat_def fl_def)
qed

section \<open>What clients rely on\<close>

text \<open>
  The laws of IEEE rounding the clients of this theory use: it is monotone, exact on the
  integers below \<open>2 ^ 53\<close>, and odd.
\<close>

locale rounding =
  fixes rnd :: "rat \<Rightarrow> rat"
  assumes rnd_mono: "x \<le> y \<Longrightarrow> rnd x \<le> rnd y"
    and rnd_int: "\<bar>n\<bar> < 2 ^ 53 \<Longrightarrow> rnd (of_int n) = of_int n"
    and rnd_minus: "rnd (- x) = - rnd x"
begin

lemma rnd_0: "rnd 0 = 0"
  using rnd_int [of 0] by simp

lemma rnd_nonneg: "0 \<le> x \<Longrightarrow> 0 \<le> rnd x"
  using rnd_mono [of 0 x] by (simp add: rnd_0)

lemma rnd_diff_nonneg: "y \<le> x \<Longrightarrow> 0 \<le> rnd (x - y)"
  by (rule rnd_nonneg) simp

lemma rnd_le_int: "\<bar>n\<bar> < 2 ^ 53 \<Longrightarrow> x \<le> of_int n \<Longrightarrow> rnd x \<le> of_int n"
  using rnd_mono [of x "of_int n"] by (simp add: rnd_int)

lemma int_le_rnd: "\<bar>n\<bar> < 2 ^ 53 \<Longrightarrow> of_int n \<le> x \<Longrightarrow> of_int n \<le> rnd x"
  using rnd_mono [of "of_int n" x] by (simp add: rnd_int)

text \<open>A sum that stays below an integer bound rounds to at most that bound, and adding
  something non-negative to an integer never rounds below it.\<close>

lemma rnd_add_lower: "\<bar>n\<bar> < 2 ^ 53 \<Longrightarrow> of_int n \<le> x \<Longrightarrow> 0 \<le> y \<Longrightarrow> of_int n \<le> rnd (x + y)"
  by (rule int_le_rnd) simp_all

end

interpretation ieee: rounding fl
  by unfold_locales (simp_all add: fl_mono fl_of_int fl_minus)

end
