(* ===== verification/Event.thy ===== *)
theory Event
  imports F64
begin

text \<open>
  The data every component exchanges: \<open>ChangeEvent\<close> and \<open>Operation\<close> of
  \<^verbatim>\<open>src/src/source/mod.rs\<close>, and the \<open>serde_json::Value\<close> payloads they carry. A JSON
  object is the list of its entries in iteration order; \<open>serde_json\<close> is built without
  \<open>preserve_order\<close>, so that order is the sorted one of a \<open>BTreeMap\<close>. Text forms of JSON
  (\<open>Value::to_string\<close>, \<open>to_vec\<close>, \<open>from_slice\<close>, the \<open>Debug\<close> format) belong to
  \<open>serde_json\<close> and are parameters wherever they are used. A timestamp is a count of
  nanoseconds; \<open>Utc::now()\<close> and \<open>Instant::now()\<close> are arguments named \<open>now\<close>.
\<close>

section \<open>JSON values\<close>

datatype json_number = PosInt u64 | NegInt int | Float f64

datatype json =
    Null
  | Bool bool
  | Number json_number
  | String string
  | Array "json list"
  | Object "(string \<times> json) list"

fun as_object :: "json \<Rightarrow> (string \<times> json) list option" where
  "as_object (Object m) = Some m"
| "as_object _ = None"

fun as_str :: "json \<Rightarrow> string option" where
  "as_str (String s) = Some s"
| "as_str _ = None"

definition json_get :: "json \<Rightarrow> string \<Rightarrow> json option" where
  "json_get v k = Option.bind (as_object v) (\<lambda>m. map_of m k)"

fun is_string :: "json \<Rightarrow> bool" where
  "is_string (String _) = True"
| "is_string _ = False"

fun is_boolean :: "json \<Rightarrow> bool" where
  "is_boolean (Bool _) = True"
| "is_boolean _ = False"

fun is_number :: "json \<Rightarrow> bool" where
  "is_number (Number _) = True"
| "is_number _ = False"

text \<open>\<open>Value::as_f64\<close>: integers are converted, rounding beyond 53 bits.\<close>

fun as_f64 :: "json \<Rightarrow> f64 option" where
  "as_f64 (Number (PosInt n)) = Some (f64_of_nat (unat n))"
| "as_f64 (Number (NegInt n)) = Some (fl (of_int n))"
| "as_f64 (Number (Float x)) = Some x"
| "as_f64 _ = None"

text \<open>What \<open>serde_json\<close> keeps of every value: the keys of an object are distinct.\<close>

fun json_ok :: "json \<Rightarrow> bool" where
  "json_ok (Object m) \<longleftrightarrow> distinct (map fst m) \<and> (\<forall>p \<in> set m. json_ok (snd p))"
| "json_ok (Array vs) \<longleftrightarrow> (\<forall>v \<in> set vs. json_ok v)"
| "json_ok _ \<longleftrightarrow> True"

section \<open>Change events\<close>

datatype operation = Create | Update | Delete | Snapshot | Commit | Rollback

record change_event =
  ev_id :: string
  source_database :: string
  source_table_or_collection :: string
  operation :: operation
  timestamp :: int
  ev_key :: json
  before :: "json option"
  after :: "json option"
  transaction_id :: "string option"
  offset :: string

text \<open>A small event for closed examples.\<close>

definition demo_event :: "string \<Rightarrow> operation \<Rightarrow> string option \<Rightarrow> change_event" where
  "demo_event i op tx =
     \<lparr>ev_id = i, source_database = ''db'', source_table_or_collection = ''tbl'', operation = op,
      timestamp = 0, ev_key = Null, before = None, after = None, transaction_id = tx, offset = i\<rparr>"

definition demo_row :: "string \<Rightarrow> operation \<Rightarrow> string \<Rightarrow> nat \<Rightarrow> change_event" where
  "demo_row tbl op key v =
     (demo_event key op None)\<lparr>source_table_or_collection := tbl, ev_key := String key,
        after := Some (Number (PosInt (of_nat v)))\<rparr>"

definition demo_to_str :: "json \<Rightarrow> string" where
  "demo_to_str v = (case v of String s \<Rightarrow> s | _ \<Rightarrow> [])"

lemmas demo_row_simps = demo_row_def demo_to_str_def demo_event_def

lemma json_get_simps [simp]:
  "json_get (Object m) k = map_of m k"
  "json_get Null k = None"
  "json_get (Bool b) k = None"
  "json_get (Number n) k = None"
  "json_get (String s) k = None"
  "json_get (Array vs) k = None"
  by (simp_all add: json_get_def)

lemma as_str_Some_iff: "as_str v = Some s \<longleftrightarrow> v = String s"
  by (cases v) auto

lemma as_object_Some_iff: "as_object v = Some m \<longleftrightarrow> v = Object m"
  by (cases v) auto

lemma is_number_as_f64: "is_number v \<longleftrightarrow> as_f64 v \<noteq> None"
proof (cases v)
  case (Number n)
  then show ?thesis by (cases n) auto
qed auto

end
