(* ===== verification/Confluent.thy ===== *)
theory Confluent
  imports Event
begin

unbundle bit_operations_syntax

text \<open>
  \<^verbatim>\<open>src/src/storage/confluent.rs\<close> and \<^verbatim>\<open>src/src/serialize/avro.rs\<close>: the schema id
  registry, the five byte wire header, and the encoder on top of them. The registry is
  modelled twice: as the sequential operation a single caller sees, and as the atomic steps
  concurrent callers interleave (the cache is read under one lock, the id is taken and the
  cache written under others). The JSON codec of events is the parameter \<open>event_codec\<close>.
\<close>

section \<open>Model\<close>

record confluent_client =
  registry_url :: string
  next_schema_id :: u32
  schema_cache :: "(string, u32) hash_map"

definition confluent_new :: "string \<Rightarrow> confluent_client" where
  "confluent_new url = \<lparr>registry_url = url, next_schema_id = 100, schema_cache = []\<rparr>"

text \<open>The part of \<open>register_schema\<close> after a miss: take the next id and cache it.\<close>

definition assign_id :: "confluent_client \<Rightarrow> string \<Rightarrow> u32 \<times> confluent_client" where
  "assign_id c subject =
     (let assigned_id = next_schema_id c in
      (assigned_id,
       c\<lparr>next_schema_id := assigned_id + 1,
         schema_cache := hm_insert subject assigned_id (schema_cache c)\<rparr>))"

definition register_subject :: "confluent_client \<Rightarrow> string \<Rightarrow> string \<Rightarrow> u32 \<times> confluent_client" where
  "register_subject c subject schema_json =
     (case hm_get (schema_cache c) subject of
        Some i \<Rightarrow> (i, c)
      | None \<Rightarrow> assign_id c subject)"

definition to_be_bytes :: "u32 \<Rightarrow> bytes" where
  "to_be_bytes w = [ucast (drop_bit 24 w), ucast (drop_bit 16 w), ucast (drop_bit 8 w), ucast w]"

fun from_be_bytes :: "bytes \<Rightarrow> u32" where
  "from_be_bytes [a, b, c, d] =
     push_bit 24 (ucast a) OR push_bit 16 (ucast b) OR push_bit 8 (ucast c) OR ucast d"
| "from_be_bytes _ = 0"

definition encode_wire_format :: "u32 \<Rightarrow> bytes \<Rightarrow> bytes" where
  "encode_wire_format schema_id payload_bytes = [0x00] @ to_be_bytes schema_id @ payload_bytes"

definition decode_wire_format :: "bytes \<Rightarrow> (string, u32 \<times> bytes) result" where
  "decode_wire_format buffer =
     (if length buffer < 5 then Err ''Buffer too short for Confluent wire format header''
      else if buffer ! 0 \<noteq> 0x00 then
        Err (''Invalid magic byte: expected 0x00, got 0x'' @ hex_fixed 2 (unat (buffer ! 0)))
      else Ok (from_be_bytes (take 4 (drop 1 buffer)), drop 5 buffer))"

record event_codec =
  event_to_vec :: "change_event \<Rightarrow> (string, bytes) result"
  event_from_slice :: "bytes \<Rightarrow> (string, change_event) result"

definition avro_schema :: string where
  "avro_schema = ''{\"type\":\"record\",\"name\":\"ChangeEvent\"}''"

text \<open>An encoder is its client of the registry.\<close>

definition avro_encoder_new :: "string \<Rightarrow> confluent_client" where
  "avro_encoder_new url = confluent_new url"

definition encode_event ::
    "event_codec \<Rightarrow> confluent_client \<Rightarrow> change_event \<Rightarrow> (string, bytes) result \<times> confluent_client" where
  "encode_event J c event =
     (let subject = source_table_or_collection event @ ''-value'';
          (schema_id, c') = register_subject c subject avro_schema
      in (try_map (\<lambda>e. ''Serialization error: '' @ e) (event_to_vec J event)
            (\<lambda>raw_payload. Ok (encode_wire_format schema_id raw_payload)), c'))"

definition decode_event :: "event_codec \<Rightarrow> bytes \<Rightarrow> (string, u32 \<times> change_event) result" where
  "decode_event J buffer =
     try_map id (decode_wire_format buffer) (\<lambda>(schema_id, payload_bytes).
       try_map (\<lambda>e. ''Deserialization error: '' @ e) (event_from_slice J payload_bytes)
         (\<lambda>event. Ok (schema_id, event)))"

section \<open>Concurrent registration\<close>

text \<open>A call of \<open>register_schema\<close> in progress: about to read the cache, past a miss, or done.\<close>

datatype reg_call = Reading string | Missed string | Returned string u32

record reg_sys =
  client :: confluent_client
  calls :: "reg_call list"

inductive reg_step :: "reg_sys \<Rightarrow> reg_sys \<Rightarrow> bool" where
  hit: "i < length (calls s) \<Longrightarrow> calls s ! i = Reading subj \<Longrightarrow>
      hm_get (schema_cache (client s)) subj = Some n \<Longrightarrow>
      reg_step s (s\<lparr>calls := (calls s)[i := Returned subj n]\<rparr>)"
| miss: "i < length (calls s) \<Longrightarrow> calls s ! i = Reading subj \<Longrightarrow>
      hm_get (schema_cache (client s)) subj = None \<Longrightarrow>
      reg_step s (s\<lparr>calls := (calls s)[i := Missed subj]\<rparr>)"
| assign: "i < length (calls s) \<Longrightarrow> calls s ! i = Missed subj \<Longrightarrow>
      assign_id (client s) subj = (n, c') \<Longrightarrow>
      reg_step s (s\<lparr>client := c', calls := (calls s)[i := Returned subj n]\<rparr>)"

fun unfinished :: "reg_call \<Rightarrow> bool" where
  "unfinished (Returned _ _) = False"
| "unfinished _ = True"

definition reg_start :: "reg_sys \<Rightarrow> bool" where
  "reg_start s \<longleftrightarrow> (\<exists>url subjects. client s = confluent_new url \<and> calls s = map Reading subjects
     \<and> 100 + length subjects < 2 ^ 32)"

text \<open>Every id handed out, with the subject it was handed out for.\<close>

definition issued :: "reg_sys \<Rightarrow> (string \<times> u32) set" where
  "issued s = set (schema_cache (client s)) \<union> {(t, n). Returned t n \<in> set (calls s)}"

definition reg_inv :: "reg_sys \<Rightarrow> bool" where
  "reg_inv s \<longleftrightarrow>
     hm_ok (schema_cache (client s))
     \<and> (\<forall>t n. (t, n) \<in> issued s \<longrightarrow> 100 \<le> unat n \<and> unat n < unat (next_schema_id (client s)))
     \<and> (\<forall>t u n. (t, n) \<in> issued s \<longrightarrow> (u, n) \<in> issued s \<longrightarrow> t = u)
     \<and> 100 \<le> unat (next_schema_id (client s))
     \<and> unat (next_schema_id (client s)) + length (filter unfinished (calls s)) < 2 ^ 32"

section \<open>Lemmas\<close>

lemma to_be_bytes_length [simp]: "length (to_be_bytes w) = 4"
  by (simp add: to_be_bytes_def)

lemma from_to_be_bytes [simp]: "from_be_bytes (to_be_bytes w) = w"
proof (rule bit_word_eqI)
  fix n
  assume "n < LENGTH(32)"
  consider "n < 8" | "8 \<le> n" "n < 16" | "16 \<le> n" "n < 24" | "24 \<le> n" by linarith
  then show "bit (from_be_bytes (to_be_bytes w)) n = bit w n"
    using \<open>n < LENGTH(32)\<close> by cases (auto simp: to_be_bytes_def bit_simps)
qed

lemma to_from_be_bytes: "to_be_bytes (from_be_bytes [a, b, c, d]) = [a, b, c, d]"
  by (simp add: to_be_bytes_def) (intro conjI bit_word_eqI; auto simp: bit_simps dest: bit_imp_le_length)

lemma length4E:
  assumes "length xs = 4"
  obtains a b c d where "xs = [a, b, c, d]"
  using assms by (auto simp: numeral_eq_Suc length_Suc_conv)

lemma decode_encode: "decode_wire_format (encode_wire_format i p) = Ok (i, p)"
  by (simp add: decode_wire_format_def encode_wire_format_def)

lemma encode_decode:
  assumes "decode_wire_format b = Ok (i, p)"
  shows "encode_wire_format i p = b"
proof -
  have l: "5 \<le> length b" "b ! 0 = 0" "i = from_be_bytes (take 4 (drop 1 b))" "p = drop 5 b"
    using assms by (auto simp: decode_wire_format_def split: if_splits)
  then have "length (take 4 (drop 1 b)) = 4" by simp
  then obtain u v w x where q: "take 4 (drop 1 b) = [u, v, w, x]" by (rule length4E)
  obtain h t where b: "b = h # t" using l(1) by (cases b) auto
  have "encode_wire_format i p = 0 # take 4 t @ drop 4 t"
    using l(3,4) q to_from_be_bytes [of u v w x] by (simp add: encode_wire_format_def b)
  then show ?thesis using l(2) by (simp add: b)
qed

section \<open>Interface\<close>

text \<open>What an encoder relies on of its framing: decoding inverts encoding, and only framed
  payloads decode.\<close>

locale framing =
  fixes frame :: "'h \<Rightarrow> bytes \<Rightarrow> bytes"
    and unframe :: "bytes \<Rightarrow> ('e, 'h \<times> bytes) result"
  assumes unframe_frame: "unframe (frame h p) = Ok (h, p)"
    and frame_unframe: "unframe b = Ok (h, p) \<Longrightarrow> frame h p = b"
begin

lemma frame_inject: "frame h p = frame h' p' \<longleftrightarrow> h = h' \<and> p = p'"
  by (metis unframe_frame sum.inject(2) prod.inject)

text \<open>A payload codec composed with the framing round trips when the payload codec does.\<close>

lemma framed_roundtrip:
  "dec p = Ok x \<Longrightarrow>
     try_map id (unframe (frame h p)) (\<lambda>(h, q). try_map g (dec q) (\<lambda>y. Ok (h, y))) = Ok (h, x)"
  by (simp add: unframe_frame)

end

interpretation wire: framing encode_wire_format decode_wire_format
  by unfold_locales (simp_all add: decode_encode encode_decode)

section \<open>Registration\<close>

lemma register_hit: "hm_get (schema_cache c) s = Some n \<Longrightarrow> register_subject c s j = (n, c)"
  by (simp add: register_subject_def)

lemma register_cached: "hm_get (schema_cache (snd (register_subject c s j))) s = Some (fst (register_subject c s j))"
  by (auto simp: register_subject_def assign_id_def Let_def split: option.split)

lemma unat_Suc_bounded: "unat (w :: u32) + k < 2 ^ 32 \<Longrightarrow> 0 < k \<Longrightarrow> unat (w + 1) = unat w + 1"
  by (subst unat_word_ariths) simp

lemma filter_update_less:
  assumes "i < length xs" and "P (xs ! i)" and "\<not> P y"
  shows "Suc (length (filter P (xs[i := y]))) = length (filter P xs)"
proof -
  have "filter P (xs[i := y]) = filter P (take i xs) @ filter P (drop (Suc i) xs)"
    using assms by (simp add: upd_conv_take_nth_drop)
  moreover have "filter P xs = filter P (take i xs) @ xs ! i # filter P (drop (Suc i) xs)"
    using assms by (subst id_take_nth_drop [OF assms(1)]) simp
  ultimately show ?thesis by simp
qed

lemma filter_update_same:
  assumes "i < length xs" and "P (xs ! i)" and "P y"
  shows "length (filter P (xs[i := y])) = length (filter P xs)"
proof -
  have "filter P (xs[i := y]) = filter P (take i xs) @ y # filter P (drop (Suc i) xs)"
    using assms by (simp add: upd_conv_take_nth_drop)
  moreover have "filter P xs = filter P (take i xs) @ xs ! i # filter P (drop (Suc i) xs)"
    using assms by (subst id_take_nth_drop [OF assms(1)]) simp
  ultimately show ?thesis by simp
qed


lemma hm_insertD: "p \<in> set (hm_insert k v m) \<Longrightarrow> p = (k, v) \<or> p \<in> set m"
  by (induction m) (auto simp: hm_insert_def split: if_splits)

lemma set_updateD: "y \<in> set (xs[i := x]) \<Longrightarrow> y = x \<or> y \<in> set xs"
  using set_update_subset_insert by fastforce

text \<open>A step that hands out no new id keeps the invariant.\<close>

lemma reg_inv_shrink:
  assumes "reg_inv s" and "client t = client s" and "issued t \<subseteq> issued s"
    and "length (filter unfinished (calls t)) \<le> length (filter unfinished (calls s))"
  shows "reg_inv t"
proof -
  have "\<forall>u n. (u, n) \<in> issued t \<longrightarrow> 100 \<le> unat n \<and> unat n < unat (next_schema_id (client t))"
    using assms by (auto simp: reg_inv_def)
  moreover have "\<forall>u v n. (u, n) \<in> issued t \<longrightarrow> (v, n) \<in> issued t \<longrightarrow> u = v"
    using assms(1,3) unfolding reg_inv_def by blast
  ultimately show ?thesis using assms by (simp add: reg_inv_def)
qed

lemma reg_inv_assign:
  assumes inv: "reg_inv s" and i: "i < length (calls s)" "calls s ! i = Missed subj"
    and a: "assign_id (client s) subj = (n, c')"
  shows "reg_inv (s\<lparr>client := c', calls := (calls s)[i := Returned subj n]\<rparr>)" (is "reg_inv ?t")
proof -
  let ?next = "next_schema_id (client s)"
  have n: "n = ?next" "next_schema_id c' = ?next + 1"
    "schema_cache c' = hm_insert subj n (schema_cache (client s))"
    using a by (auto simp: assign_id_def Let_def)
  have len: "Suc (length (filter unfinished (calls ?t))) = length (filter unfinished (calls s))"
    using i by (simp add: filter_update_less)
  have "unat ?next + length (filter unfinished (calls s)) < 2 ^ 32"
    using inv by (simp add: reg_inv_def)
  moreover have "0 < length (filter unfinished (calls s))" using len by linarith
  ultimately have next': "unat (next_schema_id c') = unat ?next + 1"
    unfolding n(2) by (rule unat_Suc_bounded)
  have iss: "issued ?t \<subseteq> insert (subj, n) (issued s)"
    by (auto simp: issued_def n(3) dest!: hm_insertD set_updateD)
  have fresh: "unat m < unat n" if "(t, m) \<in> issued s" for t m
    using inv that by (auto simp: reg_inv_def n(1))
  have old: "100 \<le> unat m" if "(t, m) \<in> issued s" for t m
    using inv that by (auto simp: reg_inv_def)
  have low: "100 \<le> unat n" using inv by (simp add: reg_inv_def n(1))
  have "100 \<le> unat m \<and> unat m < unat (next_schema_id (client ?t))" if "(t, m) \<in> issued ?t" for t m
  proof -
    have "(t, m) = (subj, n) \<or> (t, m) \<in> issued s" using iss that by blast
    then show ?thesis using fresh [of t m] old [of t m] low by (auto simp: next' n(1))
  qed
  moreover have "t = u" if "(t, m) \<in> issued ?t" and "(u, m) \<in> issued ?t" for t u m
  proof -
    have "(t, m) = (subj, n) \<or> (t, m) \<in> issued s" "(u, m) = (subj, n) \<or> (u, m) \<in> issued s"
      using iss that by blast+
    then show ?thesis
      using fresh [of t n] fresh [of u n] inv unfolding reg_inv_def by blast
  qed
  ultimately show ?thesis
    using inv len by (auto simp: reg_inv_def next' n(3) hm_ok_intros)
qed

lemma reg_step_inv:
  assumes "reg_inv s" and "reg_step s t"
  shows "reg_inv t"
  using assms(2)
proof cases
  case (hit i subj n)
  have "issued t \<subseteq> issued s"
    using hit by (auto simp: issued_def dest!: set_updateD dest: map_of_SomeD)
  with assms(1) hit show ?thesis
    by (intro reg_inv_shrink [of s t]) (simp_all, metis filter_update_less unfinished.simps Suc_leD order_refl)
next
  case (miss i subj)
  have "issued t \<subseteq> issued s"
    using miss by (auto simp: issued_def dest!: set_updateD)
  with assms(1) miss show ?thesis
    by (intro reg_inv_shrink [of s t]) (simp_all add: filter_update_same)
next
  case (assign i subj n c')
  with assms(1) show ?thesis by (simp add: reg_inv_assign)
qed

lemma reg_start_inv: "reg_start s \<Longrightarrow> reg_inv s"
  by (auto simp: reg_start_def reg_inv_def issued_def confluent_new_def)

interpretation reg: inductive_invariant reg_start reg_step reg_inv
  by unfold_locales (simp_all add: reg_start_inv reg_step_inv)


section \<open>Properties\<close>

text \<open>
  C20: The wire format is exact. Decoding a framed payload gives back the schema id and the
  payload, for every id and payload; a buffer decodes only if it is such a frame; and it fails
  to decode exactly when it is shorter than five bytes or its first byte is not zero.
\<close>

theorem wire_format_exact:
  "decode_wire_format (encode_wire_format i p) = Ok (i, p)
   \<and> (decode_wire_format b = Ok (j, q) \<longrightarrow> b = encode_wire_format j q)
   \<and> (is_ok (decode_wire_format b) \<longleftrightarrow> 5 \<le> length b \<and> b ! 0 = 0)"
  using wire.unframe_frame [of i p] wire.frame_unframe [of b j q]
  by (auto simp: decode_wire_format_def is_ok_def split: if_splits)

theorem wire_format_exact_witness:
  "[0, 0, 0, 0, 100, 7] = encode_wire_format 100 [7]"
proof -
  have "decode_wire_format [0, 0, 0, 0, 100, 7] = Ok (100, [7])"
    by (simp add: decode_wire_format_def)
  with wire_format_exact [of 0 "[]" "[0, 0, 0, 0, 100, 7]" 100 "[7]"] show ?thesis by blast
qed

text \<open>
  C21: Encoding an event and decoding the bytes gives back the event and the schema id of its
  table, whatever the registry held before; the same table gets the same id again, and the
  registry does not change when it does.
\<close>

theorem avro_roundtrip:
  assumes "event_to_vec J event = Ok raw" and "event_from_slice J raw = Ok event"
  shows "\<exists>n c'. encode_event J c event = (Ok (encode_wire_format n raw), c')
       \<and> decode_event J (encode_wire_format n raw) = Ok (n, event)
       \<and> hm_get (schema_cache c') (source_table_or_collection event @ ''-value'') = Some n
       \<and> encode_event J c' event = (Ok (encode_wire_format n raw), c')"
proof -
  let ?s = "source_table_or_collection event @ ''-value''"
  obtain n c' where reg: "register_subject c ?s avro_schema = (n, c')" by fastforce
  have "hm_get (schema_cache c') ?s = Some n"
    using register_cached [of c ?s avro_schema] by (simp add: reg)
  moreover from register_hit [OF this, of avro_schema]
  have "encode_event J c' event = (Ok (encode_wire_format n raw), c')"
    using assms by (simp add: encode_event_def Let_def)
  moreover have "decode_event J (encode_wire_format n raw) = Ok (n, event)"
    unfolding decode_event_def by (rule wire.framed_roundtrip) (rule assms(2))
  ultimately show ?thesis
    using reg assms(1) by (simp add: encode_event_def Let_def)
qed

theorem avro_roundtrip_witness:
  "let J = \<lparr>event_to_vec = (\<lambda>_. Ok [1, 2]), event_from_slice = (\<lambda>_. Ok (demo_event ''1'' Create None))\<rparr>
   in \<exists>n c'. encode_event J (confluent_new ''http://localhost:8081'') (demo_event ''1'' Create None)
              = (Ok (encode_wire_format n [1, 2]), c')
        \<and> decode_event J (encode_wire_format n [1, 2]) = Ok (n, demo_event ''1'' Create None)"
proof -
  let ?J = "\<lparr>event_to_vec = (\<lambda>_. Ok [1, 2]), event_from_slice = (\<lambda>_. Ok (demo_event ''1'' Create None))\<rparr>"
  have "event_to_vec ?J (demo_event ''1'' Create None) = Ok [1, 2]"
    and "event_from_slice ?J [1, 2] = Ok (demo_event ''1'' Create None)" by simp_all
  from avro_roundtrip [OF this, of "confluent_new ''http://localhost:8081''"]
  show ?thesis unfolding Let_def by blast
qed


definition demo_reg :: "reg_call list \<Rightarrow> u32 \<Rightarrow> (string, u32) hash_map \<Rightarrow> reg_sys" where
  "demo_reg cs n m =
     \<lparr>client = \<lparr>registry_url = ''u'', next_schema_id = n, schema_cache = m\<rparr>, calls = cs\<rparr>"

text \<open>Two callers of one subject that both miss the cache.\<close>

lemma demo_reg_race:
  "reach reg_start reg_step
     (demo_reg [Returned ''s'' 100, Returned ''s'' 101] 102 [(''s'', 101)])"
proof -
  let ?a = "demo_reg [Reading ''s'', Reading ''s''] 100 []"
  let ?b = "demo_reg [Missed ''s'', Reading ''s''] 100 []"
  let ?c = "demo_reg [Missed ''s'', Missed ''s''] 100 []"
  let ?d = "demo_reg [Returned ''s'' 100, Missed ''s''] 101 [(''s'', 100)]"
  have "reach reg_start reg_step ?a"
    by (rule reach.at_start)
      (auto simp: reg_start_def demo_reg_def confluent_new_def intro: exI [of _ "[''s'', ''s'']"])
  moreover have "reg_step ?a ?b"
    using reg_step.miss [of 0 ?a "''s''"] by (simp add: demo_reg_def)
  moreover have "reg_step ?b ?c"
    using reg_step.miss [of 1 ?b "''s''"] by (simp add: demo_reg_def)
  moreover have "reg_step ?c ?d"
    using reg_step.assign [of 0 ?c "''s''"] by (simp add: demo_reg_def assign_id_def Let_def hm_insert_def)
  moreover have "reg_step ?d (demo_reg [Returned ''s'' 100, Returned ''s'' 101] 102 [(''s'', 101)])"
    using reg_step.assign [of 1 ?d "''s''"] by (simp add: demo_reg_def assign_id_def Let_def hm_insert_def)
  ultimately show ?thesis by (meson reach.by_move)
qed


text \<open>
  Registration is not idempotent under concurrency: there is an interleaving of two calls
  for the same subject in which they return different ids, so one caller frames its payloads
  with an id the cache no longer maps the subject to.
\<close>

theorem registration_race:
  "\<exists>s. reach reg_start reg_step s \<and> Returned ''s'' 100 \<in> set (calls s)
     \<and> Returned ''s'' 101 \<in> set (calls s) \<and> hm_get (schema_cache (client s)) ''s'' = Some 101"
  using demo_reg_race by (intro exI) (auto simp: demo_reg_def)

end
