(* ===== verification/Security.thy ===== *)
theory Security
  imports Event
begin

text \<open>
  \<^verbatim>\<open>src/src/security/kms.rs\<close> and \<^verbatim>\<open>src/src/security/mod.rs\<close>: the key store with
  rotation and the field masking engine. \<open>Value::to_string\<close> is the parameter \<open>to_str\<close>.
\<close>

section \<open>Key store\<close>

record kms_provider =
  current_version :: u32
  kms_keys :: "(u32, bytes) hash_map"

definition kms_new :: "bytes \<Rightarrow> kms_provider" where
  "kms_new initial_key = \<lparr>current_version = 1, kms_keys = hm_insert 1 initial_key []\<rparr>"

definition get_active_key :: "kms_provider \<Rightarrow> u32 \<times> bytes" where
  "get_active_key k =
     (current_version k,
      case hm_get (kms_keys k) (current_version k) of Some key \<Rightarrow> key | None \<Rightarrow> [])"

definition get_key_by_version :: "kms_provider \<Rightarrow> u32 \<Rightarrow> bytes option" where
  "get_key_by_version k version = hm_get (kms_keys k) version"

definition rotate_key :: "kms_provider \<Rightarrow> bytes \<Rightarrow> u32 \<times> kms_provider" where
  "rotate_key k new_key =
     (let next_version = current_version k + 1 in
      (next_version,
       k\<lparr>kms_keys := hm_insert next_version new_key (kms_keys k), current_version := next_version\<rparr>))"

text \<open>
  Concurrent use: \<open>get_active_key\<close> reads the version under one lock, drops it, and reads the key
  under the other; \<open>rotate_key\<close> holds both. \<open>added\<close> lists the keys rotated in so far.
\<close>

datatype key_reader = Asking | HasVersion u32 | GotKey u32 bytes

record kms_sys =
  provider :: kms_provider
  added :: "bytes list"
  key_readers :: "key_reader list"

inductive kms_step :: "kms_sys \<Rightarrow> kms_sys \<Rightarrow> bool" where
  read_version: "i < length (key_readers s) \<Longrightarrow> key_readers s ! i = Asking \<Longrightarrow>
    kms_step s (s\<lparr>key_readers := (key_readers s)[i := HasVersion (current_version (provider s))]\<rparr>)"
| read_key: "i < length (key_readers s) \<Longrightarrow> key_readers s ! i = HasVersion v \<Longrightarrow>
    kms_step s (s\<lparr>key_readers := (key_readers s)[i := GotKey v
      (case hm_get (kms_keys (provider s)) v of Some key \<Rightarrow> key | None \<Rightarrow> [])]\<rparr>)"
| rotate: "kms_step s (s\<lparr>provider := snd (rotate_key (provider s) key), added := added s @ [key]\<rparr>)"

definition kms_start :: "bytes \<Rightarrow> kms_sys \<Rightarrow> bool" where
  "kms_start key s \<longleftrightarrow> provider s = kms_new key \<and> added s = [] \<and> (\<forall>r \<in> set (key_readers s). r = Asking)"

section \<open>Masking engine\<close>

datatype masking_rule = Redact | Hash | Encrypt

record security_engine =
  field_rules :: "(string, masking_rule) hash_map"
  kms :: "kms_provider option"

definition engine_new :: security_engine where
  "engine_new = \<lparr>field_rules = [], kms = None\<rparr>"

definition with_kms :: "security_engine \<Rightarrow> kms_provider \<Rightarrow> security_engine" where
  "with_kms e k = e\<lparr>kms := Some k\<rparr>"

definition add_rule :: "security_engine \<Rightarrow> string \<Rightarrow> masking_rule \<Rightarrow> security_engine" where
  "add_rule e field_name rule = e\<lparr>field_rules := hm_insert field_name rule (field_rules e)\<rparr>"

definition djb2 :: "bytes \<Rightarrow> u64" where
  "djb2 bs = foldl (\<lambda>hash b. (push_bit 5 hash + hash) + ucast b) 5381 bs"

text \<open>The body of the loop over the rules, for one field value.\<close>

definition mask_value :: "(json \<Rightarrow> string) \<Rightarrow> kms_provider option \<Rightarrow> masking_rule \<Rightarrow> json \<Rightarrow> json" where
  "mask_value to_str kp rule val =
     (case rule of
        Redact \<Rightarrow> String ''[REDACTED]''
      | Hash \<Rightarrow> (case val of
          String s \<Rightarrow> String (hex_fixed 16 (unat (djb2 (as_bytes s))))
        | _ \<Rightarrow> val)
      | Encrypt \<Rightarrow> (case kp of
          Some k \<Rightarrow>
            (let (version, key) = get_active_key k;
                 raw_str = to_str val;
                 hex_key = hex_bytes key;
                 hex_data = hex_bytes (as_bytes raw_str)
             in String (''ENC:v'' @ show_nat (unat version) @ '':'' @ hex_key @ '':'' @ hex_data))
        | None \<Rightarrow> (case val of
            String s \<Rightarrow> String ''[ENCRYPTED_WITHOUT_KMS]''
          | _ \<Rightarrow> val)))"

definition apply_rule :: "(json \<Rightarrow> string) \<Rightarrow> kms_provider option
    \<Rightarrow> string \<times> masking_rule \<Rightarrow> (string \<times> json) list \<Rightarrow> (string \<times> json) list" where
  "apply_rule to_str kp p m =
     (case map_of m (fst p) of
        Some val \<Rightarrow> AList.update (fst p) (mask_value to_str kp (snd p) val) m
      | None \<Rightarrow> m)"

definition transform_value :: "(json \<Rightarrow> string) \<Rightarrow> security_engine \<Rightarrow> json \<Rightarrow> json" where
  "transform_value to_str e value =
     (case value of
        Object m \<Rightarrow> Object (fold (apply_rule to_str (kms e)) (field_rules e) m)
      | _ \<Rightarrow> value)"

definition apply_security :: "(json \<Rightarrow> string) \<Rightarrow> security_engine \<Rightarrow> change_event \<Rightarrow> change_event" where
  "apply_security to_str e event =
     (let event = event\<lparr>after := map_option (transform_value to_str e) (after event)\<rparr>
      in event\<lparr>before := map_option (transform_value to_str e) (before event)\<rparr>)"

text \<open>What the engine promises: every field masked by its own rule, and nothing else changed.\<close>

definition masked_entries :: "(json \<Rightarrow> string) \<Rightarrow> security_engine
    \<Rightarrow> (string \<times> json) list \<Rightarrow> (string \<times> json) list" where
  "masked_entries to_str e m =
     map (\<lambda>(key, v). (key, case hm_get (field_rules e) key of
        Some rule \<Rightarrow> mask_value to_str (kms e) rule v | None \<Rightarrow> v)) m"

definition masked_row :: "(json \<Rightarrow> string) \<Rightarrow> security_engine \<Rightarrow> json \<Rightarrow> json" where
  "masked_row to_str e v =
     (case v of Object m \<Rightarrow> Object (masked_entries to_str e m) | _ \<Rightarrow> v)"

text \<open>A reader of masked values who knows no key: the text after the last colon, as bytes.\<close>

definition unhex_digit :: "char \<Rightarrow> nat" where
  "unhex_digit c = (let n = of_char c in if n \<le> 57 then n - 48 else n - 87)"

fun unhex :: "string \<Rightarrow> bytes" where
  "unhex (a # b # cs) = of_nat (unhex_digit a * 16 + unhex_digit b) # unhex cs"
| "unhex _ = []"

definition read_masked :: "json \<Rightarrow> bytes" where
  "read_masked v =
     (case v of String s \<Rightarrow> unhex (rev (takeWhile (\<lambda>c. c \<noteq> CHR '':'') (rev s))) | _ \<Rightarrow> [])"

text \<open>The rotations of a sequence of keys.\<close>

definition rotate_all :: "kms_provider \<Rightarrow> bytes list \<Rightarrow> kms_provider" where
  "rotate_all k ks = foldl (\<lambda>k key. snd (rotate_key k key)) k ks"

section \<open>Lemmas\<close>

lemma apply_rule_entries:
  assumes "distinct (map fst m)"
  shows "apply_rule to_str kp (f, r) m =
     map (\<lambda>(key, v). (key, if key = f then mask_value to_str kp r v else v)) m"
proof -
  have upd: "distinct (map fst m) \<Longrightarrow> map_of m f = Some w \<Longrightarrow>
      AList.update f u m = map (\<lambda>(key, v). (key, if key = f then u else v)) m" for u w
  proof (induction m)
    case (Cons p m)
    have keep: "map (\<lambda>(key, v). (key, if key = f then u else v)) m = m" if "f \<notin> fst ` set m"
      using that by (intro map_idI) force
    from Cons keep show ?case by (cases p) (auto split: if_splits)
  qed simp
  show ?thesis
  proof (cases "map_of m f")
    case None
    then have "f \<notin> set (map fst m)" by (simp add: map_of_eq_None_iff)
    then show ?thesis by (force simp: apply_rule_def None intro!: map_idI [symmetric])
  next
    case (Some w)
    then show ?thesis
      using assms by (auto simp: apply_rule_def upd intro!: map_cong dest: map_of_is_SomeI eq_key_imp_eq_value)
  qed
qed

lemma map_fst_entries: "map fst (map (\<lambda>(key, v). (key, h key v)) m) = map fst m"
  by (induction m) auto

lemma fold_rules_entries:
  assumes "distinct (map fst rules)" and "distinct (map fst m)"
  shows "fold (apply_rule to_str kp) rules m =
     map (\<lambda>(key, v). (key, case map_of rules key of
        Some rule \<Rightarrow> mask_value to_str kp rule v | None \<Rightarrow> v)) m"
  using assms
proof (induction rules arbitrary: m)
  case (Cons p rules)
  obtain f r where p: "p = (f, r)" by fastforce
  have none: "map_of rules f = None"
    using Cons.prems(1) by (simp add: p map_of_eq_None_iff)
  let ?m = "map (\<lambda>(key, v). (key, if key = f then mask_value to_str kp r v else v)) m"
  have "fold (apply_rule to_str kp) (p # rules) m = fold (apply_rule to_str kp) rules ?m"
    using Cons.prems(2) by (simp add: p apply_rule_entries)
  also have "\<dots> = map (\<lambda>(key, v). (key, case map_of rules key of
        Some rule \<Rightarrow> mask_value to_str kp rule v | None \<Rightarrow> v)) ?m"
    using Cons.prems by (intro Cons.IH) (simp_all add: map_fst_entries del: map_map)
  also have "\<dots> = map (\<lambda>(key, v). (key, case map_of (p # rules) key of
        Some rule \<Rightarrow> mask_value to_str kp rule v | None \<Rightarrow> v)) m"
    using none by (auto simp: p)
  finally show ?case .
qed (auto intro!: map_idI [symmetric])

lemma hex_digit_le: "d < 16 \<Longrightarrow> of_char (hex_digit d) = (if d < 10 then 48 + d else 87 + d)"
  by (simp add: hex_digit_def)

lemma unhex_hex_digit: "d < 16 \<Longrightarrow> unhex_digit (hex_digit d) = d"
  by (simp add: unhex_digit_def hex_digit_le Let_def)

lemma hex_digit_not_colon: "d < 16 \<Longrightarrow> hex_digit d \<noteq> CHR '':''"
  using hex_digit_le [of d] by (auto split: if_splits)

lemma hex_bytes_simps [simp]:
  "hex_bytes [] = []"
  "hex_bytes (b # bs) = hex_digit (unat b div 16) # hex_digit (unat b mod 16) # hex_bytes bs"
proof -
  have "unat b < 256" using unsigned_less [of b] by simp
  then have "unat b div 16 mod 16 = unat b div 16" by simp
  then show "hex_bytes (b # bs) = hex_digit (unat b div 16) # hex_digit (unat b mod 16) # hex_bytes bs"
    by (simp add: hex_bytes_def numeral_2_eq_2)
qed (simp add: hex_bytes_def)

lemma byte_digits: "unat (b :: u8) div 16 < 16"
proof -
  have "unat b < 256" using unsigned_less [of b] by simp
  then show ?thesis by simp
qed

lemma unhex_hex_bytes [simp]: "unhex (hex_bytes bs) = bs"
  by (induction bs) (simp_all add: unhex_hex_digit byte_digits div_mult_mod_eq)

lemma hex_bytes_no_colon: "CHR '':'' \<notin> set (hex_bytes bs)"
proof (induction bs)
  case (Cons b bs)
  then show ?case
    using hex_digit_not_colon [OF byte_digits [of b]] hex_digit_not_colon [of "unat b mod 16"] by auto
qed simp

lemma rotate_all_simps [simp]:
  "rotate_all k [] = k"
  "rotate_all k (ks @ [key]) = snd (rotate_key (rotate_all k ks) key)"
  by (simp_all add: rotate_all_def)

lemma rotate_all_spec:
  assumes "length ks < 2 ^ 32 - 1"
  shows "current_version (rotate_all (kms_new key) ks) = of_nat (Suc (length ks))
       \<and> (\<forall>v. hm_get (kms_keys (rotate_all (kms_new key) ks)) v =
            (if 1 \<le> unat v \<and> unat v \<le> Suc (length ks) then Some ((key # ks) ! (unat v - 1)) else None))"
  using assms
proof (induction ks rule: rev_induct)
  case Nil
  have "1 \<le> unat v \<and> unat v \<le> Suc 0 \<longleftrightarrow> v = 1" for v :: u32
    by (metis One_nat_def le_antisym order_refl unsigned_1 unsigned_word_eqI)
  then show ?case by (auto simp: kms_new_def)
next
  case (snoc k ks)
  let ?n = "Suc (length ks)"
  have "unat (of_nat (Suc ?n) :: u32) = Suc ?n"
    using snoc.prems by (simp only: unat_of_nat) simp
  then have eq: "v = of_nat (Suc ?n) \<longleftrightarrow> unat v = Suc ?n" for v :: u32
    by (metis unsigned_word_eqI)
  have cur: "current_version (rotate_all (kms_new key) ks) + 1 = of_nat (Suc ?n)"
    using snoc by simp
  have "hm_get (kms_keys (rotate_all (kms_new key) (ks @ [k]))) v =
      (if unat v = Suc ?n then Some k else hm_get (kms_keys (rotate_all (kms_new key) ks)) v)" for v
    by (simp only: rotate_all_simps rotate_key_def Let_def cur snd_conv) (simp add: eq del: of_nat_Suc)
  moreover have "current_version (rotate_all (kms_new key) (ks @ [k])) = of_nat (Suc ?n)"
    using cur by (simp add: rotate_key_def Let_def)
  moreover have "(key # ks @ [k]) ! (unat v - 1) = (if unat v = Suc ?n then k else (key # ks) ! (unat v - 1))"
    if "1 \<le> unat v" "unat v \<le> Suc ?n" for v :: u32
    using that by (auto simp: nth_append nth_Cons split: nat.splits)
  ultimately show ?case using snoc by (auto simp del: of_nat_Suc rotate_all_simps)
qed

text \<open>A version some reader holds has been issued, and a key it got is the one of its version.\<close>

definition reader_ok :: "bytes list \<Rightarrow> key_reader \<Rightarrow> bool" where
  "reader_ok ks r \<longleftrightarrow>
     (case r of
        Asking \<Rightarrow> True
      | HasVersion v \<Rightarrow> 1 \<le> unat v \<and> unat v \<le> length ks
      | GotKey v k \<Rightarrow> 1 \<le> unat v \<and> unat v \<le> length ks \<and> k = ks ! (unat v - 1))"

definition kms_inv :: "bytes \<Rightarrow> kms_sys \<Rightarrow> bool" where
  "kms_inv key s \<longleftrightarrow> provider s = rotate_all (kms_new key) (added s)
     \<and> (length (added s) < 2 ^ 32 - 1 \<longrightarrow> (\<forall>r \<in> set (key_readers s). reader_ok (key # added s) r))"

lemma reader_ok_grow: "reader_ok ks r \<Longrightarrow> reader_ok (ks @ [k]) r"
  by (auto simp: reader_ok_def nth_append split: key_reader.splits)

lemma kms_step_inv:
  assumes "kms_inv key s" and "kms_step s t"
  shows "kms_inv key t"
  using assms(2)
proof cases
  case (read_version i)
  have "reader_ok (key # added s) (HasVersion (current_version (provider s)))" if lt: "length (added s) < 2 ^ 32 - 1"
  proof -
    have "unat (of_nat (Suc (length (added s))) :: u32) = Suc (length (added s))"
      using lt by (simp only: unat_of_nat) simp
    then show ?thesis using assms(1) rotate_all_spec [OF lt, of key] by (simp add: kms_inv_def reader_ok_def del: of_nat_Suc)
  qed
  with assms(1) read_version(1) show ?thesis by (auto simp: kms_inv_def dest!: set_update_subset_insert [THEN subsetD])
next
  case (read_key i v)
  have "reader_ok (key # added s) (GotKey v (case hm_get (kms_keys (provider s)) v of Some key \<Rightarrow> key | None \<Rightarrow> []))"
    if lt: "length (added s) < 2 ^ 32 - 1"
  proof -
    have "reader_ok (key # added s) (HasVersion v)" using assms(1) read_key(2,3) lt by (metis kms_inv_def nth_mem)
    then show ?thesis using assms(1) rotate_all_spec [OF lt, of key] by (simp add: kms_inv_def reader_ok_def)
  qed
  with assms(1) read_key(1) show ?thesis by (auto simp: kms_inv_def dest!: set_update_subset_insert [THEN subsetD])
next
  case (rotate k)
  with assms(1) reader_ok_grow [of "key # added s" _ k] show ?thesis by (auto simp: kms_inv_def)
qed

interpretation kms_readers: inductive_invariant "kms_start key" kms_step "kms_inv key" for key
proof
  show "kms_inv key s" if "kms_start key s" for s
    using that by (auto simp: kms_start_def kms_inv_def reader_ok_def)
qed (rule kms_step_inv)

lemma read_masked_last:
  "read_masked (String (pre @ '':'' @ hex_bytes bs)) = bs"
proof -
  have "takeWhile (\<lambda>c. c \<noteq> CHR '':'') (rev (hex_bytes bs) @ CHR '':'' # rev pre) = rev (hex_bytes bs)"
    using hex_bytes_no_colon [of bs] by (subst takeWhile_append2) auto
  then show ?thesis by (simp add: read_masked_def)
qed

section \<open>Properties\<close>

text \<open>
  Key rotation. After rotating in any sequence of keys (fewer than \<open>2 ^ 32 - 1\<close>), the
  active version is one more than their number and its key is the last one, and every earlier
  version still returns its own key; versions not yet issued return none.
\<close>

theorem rotation_keeps_old_keys:
  assumes "length ks < 2 ^ 32 - 1"
  shows "get_active_key (rotate_all (kms_new key) ks) = (of_nat (Suc (length ks)), last (key # ks))
       \<and> (\<forall>v. get_key_by_version (rotate_all (kms_new key) ks) v =
            (if 1 \<le> unat v \<and> unat v \<le> Suc (length ks) then Some ((key # ks) ! (unat v - 1)) else None))"
proof -
  let ?K = "rotate_all (kms_new key) ks"
  have n: "unat (of_nat (Suc (length ks)) :: u32) = Suc (length ks)"
    using assms by (simp only: unat_of_nat) simp
  have "(key # ks) ! length ks = last (key # ks)" by (simp add: last_conv_nth nth_Cons split: nat.split)
  then have "hm_get (kms_keys ?K) (current_version ?K) = Some (last (key # ks))"
    using rotate_all_spec [OF assms, of key] n by (simp del: of_nat_Suc last.simps)
  then show ?thesis
    using rotate_all_spec [OF assms, of key]
    by (simp add: get_active_key_def get_key_by_version_def del: of_nat_Suc)
qed

theorem rotation_keeps_old_keys_witness:
  "get_key_by_version (rotate_all (kms_new [1]) [[2], [3]]) 2 = Some [2]"
  using rotation_keeps_old_keys [of "[[2], [3]]" "[1]"] by simp

text \<open>
  C23: A reader never gets a key that is not the one of its version. Whatever rotations fall
  between the two locks of \<open>get_active_key\<close>, in every reachable state with fewer than
  \<open>2 ^ 32 - 1\<close> rotations each pair it returned is an issued version with the key rotated in
  as that version.
\<close>

theorem active_key_consistent:
  assumes "reach (kms_start key) kms_step s" and "length (added s) < 2 ^ 32 - 1"
    and "GotKey v k \<in> set (key_readers s)"
  shows "1 \<le> unat v \<and> unat v \<le> Suc (length (added s)) \<and> k = (key # added s) ! (unat v - 1)"
proof -
  have "reader_ok (key # added s) (GotKey v k)"
    using kms_readers.reach_inv [OF assms(1)] assms(2,3) by (simp add: kms_inv_def)
  then show ?thesis by (simp add: reader_ok_def)
qed

theorem active_key_consistent_witness:
  "\<exists>s. reach (kms_start [1]) kms_step s \<and> current_version (provider s) = 2 \<and> key_readers s = [GotKey 1 [1]]"
proof -
  let ?a = "\<lparr>provider = kms_new [1], added = [], key_readers = [Asking]\<rparr>"
  let ?b = "?a\<lparr>key_readers := [HasVersion 1]\<rparr>"
  let ?c = "?b\<lparr>provider := snd (rotate_key (kms_new [1]) [2]), added := [[2]]\<rparr>"
  let ?k = "case hm_get (kms_keys (provider ?c)) 1 of Some key \<Rightarrow> key | None \<Rightarrow> []"
  let ?d = "?c\<lparr>key_readers := [GotKey 1 ?k]\<rparr>"
  have "reach (kms_start [1]) kms_step ?a" by (rule reach.at_start) (simp add: kms_start_def)
  moreover have "kms_step ?a ?b" using kms_step.read_version [of 0 ?a] by (simp add: kms_new_def)
  moreover have "kms_step ?b ?c" using kms_step.rotate [of ?b "[2]"] by simp
  moreover have "kms_step ?c ?d" using kms_step.read_key [of 0 ?c 1] by simp
  ultimately have d: "reach (kms_start [1]) kms_step ?d" by (blast intro: reach.by_move)
  from active_key_consistent [OF d, of 1 ?k] have "?k = [1]" by simp
  with d show ?thesis by (intro exI [of _ ?d]) (simp add: rotate_key_def kms_new_def Let_def)
qed



text \<open>
  Encryption hides nothing. From the masked value alone, without the key store, the text
  of every encrypted field is read back, for any key.
\<close>

theorem encrypt_reveals_plaintext:
  "read_masked (mask_value to_str (Some k) Encrypt v) = as_bytes (to_str v)"
  using read_masked_last [of "''ENC:v'' @ show_nat (unat (fst (get_active_key k))) @ '':'' @
      hex_bytes (snd (get_active_key k))" "as_bytes (to_str v)"]
  by (simp add: mask_value_def Let_def split_beta)

end
