(* ===== verification/Sync.thy ===== *)
theory Sync
  imports Event "HOL-Library.Multiset"
begin

text \<open>
  \<^verbatim>\<open>src/src/sync/mod.rs\<close>: the active-active coordinator. It suppresses events that
  came back from the local cluster by a prefix of their transaction id, and resolves
  concurrent writes of one row by their timestamps.
\<close>

section \<open>Model\<close>

record cluster_node =
  cluster_id :: string
  endpoint_url :: string
  is_active :: bool

record sync_coordinator =
  local_cluster_id :: string
  remote_peers :: "cluster_node list"

definition sync_new :: "string \<Rightarrow> sync_coordinator" where
  "sync_new local_id = \<lparr>local_cluster_id = local_id, remote_peers = []\<rparr>"

definition register_peer :: "sync_coordinator \<Rightarrow> string \<Rightarrow> string \<Rightarrow> sync_coordinator" where
  "register_peer c peer url =
     c\<lparr>remote_peers := remote_peers c @ [\<lparr>cluster_id = peer, endpoint_url = url, is_active = True\<rparr>]\<rparr>"

definition should_forward :: "sync_coordinator \<Rightarrow> change_event \<Rightarrow> bool" where
  "should_forward c event =
     (case transaction_id event of
        Some tx_id \<Rightarrow> \<not> prefix (''remote-'' @ local_cluster_id c) tx_id
      | None \<Rightarrow> True)"

definition resolve_conflict :: "change_event \<Rightarrow> change_event \<Rightarrow> change_event" where
  "resolve_conflict event_a event_b =
     (if timestamp event_a \<ge> timestamp event_b then event_a else event_b)"

section \<open>Interface\<close>

text \<open>A choice between two writes that never returns the one with the smaller stamp. Any order
  of pairwise choices then ends with a write of the largest stamp.\<close>

locale last_write_wins =
  fixes stamp :: "'a \<Rightarrow> 'b :: linorder"
    and pick :: "'a \<Rightarrow> 'a \<Rightarrow> 'a"
  assumes pick_in: "pick a b = a \<or> pick a b = b"
    and pick_stamp: "stamp (pick a b) = max (stamp a) (stamp b)"
begin

lemma fold_pick_in: "foldl pick a xs \<in> set (a # xs)"
proof (induction xs arbitrary: a)
  case (Cons x xs)
  with pick_in [of a x] show ?case by (metis foldl_Cons list.set_intros set_ConsD)
qed simp

lemma fold_pick_stamp: "stamp (foldl pick a xs) = Max (stamp ` set (a # xs))"
proof (induction xs arbitrary: a)
  case (Cons x xs)
  have "Max (stamp ` set (pick a x # xs)) = Max (stamp ` set (a # x # xs))"
    by (cases "xs = []") (simp_all add: pick_stamp max.assoc)
  with Cons show ?case by simp
qed simp

lemma fold_pick_order:
  assumes "mset (a # xs) = mset (b # ys)" and "inj_on stamp (set (a # xs))"
  shows "foldl pick a xs = foldl pick b ys"
proof -
  have same: "set (a # xs) = set (b # ys)" using assms(1) by (rule mset_eq_setD)
  show ?thesis
  proof (rule inj_onD [OF assms(2)])
    show "stamp (foldl pick a xs) = stamp (foldl pick b ys)"
      by (simp only: fold_pick_stamp same)
    show "foldl pick b ys \<in> set (a # xs)"
      unfolding same by (rule fold_pick_in)
  qed (rule fold_pick_in)
qed

end

interpretation lww: last_write_wins timestamp resolve_conflict
  by unfold_locales (auto simp: resolve_conflict_def)

section \<open>Properties\<close>

text \<open>
  C36: Last write wins. Folding \<open>resolve_conflict\<close> over any number of concurrent writes
  returns one of them, with the largest timestamp among them; when no two timestamps are
  equal, every order of delivery ends with the same event.
\<close>

theorem conflicts_converge:
  assumes "mset (a # xs) = mset (b # ys)" and "inj_on timestamp (set (a # xs))"
  shows "foldl resolve_conflict a xs \<in> set (a # xs)
       \<and> timestamp (foldl resolve_conflict a xs) = Max (timestamp ` set (a # xs))
       \<and> foldl resolve_conflict a xs = foldl resolve_conflict b ys"
  using lww.fold_pick_in lww.fold_pick_stamp lww.fold_pick_order [OF assms] by blast

theorem conflicts_converge_witness:
  "let e = demo_event ''1'' Update None; f = (demo_event ''2'' Update None)\<lparr>timestamp := 5\<rparr>
   in foldl resolve_conflict e [f] = foldl resolve_conflict f [e]"
  using conflicts_converge [of "demo_event ''1'' Update None"
      "[(demo_event ''2'' Update None)\<lparr>timestamp := 5\<rparr>]"
      "(demo_event ''2'' Update None)\<lparr>timestamp := 5\<rparr>" "[demo_event ''1'' Update None]"]
  by (simp add: demo_event_def Let_def add_mset_commute)

text \<open>With equal timestamps the outcome depends on the order of delivery: the two clusters
  of a pair keep different rows.\<close>

lemma tied_conflicts_diverge:
  "\<exists>a b. timestamp a = timestamp b \<and> resolve_conflict a b \<noteq> resolve_conflict b a"
  by (intro exI [of _ "demo_event ''1'' Update None"] exI [of _ "demo_event ''2'' Update None"])
    (simp add: resolve_conflict_def demo_event_def)

text \<open>
  Loop suppression. An event is held back exactly when its transaction id starts with
  \<open>remote-\<close> and the local cluster id, so an event of a cluster whose id extends the local
  one is held back as well.
\<close>

theorem should_forward_exact:
  "(\<not> should_forward c event \<longleftrightarrow>
      (\<exists>rest. transaction_id event = Some (''remote-'' @ local_cluster_id c @ rest)))
   \<and> (\<exists>peer. peer \<noteq> ''us-east-1'' \<and>
        \<not> should_forward (sync_new ''us-east-1'') (demo_event i op (Some (''remote-'' @ peer @ ''-tx''))))"
proof (rule conjI)
  show "\<not> should_forward c event \<longleftrightarrow>
      (\<exists>rest. transaction_id event = Some (''remote-'' @ local_cluster_id c @ rest))"
    by (auto simp: should_forward_def prefix_def split: option.splits)
  show "\<exists>peer. peer \<noteq> ''us-east-1'' \<and>
      \<not> should_forward (sync_new ''us-east-1'') (demo_event i op (Some (''remote-'' @ peer @ ''-tx'')))"
    by (intro exI [of _ "''us-east-10''"])
      (simp add: should_forward_def sync_new_def demo_event_def)
qed

end
