(* ===== verification/State_Store.thy ===== *)
theory State_Store
  imports Event
begin

text \<open>
  \<^verbatim>\<open>src/src/storage/mod.rs\<close>: the checkpoint and schema store over RocksDB. RocksDB and the
  JSON codec of \<open>serde_json\<close> are parameters: a record of the two calls the store makes and
  their documented laws as predicates (\<open>rocksdb_laws\<close>, \<open>codec_roundtrips\<close>). A failing
  \<open>put\<close> may leave any database behind.
\<close>

section \<open>Parameters\<close>

record 'db rocksdb =
  db_put :: "'db \<Rightarrow> bytes \<Rightarrow> bytes \<Rightarrow> (string, unit) result \<times> 'db"
  db_get :: "'db \<Rightarrow> bytes \<Rightarrow> (string, bytes option) result"

record json_codec =
  to_vec :: "json \<Rightarrow> (string, bytes) result"
  from_slice :: "bytes \<Rightarrow> (string, json) result"

definition rocksdb_laws :: "'db rocksdb \<Rightarrow> bool" where
  "rocksdb_laws K \<longleftrightarrow>
     (\<forall>d k v d'. db_put K d k v = (Ok (), d') \<longrightarrow>
        (\<forall>k'. db_get K d' k' = (if k' = k then Ok (Some v) else db_get K d k')))"

definition codec_roundtrips :: "json_codec \<Rightarrow> json \<Rightarrow> bool" where
  "codec_roundtrips J v \<longleftrightarrow>
     (case to_vec J v of Inl _ \<Rightarrow> False | Inr b \<Rightarrow> from_slice J b = Ok v)"

section \<open>Model\<close>

datatype storage_error = Db string | Serialization string | Utf8 bytes

text \<open>\<open>db_open\<close> is \<open>DB::open\<close> with \<open>create_if_missing\<close>.\<close>

definition state_store_new :: "(string \<Rightarrow> (string, 'db) result) \<Rightarrow> string \<Rightarrow> (storage_error, 'db) result" where
  "state_store_new db_open path = try_map Db (db_open path) Ok"

definition offset_key :: "string \<Rightarrow> bytes" where
  "offset_key source_id = as_bytes (''offset:'' @ source_id)"

definition schema_key :: "string \<Rightarrow> bytes" where
  "schema_key source_id = as_bytes (''schema:'' @ source_id)"

definition save_offset ::
    "'db rocksdb \<Rightarrow> 'db \<Rightarrow> string \<Rightarrow> string \<Rightarrow> (storage_error, unit) result \<times> 'db" where
  "save_offset K d source_id off =
     (case db_put K d (offset_key source_id) (as_bytes off) of
        (r, d') \<Rightarrow> (try_map Db r Ok, d'))"

definition get_offset ::
    "'db rocksdb \<Rightarrow> 'db \<Rightarrow> string \<Rightarrow> (storage_error, string option) result" where
  "get_offset K d source_id =
     try_map Db (db_get K d (offset_key source_id))
       (\<lambda>r. case r of
              Some val \<Rightarrow>
                (case from_utf8 val of
                   Some offset_str \<Rightarrow> Ok (Some offset_str)
                 | None \<Rightarrow> Err (Utf8 val))
            | None \<Rightarrow> Ok None)"

definition save_schema ::
    "'db rocksdb \<Rightarrow> json_codec \<Rightarrow> 'db \<Rightarrow> string \<Rightarrow> json \<Rightarrow> (storage_error, unit) result \<times> 'db" where
  "save_schema K J d source_id schema =
     (case to_vec J schema of
        Inl e \<Rightarrow> (Err (Serialization e), d)
      | Inr serialized \<Rightarrow>
          (case db_put K d (schema_key source_id) serialized of
             (r, d') \<Rightarrow> (try_map Db r Ok, d')))"

definition get_schema ::
    "'db rocksdb \<Rightarrow> json_codec \<Rightarrow> 'db \<Rightarrow> string \<Rightarrow> (storage_error, json option) result" where
  "get_schema K J d source_id =
     try_map Db (db_get K d (schema_key source_id))
       (\<lambda>r. case r of
              Some val \<Rightarrow> try_map Serialization (from_slice J val) (\<lambda>schema. Ok (Some schema))
            | None \<Rightarrow> Ok None)"

text \<open>A sequence of saves, stopped by the first that fails.\<close>

fun save_seq ::
    "('d \<Rightarrow> string \<Rightarrow> string \<Rightarrow> ('e, unit) result \<times> 'd) \<Rightarrow> 'd \<Rightarrow> (string \<times> string) list \<Rightarrow> 'd option" where
  "save_seq save d [] = Some d"
| "save_seq save d ((s, off) # xs) =
     (case save d s off of (Inr _, d') \<Rightarrow> save_seq save d' xs | (Inl _, _) \<Rightarrow> None)"

text \<open>A database that satisfies the laws: a map in memory.\<close>

definition mem_rocksdb :: "(bytes \<Rightarrow> bytes option) rocksdb" where
  "mem_rocksdb = \<lparr>db_put = (\<lambda>d k v. (Ok (), d(k \<mapsto> v))), db_get = (\<lambda>d k. Ok (d k))\<rparr>"

section \<open>Lemmas\<close>

lemma mem_rocksdb_laws: "rocksdb_laws mem_rocksdb"
  by (auto simp: rocksdb_laws_def mem_rocksdb_def)

lemma store_keys [simp]:
  "offset_key s = offset_key t \<longleftrightarrow> s = t"
  "schema_key s = schema_key t \<longleftrightarrow> s = t"
  "offset_key s \<noteq> schema_key t"
  "schema_key t \<noteq> offset_key s"
  by (simp_all add: offset_key_def schema_key_def inj_as_bytes)

lemma rocksdb_put_get:
  "rocksdb_laws K \<Longrightarrow> db_put K d k v = (Ok (), d') \<Longrightarrow>
     db_get K d' k' = (if k' = k then Ok (Some v) else db_get K d k')"
  unfolding rocksdb_laws_def by blast

lemma save_offset_put:
  "save_offset K d s off = (Ok (), d') \<longleftrightarrow> db_put K d (offset_key s) (as_bytes off) = (Ok (), d')"
  by (cases "fst (db_put K d (offset_key s) (as_bytes off))")
    (auto simp: save_offset_def split: prod.splits)

lemma save_schema_put:
  "save_schema K J d s v = (Ok (), d') \<longleftrightarrow>
     (\<exists>b. to_vec J v = Ok b \<and> db_put K d (schema_key s) b = (Ok (), d'))"
  by (auto simp: save_schema_def try_map_def split: prod.splits sum.splits)

lemma save_offset_frame:
  assumes "rocksdb_laws K" and "save_offset K d s off = (Ok (), d')"
  shows "t \<noteq> s \<Longrightarrow> get_offset K d' t = get_offset K d t"
    and "get_schema K J d' u = get_schema K J d u"
  using assms rocksdb_put_get [OF assms(1)]
  by (simp_all add: save_offset_put get_offset_def get_schema_def)

lemma save_offset_get:
  assumes "rocksdb_laws K" and "save_offset K d s off = (Ok (), d')" and "utf8_valid (as_bytes off)"
  shows "get_offset K d' s = Ok (Some off)"
  using assms rocksdb_put_get [OF assms(1)]
  by (simp add: save_offset_put get_offset_def from_utf8_as_bytes)

lemma save_schema_frame:
  assumes "rocksdb_laws K" and "save_schema K J d s v = (Ok (), d')"
  shows "t \<noteq> s \<Longrightarrow> get_schema K J d' t = get_schema K J d t"
    and "get_offset K d' u = get_offset K d u"
  using assms rocksdb_put_get [OF assms(1)]
  by (auto simp: save_schema_put get_offset_def get_schema_def)

lemma save_schema_get:
  assumes "rocksdb_laws K" and "save_schema K J d s v = (Ok (), d')" and "codec_roundtrips J v"
  shows "get_schema K J d' s = Ok (Some v)"
  using assms rocksdb_put_get [OF assms(1)]
  by (auto simp: save_schema_put get_schema_def codec_roundtrips_def)

section \<open>Interface\<close>

text \<open>What the failover controller, the pipelines and the snapshotter rely on: a checkpoint
  saved is the checkpoint read, and saving one leaves the others alone.\<close>

locale checkpoint_store =
  fixes save :: "'d \<Rightarrow> string \<Rightarrow> string \<Rightarrow> ('e, unit) result \<times> 'd"
    and load :: "'d \<Rightarrow> string \<Rightarrow> ('e, string option) result"
    and valid :: "string \<Rightarrow> bool"
  assumes load_save: "valid off \<Longrightarrow> save d s off = (Ok (), d') \<Longrightarrow>
      load d' t = (if t = s then Ok (Some off) else load d t)"
begin

lemma last_save_wins:
  "save_seq save d xs = Some d' \<Longrightarrow> \<forall>p \<in> set xs. valid (snd p) \<Longrightarrow>
     load d' t = (case map_of (rev xs) t of None \<Rightarrow> load d t | Some off \<Rightarrow> Ok (Some off))"
proof (induction xs arbitrary: d)
  case (Cons p xs)
  obtain s off where p: "p = (s, off)" by fastforce
  with Cons.prems obtain d1 where d1: "save d s off = (Ok (), d1)" "save_seq save d1 xs = Some d'"
    by (auto split: prod.splits sum.splits)
  from Cons.IH [OF d1(2)] Cons.prems load_save [OF _ d1(1)] show ?case
    by (auto simp: p map_add_def split: option.splits)
qed simp

end

lemma store_is_checkpoint_store:
  "rocksdb_laws K \<Longrightarrow> checkpoint_store (save_offset K) (get_offset K) (\<lambda>s. utf8_valid (as_bytes s))"
  by unfold_locales (auto simp: save_offset_get save_offset_frame)

interpretation mem_store: checkpoint_store
    "save_offset mem_rocksdb" "get_offset mem_rocksdb" "\<lambda>s. utf8_valid (as_bytes s)"
  by (rule store_is_checkpoint_store [OF mem_rocksdb_laws])


section \<open>Properties\<close>

text \<open>
  C24: Checkpoints survive. After any sequence of successful \<open>save_offset\<close> calls for any
  sources, \<open>get_offset\<close> returns for each source the last offset saved for it, for every
  other source what it returned before, and all schemas are untouched.
\<close>

theorem store_last_checkpoint_wins:
  assumes "rocksdb_laws K" and "\<forall>p \<in> set xs. utf8_valid (as_bytes (snd p))"
    and "save_seq (save_offset K) d xs = Some d'"
  shows "get_offset K d' t =
           (case map_of (rev xs) t of None \<Rightarrow> get_offset K d t | Some off \<Rightarrow> Ok (Some off))
       \<and> get_schema K J d' u = get_schema K J d u"
proof -
  have "get_schema K J d' u = get_schema K J d u" if "save_seq (save_offset K) d xs = Some d'" for d xs
    using that
  proof (induction xs arbitrary: d)
    case (Cons p xs)
    then obtain d1 where "save_offset K d (fst p) (snd p) = (Ok (), d1)" and
        "save_seq (save_offset K) d1 xs = Some d'"
      by (cases p) (auto split: prod.splits sum.splits)
    with Cons.IH save_offset_frame(2) [OF assms(1)] show ?case by metis
  qed simp
  with checkpoint_store.last_save_wins [OF store_is_checkpoint_store [OF assms(1)] assms(3,2)] assms(3)
  show ?thesis by blast
qed

theorem store_last_checkpoint_wins_witness:
  "\<exists>d'. save_seq (save_offset mem_rocksdb) Map.empty
          [(''pg'', ''1''), (''cass'', ''7''), (''pg'', ''2'')] = Some d'
      \<and> get_offset mem_rocksdb d' ''pg'' = Ok (Some ''2'')"
proof -
  let ?xs = "[(''pg'', ''1''), (''cass'', ''7''), (''pg'', ''2'')]"
  have v: "\<forall>p \<in> set ?xs. utf8_valid (as_bytes (snd p))"
    by (simp add: as_bytes_def byte_of_char_def)
  obtain d' where d': "save_seq (save_offset mem_rocksdb) Map.empty ?xs = Some d'"
    by (simp add: save_offset_def mem_rocksdb_def)
  from store_last_checkpoint_wins [OF mem_rocksdb_laws v d', of "''pg''"] d' show ?thesis by simp
qed

end
