(* ===== verification/Parallel_Snapshot.thy ===== *)
theory Parallel_Snapshot
  imports State_Store "HOL-Library.Multiset"
begin

text \<open>
  \<^verbatim>\<open>src/src/snapshot/parallel.rs\<close>: the chunk plan of \<open>ParallelSnapshotter::new\<close> and the
  workers of \<open>process_chunks\<close>. The planning loop runs at 64 bits with wrap-around and need
  not end, so it is a partial function into \<^typ>\<open>'a option\<close>. The workers share the chunk
  vector behind one mutex: each critical section is one step of a relation, so every
  interleaving of any number of workers is covered. \<open>process_fn\<close> belongs to the caller; it
  may return or panic, and \<open>handed\<close> records the chunks it was called with.
\<close>

section \<open>The chunk plan\<close>

datatype chunk_status = Pending | InProgress | Completed

text \<open>A chunk only moves up this order.\<close>

fun stage :: "chunk_status \<Rightarrow> nat" where
  "stage Pending = 0"
| "stage InProgress = 1"
| "stage Completed = 2"

instantiation chunk_status :: linorder
begin

definition less_eq_chunk_status :: "chunk_status \<Rightarrow> chunk_status \<Rightarrow> bool" where
  "less_eq_chunk_status a b \<longleftrightarrow> stage a \<le> stage b"

definition less_chunk_status :: "chunk_status \<Rightarrow> chunk_status \<Rightarrow> bool" where
  "less_chunk_status a b \<longleftrightarrow> stage a < stage b"

instance
proof
  fix a b c :: chunk_status
  show "a \<le> b \<Longrightarrow> b \<le> a \<Longrightarrow> a = b"
    by (cases a; cases b) (simp_all add: less_eq_chunk_status_def)
qed (auto simp: less_eq_chunk_status_def less_chunk_status_def)

end

record chunk_range =
  chunk_id :: u32
  min_key :: u64
  max_key :: u64
  status :: chunk_status

partial_function (option) chunk_loop ::
    "u64 \<Rightarrow> u64 \<Rightarrow> chunk_range list \<Rightarrow> u64 \<Rightarrow> u32 \<Rightarrow> chunk_range list option" where
  "chunk_loop total_rows chunk_size chunks lo cid =
     (if lo \<le> total_rows
      then let hi = min (lo + chunk_size - 1) total_rows
           in chunk_loop total_rows chunk_size
                (chunks @ [\<lparr>chunk_id = cid, min_key = lo, max_key = hi, status = Pending\<rparr>])
                (hi + 1) (cid + 1)
      else Some chunks)"

declare chunk_loop.simps [code]

record parallel_snapshotter =
  table_name :: string
  chunks :: "chunk_range list"

definition snapshotter_new :: "string \<Rightarrow> u64 \<Rightarrow> u64 \<Rightarrow> parallel_snapshotter option" where
  "snapshotter_new name total_rows chunk_size =
     map_option (\<lambda>cs. \<lparr>table_name = name, chunks = cs\<rparr>) (chunk_loop total_rows chunk_size [] 1 0)"

section \<open>The workers\<close>

text \<open>The first critical section of a round: take the first pending chunk.\<close>

fun claim_chunk :: "chunk_range list \<Rightarrow> chunk_range option \<times> chunk_range list" where
  "claim_chunk [] = (None, [])"
| "claim_chunk (c # cs) =
     (if status c = Pending
      then (let c' = c\<lparr>status := InProgress\<rparr> in (Some c', c' # cs))
      else (let (r, cs') = claim_chunk cs in (r, c # cs')))"

text \<open>The second one: find the chunk by its id and mark it.\<close>

fun complete_chunk :: "u32 \<Rightarrow> chunk_range list \<Rightarrow> chunk_range list" where
  "complete_chunk i [] = []"
| "complete_chunk i (c # cs) =
     (if chunk_id c = i then c\<lparr>status := Completed\<rparr> # cs else c # complete_chunk i cs)"

datatype worker = Polling | Working chunk_range | Aborted chunk_range | Finished

record par_sys =
  shared :: "chunk_range list"
  workers :: "worker list"
  handed :: "chunk_range list"

inductive par_step :: "par_sys \<Rightarrow> par_sys \<Rightarrow> bool" where
  claim: "w < length (workers s) \<Longrightarrow> workers s ! w = Polling \<Longrightarrow> claim_chunk (shared s) = (Some c, cs) \<Longrightarrow>
    par_step s (s\<lparr>shared := cs, workers := (workers s)[w := Working c], handed := handed s @ [c]\<rparr>)"
| leave: "w < length (workers s) \<Longrightarrow> workers s ! w = Polling \<Longrightarrow> claim_chunk (shared s) = (None, cs) \<Longrightarrow>
    par_step s (s\<lparr>shared := cs, workers := (workers s)[w := Finished]\<rparr>)"
| complete: "w < length (workers s) \<Longrightarrow> workers s ! w = Working c \<Longrightarrow>
    par_step s (s\<lparr>shared := complete_chunk (chunk_id c) (shared s), workers := (workers s)[w := Polling]\<rparr>)"
| abort: "w < length (workers s) \<Longrightarrow> workers s ! w = Working c \<Longrightarrow>
    par_step s (s\<lparr>workers := (workers s)[w := Aborted c]\<rparr>)"

inductive_cases par_stepE: "par_step s t"

definition par_start :: "chunk_range list \<Rightarrow> nat \<Rightarrow> par_sys \<Rightarrow> bool" where
  "par_start cs worker_count s \<longleftrightarrow>
     s = \<lparr>shared = cs, workers = replicate worker_count Polling, handed = []\<rparr>
     \<and> distinct (map chunk_id cs) \<and> (\<forall>c \<in> set cs. status c = Pending)"

fun stopped :: "worker \<Rightarrow> bool" where
  "stopped (Aborted c) = True"
| "stopped Finished = True"
| "stopped _ = False"

text \<open>All handles are joined.\<close>

definition joined :: "par_sys \<Rightarrow> bool" where
  "joined s \<longleftrightarrow> (\<forall>w \<in> set (workers s). stopped w)"

definition completed_count :: "chunk_range list \<Rightarrow> nat" where
  "completed_count cs = length (filter (\<lambda>c. status c = Completed) cs)"

text \<open>What follows the joins: the progress line in the state store.\<close>

definition save_progress ::
    "'db rocksdb \<Rightarrow> 'db \<Rightarrow> string \<Rightarrow> chunk_range list \<Rightarrow> (storage_error, unit) result \<times> 'db" where
  "save_progress K d name cs =
     save_offset K d (name @ ''_snapshot_progress'')
       (show_nat (completed_count cs) @ ''/'' @ show_nat (length cs))"

section \<open>Specification\<close>

text \<open>The keys of a plan, in order.\<close>

definition keys_of :: "chunk_range \<Rightarrow> nat list" where
  "keys_of c = [unat (min_key c)..<Suc (unat (max_key c))]"

fun held_by :: "worker \<Rightarrow> chunk_range list" where
  "held_by (Working c) = [c]"
| "held_by (Aborted c) = [c]"
| "held_by _ = []"

definition held :: "worker list \<Rightarrow> chunk_range list" where
  "held ws = concat (map held_by ws)"

text \<open>
  The invariant: the plan itself never changes, the chunks in progress are exactly the ones
  some worker holds, \<open>process_fn\<close> got exactly the chunks that are no longer pending, each
  once, and a worker has left only when nothing was pending.
\<close>

definition par_inv :: "chunk_range list \<Rightarrow> nat \<Rightarrow> par_sys \<Rightarrow> bool" where
  "par_inv cs0 n s \<longleftrightarrow>
     length (workers s) = n
     \<and> map (\<lambda>c. c\<lparr>status := Pending\<rparr>) (shared s) = cs0
     \<and> distinct (map chunk_id cs0)
     \<and> mset (held (workers s)) = mset (filter (\<lambda>c. status c = InProgress) (shared s))
     \<and> mset (handed s) = image_mset (\<lambda>c. c\<lparr>status := InProgress\<rparr>)
         (mset (filter (\<lambda>c. status c \<noteq> Pending) (shared s)))
     \<and> (Finished \<in> set (workers s) \<longrightarrow> (\<forall>c \<in> set (shared s). status c \<noteq> Pending))"

fun weight :: "worker \<Rightarrow> nat" where
  "weight Polling = 1"
| "weight (Working c) = 2"
| "weight _ = 0"

text \<open>How many steps can still happen, at most.\<close>

definition work_left :: "par_sys \<Rightarrow> nat" where
  "work_left s =
     2 * length (filter (\<lambda>c. status c = Pending) (shared s)) + sum_list (map weight (workers s))"

section \<open>Lemmas on the plan\<close>

lemma next_bounds:
  fixes lo rows sz :: u64
  assumes "lo \<le> rows" and "1 \<le> unat lo" and "0 < unat sz" and "unat rows + unat sz < 2 ^ 64"
  defines "hi \<equiv> min (lo + sz - 1) rows"
  shows "unat hi = min (unat lo + unat sz - 1) (unat rows)" and "unat (hi + 1) = Suc (unat hi)"
proof -
  have le: "unat lo \<le> unat rows" using assms(1) by (simp add: word_le_nat_alt)
  have sum: "unat (lo + sz) = unat lo + unat sz"
    using le assms(4) by (subst unat_plus_if') simp
  have "unat (lo + sz - 1) = unat lo + unat sz - 1"
    using sum assms(2) by (subst unat_minus_one) (auto simp: unat_gt_0)
  then show hi: "unat hi = min (unat lo + unat sz - 1) (unat rows)"
    unfolding hi_def by (simp add: min_def word_le_nat_alt)
  show "unat (hi + 1) = Suc (unat hi)"
    using hi assms(3,4) by (subst unat_plus_if') simp
qed

text \<open>A plan of the keys from \<open>lo\<close> to \<open>rows\<close>, with ids from \<open>cid\<close> on.\<close>

definition plans :: "nat \<Rightarrow> nat \<Rightarrow> nat \<Rightarrow> u32 \<Rightarrow> chunk_range list \<Rightarrow> bool" where
  "plans rows sz lo cid cs \<longleftrightarrow>
     concat (map keys_of cs) = [lo..<Suc rows]
     \<and> map chunk_id cs = map (\<lambda>i. cid + of_nat i) [0..<length cs]
     \<and> (\<forall>c \<in> set cs. status c = Pending \<and> keys_of c \<noteq> [] \<and> length (keys_of c) \<le> sz)"

lemma plans_Cons:
  assumes "plans rows sz (Suc hi) (cid + 1) cs" and "unat (min_key c) = lo" and "unat (max_key c) = hi"
    and "chunk_id c = cid" and "status c = Pending" and "lo \<le> hi" and "hi < lo + sz" and "hi \<le> rows"
  shows "plans rows sz lo cid (c # cs)"
proof -
  have "[lo..<Suc hi] @ [Suc hi..<Suc rows] = [lo..<Suc rows]"
    using assms(6,8) by (metis le_SucI le_Suc_ex not_less_eq_eq add_Suc upt_add_eq_append le_add_diff_inverse)
  moreover have "map (\<lambda>i. cid + 1 + of_nat i) [0..<length cs] = map (\<lambda>i. cid + of_nat i) [Suc 0..<Suc (length cs)]"
    by (simp add: map_Suc_upt [symmetric] comp_def add.assoc del: upt_Suc)
  ultimately show ?thesis
    using assms by (auto simp: plans_def keys_of_def upt_conv_Cons simp del: upt_Suc)
qed

lemma chunk_loop_plans:
  assumes "0 < unat sz" and "unat rows + unat sz < 2 ^ 64"
  shows "1 \<le> unat lo \<Longrightarrow> unat lo \<le> Suc (unat rows) \<Longrightarrow>
    \<exists>cs. chunk_loop rows sz acc lo cid = Some (acc @ cs)
       \<and> plans (unat rows) (unat sz) (unat lo) cid cs"
proof (induction "Suc (unat rows) - unat lo" arbitrary: lo acc cid rule: less_induct)
  case less
  show ?case
  proof (cases "lo \<le> rows")
    case True
    let ?hi = "min (lo + sz - 1) rows"
    let ?c = "\<lparr>chunk_id = cid, min_key = lo, max_key = ?hi, status = Pending\<rparr>"
    note b = next_bounds [OF True less.prems(1) assms]
    have le: "unat lo \<le> unat rows" using True by (simp add: word_le_nat_alt)
    have dec: "Suc (unat rows) - unat (?hi + 1) < Suc (unat rows) - unat lo"
      "unat (?hi + 1) \<le> Suc (unat rows)"
      using b le assms(1) by (auto simp: min_def)
    from less.hyps [OF dec(1) _ dec(2), of "acc @ [?c]" "cid + 1"] b(2)
    obtain cs where cs: "chunk_loop rows sz (acc @ [?c]) (?hi + 1) (cid + 1) = Some ((acc @ [?c]) @ cs)"
        "plans (unat rows) (unat sz) (Suc (unat ?hi)) (cid + 1) cs"
      by auto
    have "plans (unat rows) (unat sz) (unat lo) cid (?c # cs)"
      by (rule plans_Cons [OF cs(2)]) (use b le less.prems(1) assms(1) in auto)
    with cs(1) True show ?thesis by (subst chunk_loop.simps) (auto simp: Let_def)
  next
    case False
    then have "unat lo = Suc (unat rows)" using less.prems(2) by (simp add: word_le_nat_alt)
    with False show ?thesis
      by (subst chunk_loop.simps) (simp add: plans_def)
  qed
qed

lemma chunk_loop_diverges:
  assumes "chunk_loop rows sz acc lo cid = Some cs"
  shows "rows \<noteq> - 1 \<and> (sz = 0 \<longrightarrow> \<not> (1 \<le> lo \<and> lo \<le> rows))"
proof (rule chunk_loop.raw_induct [OF _ assms, where P = "\<lambda>rows sz acc lo cid cs.
      rows \<noteq> - 1 \<and> (sz = 0 \<longrightarrow> \<not> (1 \<le> lo \<and> lo \<le> rows))"], goal_cases)
  case (1 chunk_loop rows sz acc lo cid cs)
  show ?case
  proof (cases "lo \<le> rows")
    case True
    let ?hi = "min (lo + sz - 1) rows"
    from 1(2) True have "chunk_loop rows sz
        (acc @ [\<lparr>chunk_id = cid, min_key = lo, max_key = ?hi, status = Pending\<rparr>]) (?hi + 1) (cid + 1) = Some cs"
      by (simp add: Let_def)
    from 1(1) [OF this] have IH: "rows \<noteq> - 1 \<and> (sz = 0 \<longrightarrow> \<not> (1 \<le> ?hi + 1 \<and> ?hi + 1 \<le> rows))" .
    have "?hi + 1 = lo" if "sz = 0" "1 \<le> lo"
    proof -
      have "lo - 1 \<le> rows" using that(2) True by (meson order_trans word_sub_le)
      then show ?thesis by (simp add: that(1) min_def)
    qed
    with IH show ?thesis by metis
  qed (use 1(2) in auto)
qed

section \<open>Lemmas on the workers\<close>

lemma claim_None: "claim_chunk cs = (None, cs') \<Longrightarrow> cs' = cs \<and> (\<forall>c \<in> set cs. status c \<noteq> Pending)"
  by (induction cs arbitrary: cs') (auto simp: Let_def split: if_splits prod.splits)

lemma claim_Some:
  "claim_chunk cs = (Some c', cs') \<Longrightarrow>
     \<exists>c xs ys. status c = Pending \<and> c' = c\<lparr>status := InProgress\<rparr> \<and> cs = xs @ c # ys \<and> cs' = xs @ c' # ys"
proof (induction cs arbitrary: cs')
  case (Cons a cs)
  show ?case
  proof (cases "status a = Pending")
    case True
    with Cons.prems show ?thesis by (intro exI [of _ a] exI [of _ "[]"] exI [of _ cs]) (auto simp: Let_def)
  next
    case False
    with Cons.prems obtain ds where ds: "claim_chunk cs = (Some c', ds)" "cs' = a # ds"
      by (auto simp: Let_def split: prod.splits)
    from Cons.IH [OF ds(1)] ds(2) show ?thesis by (metis append_Cons)
  qed
qed simp

lemma complete_split:
  "distinct (map chunk_id cs) \<Longrightarrow> c \<in> set cs \<Longrightarrow>
     \<exists>xs ys. cs = xs @ c # ys \<and> complete_chunk (chunk_id c) cs = xs @ c\<lparr>status := Completed\<rparr> # ys"
proof (induction cs)
  case (Cons a cs)
  show ?case
  proof (cases "a = c")
    case True
    then show ?thesis by (intro exI [of _ "[]"] exI [of _ cs]) simp
  next
    case False
    with Cons.prems have "chunk_id a \<noteq> chunk_id c" "c \<in> set cs" by auto
    with Cons obtain xs ys where "cs = xs @ c # ys"
        "complete_chunk (chunk_id c) (a # cs) = (a # xs) @ c\<lparr>status := Completed\<rparr> # ys"
      by auto
    then show ?thesis by (metis append_Cons)
  qed
qed simp

lemma workers_update:
  assumes "w < length ws" and "ws ! w = x"
  shows "mset (held (ws[w := y])) + mset (held_by x) = mset (held ws) + mset (held_by y)"
    and "sum_list (map weight (ws[w := y])) + weight x = sum_list (map weight ws) + weight y"
proof -
  have ws: "ws = take w ws @ x # drop (Suc w) ws" using assms id_take_nth_drop by blast
  have upd: "ws[w := y] = take w ws @ y # drop (Suc w) ws" using assms(1) by (simp add: upd_conv_take_nth_drop)
  show "mset (held (ws[w := y])) + mset (held_by x) = mset (held ws) + mset (held_by y)"
    unfolding upd by (subst (3) ws) (simp add: held_def)
  show "sum_list (map weight (ws[w := y])) + weight x = sum_list (map weight ws) + weight y"
    unfolding upd by (subst (3) ws) simp
qed

lemma held_Working: "w < length ws \<Longrightarrow> ws ! w = Working c \<Longrightarrow> c \<in> set (held ws)"
  by (force simp: held_def dest: nth_mem)

lemma distinct_ids:
  "map (\<lambda>c. c\<lparr>status := Pending\<rparr>) cs = cs0 \<Longrightarrow> map chunk_id cs = map chunk_id cs0"
  by (auto simp: comp_def)

lemma Finished_update: "x \<noteq> Finished \<Longrightarrow> Finished \<in> set (ws[w := x]) \<Longrightarrow> Finished \<in> set ws"
  by (metis set_update_subset_insert subset_iff insertE)

lemma par_start_inv: "par_start cs n s \<Longrightarrow> par_inv cs n s"
proof -
  assume "par_start cs n s"
  then have s: "s = \<lparr>shared = cs, workers = replicate n Polling, handed = []\<rparr>"
    and d: "distinct (map chunk_id cs)" and p: "\<forall>c \<in> set cs. status c = Pending"
    by (auto simp: par_start_def)
  have none: "filter (\<lambda>c. status c \<noteq> Pending) cs = []" "filter (\<lambda>c. status c = InProgress) cs = []"
    using p by (auto simp: filter_empty_conv)
  have "map (\<lambda>c. c\<lparr>status := Pending\<rparr>) cs = cs" using p by (intro map_idI) auto
  moreover have "held (replicate n Polling) = []" by (induction n) (simp_all add: held_def)
  ultimately show ?thesis using d none by (simp add: par_inv_def s)
qed

lemma working_chunk:
  assumes "par_inv cs0 n s" and "w < length (workers s)" and "workers s ! w = Working c"
  shows "c \<in> set (shared s)" and "status c = InProgress" and "distinct (map chunk_id (shared s))"
proof -
  have "mset (held (workers s)) = mset (filter (\<lambda>c. status c = InProgress) (shared s))"
    using assms(1) by (simp add: par_inv_def)
  then have "c \<in> set (filter (\<lambda>c. status c = InProgress) (shared s))"
    using held_Working [OF assms(2,3)] by (metis set_mset_mset)
  then show "c \<in> set (shared s)" "status c = InProgress" by auto
  show "distinct (map chunk_id (shared s))"
    using assms(1) distinct_ids unfolding par_inv_def by metis
qed

lemma par_step_inv:
  assumes "par_inv cs0 n s" and "par_step s t"
  shows "par_inv cs0 n t"
proof -
  note inv = assms(1) [unfolded par_inv_def]
  from assms(2) show ?thesis
  proof cases
    case (claim w c cs)
    from claim_Some [OF claim(4)] obtain a xs ys where
      a: "status a = Pending" "c = a\<lparr>status := InProgress\<rparr>" "shared s = xs @ a # ys" "cs = xs @ c # ys"
      by blast
    have "mset (held ((workers s)[w := Working c])) = add_mset c (mset (held (workers s)))"
      using workers_update(1) [OF claim(2,3), of "Working c"] by simp
    moreover have "Finished \<notin> set (workers s)" using inv a by auto
    ultimately show ?thesis
      using inv a Finished_update by (auto simp: par_inv_def claim(1))
  next
    case (leave w cs)
    have "mset (held ((workers s)[w := Finished])) = mset (held (workers s))"
      using workers_update(1) [OF leave(2,3), of Finished] by simp
    with claim_None [OF leave(4)] inv show ?thesis by (auto simp: par_inv_def leave(1))
  next
    case (complete w c)
    note c = working_chunk [OF assms(1) complete(2,3)]
    from complete_split [OF c(3,1)] obtain xs ys where
      xs: "shared s = xs @ c # ys"
        "complete_chunk (chunk_id c) (shared s) = xs @ c\<lparr>status := Completed\<rparr> # ys" by blast
    have "mset (held (workers s)) = add_mset c (mset (held ((workers s)[w := Polling])))"
      using workers_update(1) [OF complete(2,3), of Polling] by simp
    with inv xs c(2) show ?thesis
      using Finished_update [of Polling] by (auto simp: par_inv_def complete(1))
  next
    case (abort w c)
    have "mset (held ((workers s)[w := Aborted c])) = mset (held (workers s))"
      using workers_update(1) [OF abort(2,3), of "Aborted c"] by simp
    with inv show ?thesis using Finished_update [of "Aborted c"] by (auto simp: par_inv_def abort(1))
  qed
qed

interpretation par: inductive_invariant "par_start cs n" par_step "par_inv cs n" for cs n
  by unfold_locales (simp_all add: par_start_inv par_step_inv)

text \<open>Statuses only move up.\<close>

lemma status_monotone:
  assumes "par_inv cs0 n s" and "par_step s t"
  shows "list_all2 (\<lambda>c d. chunk_id c = chunk_id d \<and> status c \<le> status d) (shared s) (shared t)"
  using assms(2)
proof cases
  case (claim w c cs)
  from claim_Some [OF claim(4)] show ?thesis
    by (auto simp: claim(1) less_eq_chunk_status_def intro!: list_all2_appendI list.rel_refl)
next
  case (leave w cs)
  with claim_None [OF leave(4)] show ?thesis by (auto intro!: list.rel_refl)
next
  case (complete w c)
  note c = working_chunk [OF assms(1) complete(2,3)]
  from complete_split [OF c(3,1)] c(2) show ?thesis
    by (auto simp: complete(1) less_eq_chunk_status_def intro!: list_all2_appendI list.rel_refl)
next
  case (abort w c)
  then show ?thesis by (auto intro!: list.rel_refl)
qed

lemma step_decreases: "par_step s t \<Longrightarrow> work_left t < work_left s"
proof (erule par_stepE)
  fix w c cs
  assume t: "t = s\<lparr>shared := cs, workers := (workers s)[w := Working c], handed := handed s @ [c]\<rparr>"
    and w: "w < length (workers s)" "workers s ! w = Polling" and "claim_chunk (shared s) = (Some c, cs)"
  from claim_Some [OF this(4)] workers_update(2) [OF w, of "Working c"] show ?thesis
    by (auto simp: t work_left_def)
next
  fix w cs
  assume t: "t = s\<lparr>shared := cs, workers := (workers s)[w := Finished]\<rparr>"
    and w: "w < length (workers s)" "workers s ! w = Polling" and "claim_chunk (shared s) = (None, cs)"
  from claim_None [OF this(4)] workers_update(2) [OF w, of Finished] show ?thesis
    by (auto simp: t work_left_def)
next
  fix w c
  assume t: "t = s\<lparr>shared := complete_chunk (chunk_id c) (shared s), workers := (workers s)[w := Polling]\<rparr>"
    and w: "w < length (workers s)" "workers s ! w = Working c"
  have "length (filter (\<lambda>c. status c = Pending) (complete_chunk i cs))
      \<le> length (filter (\<lambda>c. status c = Pending) cs)" for i cs
    by (induction cs) auto
  from this [of "chunk_id c" "shared s"] workers_update(2) [OF w, of Polling] show ?thesis
    by (simp add: t work_left_def)
next
  fix w c
  assume t: "t = s\<lparr>workers := (workers s)[w := Aborted c]\<rparr>"
    and w: "w < length (workers s)" "workers s ! w = Working c"
  from workers_update(2) [OF w, of "Aborted c"] show ?thesis by (simp add: t work_left_def)
qed

lemma not_joined_steps:
  assumes "\<not> joined s"
  shows "\<exists>t. par_step s t"
proof -
  from assms obtain w where w: "w < length (workers s)" "\<not> stopped (workers s ! w)"
    by (auto simp: joined_def in_set_conv_nth)
  show ?thesis
  proof (cases "workers s ! w")
    case Polling
    show ?thesis
    proof (cases "claim_chunk (shared s)")
      case (Pair r cs)
      then show ?thesis
        using par_step.claim [OF w(1) Polling] par_step.leave [OF w(1) Polling] by (cases r) blast+
    qed
  next
    case (Working c)
    then show ?thesis using par_step.complete [OF w(1)] by blast
  qed (use w(2) in simp_all)
qed

text \<open>When every handle is joined and one worker left in the ordinary way, the chunks that are
  not completed are the ones of the workers that panicked.\<close>

lemma joined_count:
  assumes "par_inv cs0 n s" and "joined s" and "Finished \<in> set (workers s)"
  shows "completed_count (shared s) + length (held (workers s)) = length cs0"
proof -
  have np: "\<forall>c \<in> set (shared s). status c \<noteq> Pending" using assms(1,3) by (simp add: par_inv_def)
  then have "filter (\<lambda>c. status c = InProgress) (shared s) = filter (\<lambda>c. \<not> status c = Completed) (shared s)"
    by (intro filter_cong) (auto intro: chunk_status.exhaust)
  moreover have "length (held (workers s)) = length (filter (\<lambda>c. status c = InProgress) (shared s))"
    using assms(1) unfolding par_inv_def by (metis size_mset)
  moreover have "length cs0 = length (shared s)" using assms(1) by (auto simp: par_inv_def)
  ultimately show ?thesis
    using sum_length_filter_compl [of "\<lambda>c. status c = Completed" "shared s"]
    by (simp add: completed_count_def)
qed

lemma joined_all_completed:
  assumes "par_inv cs0 n s" and "joined s" and "0 < n" and "\<forall>c. Aborted c \<notin> set (workers s)"
  shows "completed_count (shared s) = length (shared s)" and "length (shared s) = length cs0"
    and "\<forall>c \<in> set (shared s). status c = Completed"
proof -
  have fin: "w = Finished" if "w \<in> set (workers s)" for w
  proof -
    have "stopped w \<and> (\<forall>c. w \<noteq> Aborted c)" using that assms(2,4) by (auto simp: joined_def)
    then show ?thesis by (cases w) simp_all
  qed
  then have "Finished \<in> set (workers s)"
    using assms(1,3) by (metis length_greater_0_conv list.set_sel(1) par_inv_def)
  moreover have "held (workers s) = []" using fin by (force simp: held_def)
  moreover show len: "length (shared s) = length cs0" using assms(1) by (auto simp: par_inv_def)
  ultimately show eq: "completed_count (shared s) = length (shared s)"
    using joined_count [OF assms(1,2)] by simp
  then have "filter (\<lambda>c. status c = Completed) (shared s) = shared s"
    unfolding completed_count_def by (metis filter_id_conv length_filter_less nat_neq_iff)
  then show "\<forall>c \<in> set (shared s). status c = Completed" by (simp add: filter_id_conv)
qed

section \<open>Properties\<close>

text \<open>
  C14: The chunk plan is a partition. For a positive chunk size that does not overflow the
  last key, \<open>ParallelSnapshotter::new\<close> returns, its ranges list the keys \<open>1 .. total_rows\<close>
  each exactly once and in order, every range is non-empty and at most \<open>chunk_size\<close> long, all
  are pending, and the ids count up from 0.
\<close>

theorem plan_partitions:
  assumes "0 < unat sz" and "unat rows + unat sz < 2 ^ 64"
  shows "\<exists>cs. snapshotter_new name rows sz = Some \<lparr>table_name = name, chunks = cs\<rparr>
       \<and> concat (map keys_of cs) = [1..<Suc (unat rows)]
       \<and> map chunk_id cs = map of_nat [0..<length cs]
       \<and> (\<forall>c \<in> set cs. status c = Pending \<and> keys_of c \<noteq> [] \<and> length (keys_of c) \<le> unat sz)"
  using chunk_loop_plans [OF assms, of 1 "[]" 0]
  by (auto simp: snapshotter_new_def plans_def simp del: upt_Suc)

theorem plan_partitions_witness:
  "\<exists>cs. snapshotter_new ''users'' 100 25 = Some \<lparr>table_name = ''users'', chunks = cs\<rparr>
      \<and> concat (map keys_of cs) = [1..<101]"
proof -
  have "0 < unat (25 :: u64)" "unat (100 :: u64) + unat (25 :: u64) < 2 ^ 64" by simp_all
  from plan_partitions [OF this, of "''users''"] show ?thesis by (auto simp del: upt_Suc)
qed

text \<open>
  The planning loop does not end for a chunk size of 0 with at least one row, nor for
  the largest row count, whatever the chunk size.
\<close>

theorem plan_diverges:
  assumes "sz = 0 \<and> 1 \<le> rows \<or> rows = - 1"
  shows "snapshotter_new name rows sz = None"
  using chunk_loop_diverges [of rows sz "[]" 1 0] assms
  by (cases "chunk_loop rows sz [] 1 0") (auto simp: snapshotter_new_def)

theorem plan_diverges_witness:
  "snapshotter_new ''users'' 5 0 = None"
  by (rule plan_diverges) simp

text \<open>
  C12: A snapshot completes. Whatever the interleaving of the workers, once all of them are
  joined and none panicked, every chunk is completed, \<open>process_fn\<close> got each range of the
  plan exactly once, and the progress saved in the state store reads \<open>n/n\<close>.
\<close>

theorem snapshot_completes:
  assumes "reach (par_start cs n) par_step s" and "joined s" and "0 < n"
    and "\<forall>c. Aborted c \<notin> set (workers s)"
    and "rocksdb_laws K" and "save_progress K d name (shared s) = (Ok (), d')"
  shows "(\<forall>c \<in> set (shared s). status c = Completed)
       \<and> mset (map keys_of (handed s)) = mset (map keys_of cs)
       \<and> get_offset K d' (name @ ''_snapshot_progress'') =
           Ok (Some (show_nat (length cs) @ ''/'' @ show_nat (length cs)))"
proof -
  have inv: "par_inv cs n s" by (rule par.reach_inv [OF assms(1)])
  note all = joined_all_completed [OF inv assms(2,3,4)]
  have "filter (\<lambda>c. status c \<noteq> Pending) (shared s) = shared s"
    using all(3) by (simp add: filter_id_conv)
  then have "mset (handed s) = image_mset (\<lambda>c. c\<lparr>status := InProgress\<rparr>) (mset (shared s))"
    using inv by (simp add: par_inv_def)
  moreover have "cs = map (\<lambda>c. c\<lparr>status := Pending\<rparr>) (shared s)" using inv by (simp add: par_inv_def)
  ultimately have "mset (map keys_of (handed s)) = mset (map keys_of cs)"
    by (simp add: keys_of_def image_mset.compositionality comp_def)
  moreover have "utf8_valid (as_bytes (show_nat (length cs) @ ''/'' @ show_nat (length cs)))"
    by (rule utf8_ascii) (auto dest: show_nat_ascii)
  ultimately show ?thesis
    using save_offset_get [OF assms(5)] assms(6) all by (simp add: save_progress_def)
qed

theorem snapshot_completes_witness:
  "let c = \<lparr>chunk_id = 0, min_key = 1, max_key = 9, status = Pending\<rparr>;
       d' = snd (save_progress mem_rocksdb Map.empty ''users'' [c\<lparr>status := Completed\<rparr>])
   in get_offset mem_rocksdb d' ''users_snapshot_progress'' = Ok (Some ''1/1'')"
proof -
  let ?c = "\<lparr>chunk_id = 0, min_key = 1, max_key = 9, status = Pending\<rparr>"
  let ?i = "?c\<lparr>status := InProgress\<rparr>" and ?d = "?c\<lparr>status := Completed\<rparr>"
  let ?s = "\<lambda>cs w h. \<lparr>shared = cs, workers = [w], handed = h\<rparr>"
  have "reach (par_start [?c] 1) par_step (?s [?c] Polling [])"
    by (rule reach.at_start) (simp add: par_start_def)
  moreover have "par_step (?s [?c] Polling []) (?s [?i] (Working ?i) [?i])"
    using par_step.claim [of 0 "?s [?c] Polling []" ?i "[?i]"] by (simp add: Let_def)
  moreover have "par_step (?s [?i] (Working ?i) [?i]) (?s [?d] Polling [?i])"
    using par_step.complete [of 0 "?s [?i] (Working ?i) [?i]" ?i] by simp
  moreover have "par_step (?s [?d] Polling [?i]) (?s [?d] Finished [?i])"
    using par_step.leave [of 0 "?s [?d] Polling [?i]" "[?d]"] by (simp add: Let_def)
  ultimately have r: "reach (par_start [?c] 1) par_step (?s [?d] Finished [?i])"
    by (meson reach.by_move)
  obtain d' where d': "save_progress mem_rocksdb Map.empty ''users'' [?d] = (Ok (), d')"
    by (simp add: save_progress_def save_offset_def mem_rocksdb_def)
  have "show_nat 1 = ''1''" by code_simp
  then show ?thesis
    using snapshot_completes [OF r _ _ _ mem_rocksdb_laws, of Map.empty "''users''" d'] d'
    by (simp add: joined_def)
qed

text \<open>
  C13: The workers always finish. Every step lowers the work that is left, and as long as some
  handle is not joined a step is possible, so every run of \<open>w\<close> workers over a plan of \<open>k\<close>
  chunks is joined after at most \<open>2 * k + w\<close> steps.
\<close>

theorem workers_finish:
  assumes "par_start cs n s" and "(par_step ^^ k) s t"
  shows "k \<le> 2 * length cs + n \<and> (joined t \<or> (\<exists>t'. par_step t t'))"
proof -
  have "k + work_left t \<le> work_left s"
    using assms(2) by (induction k arbitrary: t) (fastforce dest: step_decreases)+
  moreover have "work_left s = 2 * length cs + n"
    using assms(1) by (auto simp: par_start_def work_left_def map_replicate sum_list_replicate filter_id_conv)
  ultimately show ?thesis using not_joined_steps by auto
qed

theorem workers_finish_witness:
  "let s = \<lparr>shared = [], workers = [Polling, Polling], handed = []\<rparr>
   in joined s \<or> (\<exists>t'. par_step s t')"
  using workers_finish [of "[]" 2 "\<lparr>shared = [], workers = [Polling, Polling], handed = []\<rparr>" 0]
  by (simp add: par_start_def numeral_2_eq_2)

end
