(* ===== verification/Cli.thy ===== *)
theory Cli
  imports State_Store
begin

text \<open>
  \<^verbatim>\<open>src/src/cli/mod.rs\<close>: the parser of the command line and the execution of a command
  over the state store. \<open>dbg\<close> is the \<open>Debug\<close> format of a storage error and \<open>to_str\<close> the
  text of a JSON value.
\<close>

section \<open>Model\<close>

datatype cli_command =
    Status
  | InspectOffset string
  | SchemaList string
  | Unknown string

text \<open>\<open>vec.get(2).cloned().unwrap_or_else(..)\<close>.\<close>

definition source_arg :: "string list \<Rightarrow> string" where
  "source_arg vec = (if 2 < length vec then vec ! 2 else ''postgres_users'')"

definition parse_args :: "string list \<Rightarrow> cli_command" where
  "parse_args vec =
     (if length vec < 2 then Status
      else if vec ! 1 = ''status'' then Status
      else if vec ! 1 = ''inspect-offset'' then InspectOffset (source_arg vec)
      else if vec ! 1 = ''schema-list'' then SchemaList (source_arg vec)
      else Unknown (vec ! 1))"

definition quote_id :: "string \<Rightarrow> string" where
  "quote_id s = CHR 0x27 # s @ [CHR 0x27]"

definition execute ::
    "'db rocksdb \<Rightarrow> json_codec \<Rightarrow> (storage_error \<Rightarrow> string) \<Rightarrow> (json \<Rightarrow> string) \<Rightarrow> cli_command \<Rightarrow> 'db
     \<Rightarrow> (string, string) result" where
  "execute K J dbg to_str command store =
     (case command of
        Status \<Rightarrow> Ok ''Caminus CDC Engine Status: HEALTHY | Active Consensus: Node 1 (LEADER)''
      | InspectOffset source_id \<Rightarrow>
          (case get_offset K store source_id of
             Inr (Some off) \<Rightarrow> Ok (''Source '' @ quote_id source_id @ '' offset checkpoint: '' @ off)
           | Inr None \<Rightarrow> Ok (''Source '' @ quote_id source_id @ '' offset checkpoint: NONE'')
           | Inl e \<Rightarrow> Err (''Storage error: '' @ dbg e))
      | SchemaList source_id \<Rightarrow>
          (case get_schema K J store source_id of
             Inr (Some schema) \<Rightarrow> Ok (''Registered schema for '' @ quote_id source_id @ '': '' @ to_str schema)
           | Inr None \<Rightarrow> Ok (''No registered schema found for '' @ quote_id source_id)
           | Inl e \<Rightarrow> Err (''Storage error: '' @ dbg e))
      | Unknown cmd \<Rightarrow> Err (''Unknown CLI subcommand: '' @ cmd))"

section \<open>Properties\<close>

text \<open>
  The command line reports checkpoints. After a successful save of an offset,
  \<open>inspect-offset\<close> with that source prints exactly that offset, and without a source it
  reports the one of \<open>postgres_users\<close>; any other word is an error, and no arguments at all
  mean \<open>status\<close>.
\<close>

theorem cli_reports_checkpoint:
  assumes "rocksdb_laws K" and "save_offset K d source_id off = (Ok (), d')"
    and "utf8_valid (as_bytes off)"
  shows "execute K J dbg to_str (parse_args [prog, ''inspect-offset'', source_id]) d'
           = Ok (''Source '' @ quote_id source_id @ '' offset checkpoint: '' @ off)
       \<and> parse_args [prog, ''inspect-offset''] = parse_args [prog, ''inspect-offset'', ''postgres_users'']
       \<and> parse_args [prog] = Status
       \<and> (word \<notin> {''status'', ''inspect-offset'', ''schema-list''} \<longrightarrow>
            execute K J dbg to_str (parse_args (prog # word # rest)) d'
              = Err (''Unknown CLI subcommand: '' @ word))"
  using save_offset_get [OF assms(1,2,3)]
  by (simp add: parse_args_def execute_def source_arg_def)

theorem cli_reports_checkpoint_witness:
  "let d' = snd (save_offset mem_rocksdb Map.empty ''pg_users'' ''777'')
   in execute mem_rocksdb \<lparr>to_vec = (\<lambda>_. Err ''''), from_slice = (\<lambda>_. Err '''')\<rparr> (\<lambda>_. []) (\<lambda>_. [])
        (parse_args [''caminus'', ''inspect-offset'', ''pg_users'']) d'
      = Ok (''Source '' @ quote_id ''pg_users'' @ '' offset checkpoint: 777'')"
proof -
  have v: "utf8_valid (as_bytes ''777'')" by (rule utf8_ascii) simp
  obtain d' where d': "save_offset mem_rocksdb Map.empty ''pg_users'' ''777'' = (Ok (), d')"
    by (simp add: save_offset_def mem_rocksdb_def)
  from cli_reports_checkpoint [OF mem_rocksdb_laws d' v] d' show ?thesis by (simp add: Let_def)
qed

end
