(* ===== verification/Metrics.thy ===== *)
theory Metrics
  imports F64 "HOL-Library.Multiset"
begin

text \<open>
  \<^verbatim>\<open>src/src/resiliency/metrics.rs\<close>: the process-wide counters, their text form and the
  exporter. A counter is an atomic \<open>u64\<close> whose \<open>fetch_add\<close> wraps. The exporter runs over
  the outcome of the bind and the outcomes of the accepts, each with the counters at the time its
  response is made; what is read from a socket is not used.
\<close>

section \<open>Model\<close>

record metrics =
  events_ingested :: u64
  events_processed :: u64
  duplicates_filtered :: u64
  latency_sum_us :: u64
  latency_count :: u64

definition metrics_zero :: metrics where
  "metrics_zero = \<lparr>events_ingested = 0, events_processed = 0, duplicates_filtered = 0,
     latency_sum_us = 0, latency_count = 0\<rparr>"

definition increment_ingested :: "metrics \<Rightarrow> metrics" where
  "increment_ingested m = m\<lparr>events_ingested := events_ingested m + 1\<rparr>"

definition increment_processed :: "metrics \<Rightarrow> metrics" where
  "increment_processed m = m\<lparr>events_processed := events_processed m + 1\<rparr>"

definition increment_duplicates :: "metrics \<Rightarrow> metrics" where
  "increment_duplicates m = m\<lparr>duplicates_filtered := duplicates_filtered m + 1\<rparr>"

definition record_latency :: "u64 \<Rightarrow> metrics \<Rightarrow> metrics" where
  "record_latency duration_us m =
     m\<lparr>latency_sum_us := latency_sum_us m + duration_us, latency_count := latency_count m + 1\<rparr>"

text \<open>\<open>{:.6}\<close> of a non-negative double: its exact value, rounded to six decimals.\<close>

fun pad_digits :: "nat \<Rightarrow> nat \<Rightarrow> string" where
  "pad_digits 0 n = []"
| "pad_digits (Suc w) n = pad_digits w (n div 10) @ [digit_char (n mod 10)]"

definition show_fixed6 :: "f64 \<Rightarrow> string" where
  "show_fixed6 x =
     (let n = nat (rne (x * 1000000)) in show_nat (n div 1000000) @ ''.'' @ pad_digits 6 (n mod 1000000))"

definition counter_text :: "string \<Rightarrow> string \<Rightarrow> string \<Rightarrow> string" where
  "counter_text name descr value =
     ''# HELP '' @ name @ '' '' @ descr @ [CHR 0x0A] @
     ''# TYPE '' @ name @ '' counter'' @ [CHR 0x0A] @
     name @ '' '' @ value @ [CHR 0x0A]"

definition render :: "metrics \<Rightarrow> string" where
  "render m =
     (let latency_sum_sec = fdiv (f64_of_nat (unat (latency_sum_us m))) 1000000 in
      counter_text ''caminus_events_ingested_total'' ''Total events ingested by the sources.''
        (show_nat (unat (events_ingested m)))
      @ counter_text ''caminus_events_processed_total''
        ''Total events successfully processed and dispatched.'' (show_nat (unat (events_processed m)))
      @ counter_text ''caminus_duplicates_filtered_total''
        ''Total duplicate events filtered out by deduplication.'' (show_nat (unat (duplicates_filtered m)))
      @ counter_text ''caminus_processing_latency_seconds_sum''
        ''Latency sum of processing events in seconds.'' (show_fixed6 latency_sum_sec)
      @ counter_text ''caminus_processing_latency_seconds_count''
        ''Count of events processed for latency.'' (show_nat (unat (latency_count m))))"

definition crlf :: string where
  "crlf = [CHR 0x0D, CHR 0x0A]"

definition exporter_response :: "metrics \<Rightarrow> string" where
  "exporter_response m =
     (let metrics_data = render m in
      ''HTTP/1.1 200 OK'' @ crlf
      @ ''Content-Type: text/plain; version=0.0.4; charset=utf-8'' @ crlf
      @ ''Content-Length: '' @ show_nat (length metrics_data) @ crlf
      @ ''Connection: close'' @ crlf @ crlf
      @ metrics_data)"

text \<open>\<open>start_exporter\<close>: the line printed and the bytes written to each accepted socket. A failed
  accept is skipped.\<close>

definition serve :: "(('x, unit) result \<times> metrics) list \<Rightarrow> string list" where
  "serve conns = List.map_filter (\<lambda>(accepted, m). case accepted of Inr _ \<Rightarrow> Some (exporter_response m) | Inl _ \<Rightarrow> None) conns"

definition start_exporter ::
    "('x \<Rightarrow> string) \<Rightarrow> string \<Rightarrow> ('x, unit) result \<Rightarrow> (('x, unit) result \<times> metrics) list \<Rightarrow> string \<times> string list" where
  "start_exporter dbg addr bound conns =
     (case bound of
        Inl e \<Rightarrow> (''[Metrics Server] Failed to bind to '' @ addr @ '': '' @ dbg e, [])
      | Inr _ \<Rightarrow> (''[Metrics Server] Listening on http://'' @ addr, serve conns))"

text \<open>The calls tasks make, in the order the atomics serialize them.\<close>

datatype metric_call = Ingested | Processed | Duplicate | Latency u64

fun metric_step :: "metric_call \<Rightarrow> metrics \<Rightarrow> metrics" where
  "metric_step Ingested m = increment_ingested m"
| "metric_step Processed m = increment_processed m"
| "metric_step Duplicate m = increment_duplicates m"
| "metric_step (Latency us) m = record_latency us m"

fun latency_of :: "metric_call \<Rightarrow> u64 option" where
  "latency_of (Latency us) = Some us"
| "latency_of _ = None"

section \<open>Lemmas on rounding\<close>

lemma rne_error: "\<bar>of_int (rne y) - y\<bar> \<le> 1 / 2"
proof -
  have "of_int \<lfloor>y\<rfloor> \<le> y" "y < of_int \<lfloor>y\<rfloor> + 1" by linarith+
  then show ?thesis by (simp add: rne_def Let_def)
qed

lemma rne_near:
  assumes "\<bar>y - of_int n\<bar> < 1 / 2"
  shows "rne y = n"
proof -
  have "\<bar>of_int (rne y) - rat_of_int n\<bar> < 1" using assms rne_error [of y] by linarith
  then have "\<bar>rat_of_int (rne y - n)\<bar> < 1" by simp
  then have "\<bar>rne y - n\<bar> < 1" by (metis of_int_abs of_int_less_1_iff)
  then show ?thesis by simp
qed

lemma fl_error:
  assumes "pow2 (- 1000) \<le> x"
  shows "\<bar>fl x - x\<bar> \<le> x / 2 ^ 53"
proof -
  have pos: "0 < x" using assms pow2_pos less_le_trans by blast
  let ?u = "pow2 (ulp_exp x)"
  have "- 1000 < ilog2 x + 1"
    using ilog2_bounds(2) [OF pos] assms by (metis le_less_trans pow2_less_iff)
  then have "ulp_exp x = ilog2 x - 52" using pos by (simp add: ulp_exp_def)
  then have u: "?u = pow2 (ilog2 x) / 2 ^ 52" by (simp add: pow2_diff) (simp add: pow2_def)
  have "fl x - x = (of_int (rne (x / ?u)) - x / ?u) * ?u"
    using pos by (simp add: fl_def algebra_simps)
  then have "\<bar>fl x - x\<bar> = \<bar>of_int (rne (x / ?u)) - x / ?u\<bar> * ?u" by (simp add: abs_mult)
  also have "\<dots> \<le> 1 / 2 * ?u" by (intro mult_right_mono rne_error) simp
  also have "\<dots> \<le> x / 2 ^ 53" using ilog2_bounds(1) [OF pos] by (simp add: u)
  finally show ?thesis .
qed

lemma micros_exact:
  assumes "n < 2 ^ 52"
  shows "rne (fl (rat_of_nat n / 1000000) * 1000000) = int n"
proof (cases "n = 0")
  case False
  let ?x = "rat_of_nat n / 1000000"
  have "pow2 (- 1000) \<le> pow2 (- 20)" by (rule pow2_mono) simp
  also have "pow2 (- 20) \<le> 1 / 1000000" by (simp add: pow2_def power_int_minus)
  also have "\<dots> \<le> ?x" using False by simp
  finally have err: "\<bar>fl ?x - ?x\<bar> \<le> ?x / 2 ^ 53" by (rule fl_error)
  have "\<bar>fl ?x * 1000000 - rat_of_int (int n)\<bar> = \<bar>fl ?x - ?x\<bar> * 1000000"
    by (simp add: abs_if algebra_simps)
  also have "\<dots> \<le> rat_of_nat n / 2 ^ 53" using err by simp
  also have "\<dots> < 1 / 2"
  proof -
    have "rat_of_nat n < rat_of_nat (2 ^ 52)" using assms by (simp only: of_nat_less_iff)
    then show ?thesis by simp
  qed
  finally show ?thesis by (rule rne_near)
qed (use rne_of_int [of 0] in simp)

lemma show_fixed6_micros:
  assumes "n < 2 ^ 52"
  shows "show_fixed6 (fdiv (f64_of_nat n) 1000000) = show_nat (n div 1000000) @ ''.'' @ pad_digits 6 (n mod 1000000)"
proof -
  have "f64_of_nat n = rat_of_nat n" using assms by (simp add: f64_of_nat_def fl_of_nat)
  then have "nat (rne (fdiv (f64_of_nat n) 1000000 * 1000000)) = n"
    using micros_exact [of n] assms by (simp add: fdiv_def)
  then show ?thesis by (simp only: show_fixed6_def Let_def)
qed

lemma render_latency:
  "\<exists>a b. render m = a @ ''caminus_processing_latency_seconds_sum'' @ '' ''
     @ show_fixed6 (fdiv (f64_of_nat (unat (latency_sum_us m))) 1000000) @ [CHR 0x0A] @ b"
proof -
  have split: "\<exists>a. counter_text name d v = a @ name @ '' '' @ v @ [CHR 0x0A]" for name d v
    unfolding counter_text_def
    by (rule exI [of _ "''# HELP '' @ name @ '' '' @ d @ [CHR 0x0A] @ ''# TYPE '' @ name @ '' counter'' @ [CHR 0x0A]"])
      (simp only: append_assoc)
  obtain t0 t1 t2 t4 where r: "render m = t0 @ t1 @ t2
      @ counter_text ''caminus_processing_latency_seconds_sum'' ''Latency sum of processing events in seconds.''
          (show_fixed6 (fdiv (f64_of_nat (unat (latency_sum_us m))) 1000000)) @ t4"
    unfolding render_def Let_def by blast
  obtain a where "counter_text ''caminus_processing_latency_seconds_sum'' ''Latency sum of processing events in seconds.''
      (show_fixed6 (fdiv (f64_of_nat (unat (latency_sum_us m))) 1000000))
      = a @ ''caminus_processing_latency_seconds_sum'' @ '' ''
        @ show_fixed6 (fdiv (f64_of_nat (unat (latency_sum_us m))) 1000000) @ [CHR 0x0A]"
    using split by blast
  then show ?thesis
    unfolding r by (intro exI [of _ "t0 @ t1 @ t2 @ a"] exI [of _ t4]) (simp only: append_assoc)
qed

lemma latency_of_filter: "List.map_filter latency_of (c # cs) =
    (case latency_of c of None \<Rightarrow> List.map_filter latency_of cs | Some us \<Rightarrow> us # List.map_filter latency_of cs)"
  by (simp add: List.map_filter_simps split: option.split)

section \<open>Properties\<close>

text \<open>
  No update is lost. Whatever the order in which the atomics serialize the calls of all
  tasks, each counter ends at its initial value plus the number of its calls, modulo
  \<open>2 ^ 64\<close>, and the latency sum at the sum of the recorded latencies.
\<close>

theorem metrics_totals:
  "let m' = fold metric_step calls m in
     events_ingested m' = events_ingested m + of_nat (count (mset calls) Ingested)
   \<and> events_processed m' = events_processed m + of_nat (count (mset calls) Processed)
   \<and> duplicates_filtered m' = duplicates_filtered m + of_nat (count (mset calls) Duplicate)
   \<and> latency_sum_us m' = latency_sum_us m + sum_list (List.map_filter latency_of calls)
   \<and> latency_count m' = latency_count m + of_nat (length (List.map_filter latency_of calls))"
proof (induction calls arbitrary: m)
  case Nil
  then show ?case by (simp add: List.map_filter_simps)
next
  case (Cons c calls)
  show ?case
    using Cons [of "metric_step c m"]
    by (cases c) (simp_all add: Let_def latency_of_filter increment_ingested_def increment_processed_def
        increment_duplicates_def record_latency_def)
qed

text \<open>
  The exported latency is exact. Although the sum of microseconds goes through a double,
  a sum below \<open>2 ^ 52\<close> is printed in seconds with all its six decimals right, and the
  exporter announces the length of the body it sends.
\<close>

theorem latency_text_exact:
  assumes "unat (latency_sum_us m) < 2 ^ 52"
  shows "(\<exists>a b. render m =
            a @ ''caminus_processing_latency_seconds_sum'' @ '' ''
            @ show_nat (unat (latency_sum_us m) div 1000000) @ ''.''
            @ pad_digits 6 (unat (latency_sum_us m) mod 1000000) @ [CHR 0x0A] @ b)
       \<and> (\<exists>h. exporter_response m =
            h @ ''Content-Length: '' @ show_nat (length (render m)) @ crlf
            @ ''Connection: close'' @ crlf @ crlf @ render m)"
proof -
  note show_fixed6_micros [OF assms]
  moreover have "\<exists>h. exporter_response m =
            h @ ''Content-Length: '' @ show_nat (length (render m)) @ crlf
            @ ''Connection: close'' @ crlf @ crlf @ render m"
    unfolding exporter_response_def Let_def
    by (rule exI [of _ "''HTTP/1.1 200 OK'' @ crlf
        @ ''Content-Type: text/plain; version=0.0.4; charset=utf-8'' @ crlf"]) (simp only: append_assoc)
  ultimately show ?thesis
    using render_latency [of m] by (simp only: append_assoc simp_thms)
qed

theorem latency_text_exact_witness:
  "\<exists>a b. render (record_latency 1500000 metrics_zero) =
     a @ ''caminus_processing_latency_seconds_sum'' @ '' ''
     @ show_nat 1 @ ''.'' @ pad_digits 6 500000 @ [CHR 0x0A] @ b"
proof -
  let ?m = "record_latency 1500000 metrics_zero"
  have sum: "unat (latency_sum_us ?m) = 1500000"
    by (simp add: record_latency_def metrics_zero_def)
  then have "unat (latency_sum_us ?m) < 2 ^ 52" by simp
  from latency_text_exact [OF this] show ?thesis by (simp only: sum) simp
qed

end
