(* ===== verification/Rate_Limiter.thy ===== *)
theory Rate_Limiter
  imports Event
begin

text \<open>
  \<^verbatim>\<open>src/src/resiliency/rate_limiter.rs\<close>: the token bucket and the per-tenant quotas. Token
  counts and rates are \<open>f64\<close> with IEEE rounding; every \<open>Instant::now()\<close> is an argument.
  The waiting loop of \<open>acquire\<close> reads the clock once per round, so its argument is the
  sequence of readings; running out of readings means it is still waiting.
\<close>

section \<open>Model\<close>

record token_bucket =
  capacity :: u32
  tokens :: f64
  refill_rate_per_sec :: f64
  last_refill :: instant

definition bucket_new :: "u32 \<Rightarrow> f64 \<Rightarrow> instant \<Rightarrow> token_bucket" where
  "bucket_new cap rate now =
     \<lparr>capacity = cap, tokens = f64_of_u32 cap, refill_rate_per_sec = rate, last_refill = now\<rparr>"

text \<open>The refill both operations start with.\<close>

definition refill :: "token_bucket \<Rightarrow> instant \<Rightarrow> token_bucket" where
  "refill b now =
     (let elapsed_secs = as_secs_f64 (now - last_refill b);
          new_tokens = fadd (tokens b) (fmul elapsed_secs (refill_rate_per_sec b))
      in b\<lparr>tokens := min new_tokens (f64_of_u32 (capacity b)), last_refill := now\<rparr>)"

definition try_acquire :: "token_bucket \<Rightarrow> u32 \<Rightarrow> instant \<Rightarrow> bool \<times> token_bucket" where
  "try_acquire b count now =
     (let b' = refill b now in
      if tokens b' \<ge> f64_of_u32 count
      then (True, b'\<lparr>tokens := fsub (tokens b') (f64_of_u32 count)\<rparr>)
      else (False, b'))"

text \<open>
  How long \<open>acquire\<close> sleeps after a failed round; \<open>None\<close> is the panic of
  \<open>Duration::from_secs_f64\<close>, which a refill rate of zero causes (the quotient is infinite).
\<close>

definition acquire_wait :: "token_bucket \<Rightarrow> u32 \<Rightarrow> duration option" where
  "acquire_wait b count =
     (if refill_rate_per_sec b = 0 then None
      else
        let missing_tokens = fsub (f64_of_u32 count) (tokens b);
            wait_secs = fdiv missing_tokens (refill_rate_per_sec b)
        in from_secs_f64 (max wait_secs (fl (1 / 1000))))"

datatype acquire_outcome = Acquired token_bucket | Panicked token_bucket | Waiting token_bucket

fun acquire :: "token_bucket \<Rightarrow> u32 \<Rightarrow> instant list \<Rightarrow> acquire_outcome" where
  "acquire b count [] = Waiting b"
| "acquire b count (now # later) =
     (case try_acquire b count now of
        (True, b') \<Rightarrow> Acquired b'
      | (False, b') \<Rightarrow>
          (case acquire_wait b' count of
             None \<Rightarrow> Panicked b'
           | Some _ \<Rightarrow> acquire b' count later))"

record tenant_quota_limiter =
  tenant_limiters :: "(string, token_bucket) hash_map"
  default_capacity :: u32
  default_refill_rate :: f64

definition quota_new :: "u32 \<Rightarrow> f64 \<Rightarrow> tenant_quota_limiter" where
  "quota_new cap rate = \<lparr>tenant_limiters = [], default_capacity = cap, default_refill_rate = rate\<rparr>"

definition set_tenant_quota ::
    "tenant_quota_limiter \<Rightarrow> string \<Rightarrow> u32 \<Rightarrow> f64 \<Rightarrow> instant \<Rightarrow> tenant_quota_limiter" where
  "set_tenant_quota q tenant_id cap rate now =
     q\<lparr>tenant_limiters := hm_insert tenant_id (bucket_new cap rate now) (tenant_limiters q)\<rparr>"

text \<open>\<open>created\<close> is the clock reading of the bucket made for an unknown tenant, \<open>now\<close> the
  one of the acquisition.\<close>

definition try_allow ::
    "tenant_quota_limiter \<Rightarrow> string \<Rightarrow> instant \<Rightarrow> instant \<Rightarrow> bool \<times> tenant_quota_limiter" where
  "try_allow q tenant_id created now =
     (case hm_get (tenant_limiters q) tenant_id of
        Some limiter \<Rightarrow>
          (case try_acquire limiter 1 now of
             (r, l') \<Rightarrow> (r, q\<lparr>tenant_limiters := hm_insert tenant_id l' (tenant_limiters q)\<rparr>))
      | None \<Rightarrow>
          (case try_acquire (bucket_new (default_capacity q) (default_refill_rate q) created) 1 now of
             (r, l') \<Rightarrow> (r, q\<lparr>tenant_limiters := hm_insert tenant_id l' (tenant_limiters q)\<rparr>)))"

definition tenant_count :: "tenant_quota_limiter \<Rightarrow> nat" where
  "tenant_count q = length (tenant_limiters q)"

definition has_tenant_quota :: "tenant_quota_limiter \<Rightarrow> string \<Rightarrow> bool" where
  "has_tenant_quota q tenant_id = hm_contains_key (tenant_limiters q) tenant_id"

section \<open>Specification\<close>

definition bucket_inv :: "token_bucket \<Rightarrow> bool" where
  "bucket_inv b \<longleftrightarrow> 0 \<le> refill_rate_per_sec b \<and> 0 \<le> tokens b \<and> tokens b \<le> f64_of_u32 (capacity b)"

definition quota_inv :: "tenant_quota_limiter \<Rightarrow> bool" where
  "quota_inv q \<longleftrightarrow> hm_ok (tenant_limiters q) \<and> 0 \<le> default_refill_rate q
     \<and> (\<forall>t b. hm_get (tenant_limiters q) t = Some b \<longrightarrow> bucket_inv b)"

text \<open>A request is a tenant with the two clock readings; a run collects the verdicts.\<close>

definition allow_request ::
    "tenant_quota_limiter \<Rightarrow> string \<times> instant \<times> instant \<Rightarrow> bool \<times> tenant_quota_limiter" where
  "allow_request q = (\<lambda>(t, created, now). try_allow q t created now)"

definition verdicts_of :: "string \<Rightarrow> (string \<times> 'a) list \<Rightarrow> bool list \<Rightarrow> bool list" where
  "verdicts_of t reqs vs = map snd (filter (\<lambda>(r, v). fst r = t) (zip reqs vs))"

section \<open>Lemmas\<close>

lemma refill_fields [simp]:
  "capacity (refill b now) = capacity b"
  "refill_rate_per_sec (refill b now) = refill_rate_per_sec b"
  "last_refill (refill b now) = now"
  by (simp_all add: refill_def Let_def)

lemma refill_tokens_le: "tokens (refill b now) \<le> f64_of_u32 (capacity b)"
  by (simp add: refill_def Let_def)

lemma refill_inv: "bucket_inv b \<Longrightarrow> bucket_inv (refill b now)"
  using refill_tokens_le [of b now]
  by (simp add: bucket_inv_def) (simp add: refill_def Let_def fadd_def fmul_def ieee.rnd_nonneg)

lemma try_acquire_inv: "bucket_inv b \<Longrightarrow> bucket_inv (snd (try_acquire b count now))"
proof -
  assume inv: "bucket_inv b"
  let ?b = "refill b now" and ?c = "f64_of_u32 count"
  have r: "bucket_inv ?b" using inv by (rule refill_inv)
  have "tokens ?b - ?c \<le> f64_of_u32 (capacity b)"
    using refill_tokens_le [of b now] f64_of_u32_nonneg [of count] by linarith
  then have "fl (tokens ?b - ?c) \<le> f64_of_u32 (capacity b)"
    using ieee.rnd_mono [of "tokens ?b - ?c" "f64_of_u32 (capacity b)"] by simp
  then show ?thesis
    using r by (auto simp: try_acquire_def Let_def bucket_inv_def fsub_def ieee.rnd_diff_nonneg)
qed

lemma try_acquire_refused:
  "\<not> fst (try_acquire b count now) \<Longrightarrow> snd (try_acquire b count now) = refill b now"
  by (simp add: try_acquire_def Let_def split: if_splits)

lemma try_acquire_fields [simp]:
  "capacity (snd (try_acquire b count now)) = capacity b"
  "refill_rate_per_sec (snd (try_acquire b count now)) = refill_rate_per_sec b"
  "last_refill (snd (try_acquire b count now)) = now"
  by (simp_all add: try_acquire_def Let_def)

text \<open>More than the capacity is never granted.\<close>

lemma try_acquire_too_much: "unat (capacity b) < unat count \<Longrightarrow> \<not> fst (try_acquire b count now)"
  using refill_tokens_le [of b now] f64_of_u32_less_iff [of "capacity b" count]
  by (simp add: try_acquire_def Let_def)

text \<open>At the time of the last refill a bucket of whole tokens counts exactly.\<close>

lemma refill_same_time:
  assumes "tokens b = rat_of_nat k" and "k \<le> unat (capacity b)"
  shows "tokens (refill b (last_refill b)) = rat_of_nat k"
proof -
  have "k < 2 ^ 53" using assms(2) u32_small [of "capacity b"] by linarith
  then have "fl (rat_of_nat k) = rat_of_nat k" by (rule fl_of_nat)
  moreover have "rat_of_nat k \<le> f64_of_u32 (capacity b)"
    unfolding f64_of_u32_exact of_nat_le_iff by (rule assms(2))
  ultimately show ?thesis
    using assms by (simp add: refill_def Let_def fadd_def fmul_def min_def)
qed

lemma try_acquire_one_same_time:
  assumes "tokens b = rat_of_nat k" and "k \<le> unat (capacity b)"
  shows "fst (try_acquire b 1 (last_refill b)) \<longleftrightarrow> 0 < k"
    and "tokens (snd (try_acquire b 1 (last_refill b))) = rat_of_nat (k - 1)"
proof -
  note r = refill_same_time [OF assms]
  have "k - 1 < 2 ^ 53" using assms(2) u32_small [of "capacity b"] by linarith
  then have "fl (rat_of_nat (k - 1)) = rat_of_nat (k - 1)" by (rule fl_of_nat)
  then show "fst (try_acquire b 1 (last_refill b)) \<longleftrightarrow> 0 < k"
    and "tokens (snd (try_acquire b 1 (last_refill b))) = rat_of_nat (k - 1)"
    by (cases k; simp add: try_acquire_def Let_def r fsub_def)+
qed

lemma burst_run:
  assumes "tokens b = rat_of_nat k" and "k \<le> unat (capacity b)" and "last_refill b = now"
  shows "fst (feed (\<lambda>b _. try_acquire b 1 now) b (replicate n ()))
           = replicate (min k n) True @ replicate (n - k) False"
  using assms
proof (induction n arbitrary: b k)
  case (Suc n)
  let ?b = "snd (try_acquire b 1 now)"
  have step: "fst (try_acquire b 1 now) \<longleftrightarrow> 0 < k" "tokens ?b = rat_of_nat (k - 1)"
    using try_acquire_one_same_time [OF Suc.prems(1,2)] Suc.prems(3) by simp_all
  have "fst (feed (\<lambda>b _. try_acquire b 1 now) ?b (replicate n ()))
      = replicate (min (k - 1) n) True @ replicate (n - (k - 1)) False"
    using Suc.prems step(2) by (intro Suc.IH) simp_all
  then show ?case
    using step(1) by (cases k) (simp_all add: Let_def split_def)
qed simp


lemma acquire_run:
  "acquire b count (now # later) =
     (if fst (try_acquire b count now) then Acquired (snd (try_acquire b count now))
      else case acquire_wait (refill b now) count of
             None \<Rightarrow> Panicked (refill b now)
           | Some _ \<Rightarrow> acquire (refill b now) count later)"
  using try_acquire_refused [of b count now]
  by (cases "try_acquire b count now") (auto split: bool.splits option.splits)

text \<open>Half a second at two tokens a second or more is worth one token.\<close>

definition limiter_fit :: "token_bucket \<Rightarrow> bool" where
  "limiter_fit b \<longleftrightarrow> bucket_inv b \<and> 1 \<le> unat (capacity b) \<and> 2 \<le> refill_rate_per_sec b"

lemma half_second_acquires:
  assumes "limiter_fit b" and "last_refill b + from_millis 500 \<le> now"
  shows "\<exists>b'. acquire b 1 (now # later) = Acquired b' \<and> limiter_fit b' \<and> last_refill b' = now"
proof -
  let ?gain = "fmul (as_secs_f64 (now - last_refill b)) (refill_rate_per_sec b)"
  have "1 / 2 \<le> as_secs_f64 (now - last_refill b)" using assms(2) by (intro half_second_le) simp
  then have "1 / 2 * 2 \<le> as_secs_f64 (now - last_refill b) * refill_rate_per_sec b"
    using assms(1) by (intro mult_mono) (auto simp: limiter_fit_def)
  then have "rat_of_int 1 \<le> ?gain" using ieee.int_le_rnd [of 1] by (simp add: fmul_def)
  then have "rat_of_int 1 \<le> fadd (tokens b) ?gain"
    using ieee.int_le_rnd [of 1 "tokens b + ?gain"] assms(1) by (simp add: fadd_def limiter_fit_def bucket_inv_def)
  moreover have "1 \<le> f64_of_u32 (capacity b)"
    using assms(1) f64_of_u32_le_iff [of 1 "capacity b"] by (simp add: limiter_fit_def)
  ultimately have "fst (try_acquire b 1 now)" by (simp add: try_acquire_def refill_def Let_def)
  then show ?thesis
    using try_acquire_inv [of b 1 now] assms(1)
    by (simp add: acquire_run limiter_fit_def del: acquire.simps(2))
qed

text \<open>Such a limiter never panics: a round either acquires or waits.\<close>

lemma acquire_fit:
  assumes "limiter_fit b"
  obtains b' where "limiter_fit b'" and "acquire b 1 [t] = Acquired b' \<or> acquire b 1 [t] = Waiting b'"
proof (cases "fst (try_acquire b 1 t)")
  case True
  then show ?thesis
    using that [of "snd (try_acquire b 1 t)"] try_acquire_inv [of b 1 t] assms
    by (simp add: acquire_run limiter_fit_def del: acquire.simps(2))
next
  case False
  let ?b = "refill b t" and ?one = "f64_of_u32 1" and ?rate = "refill_rate_per_sec b"
  have one: "?one = 1" using fl_of_nat [of 1] by (simp add: f64_of_u32_def f64_of_nat_def)
  have inv: "bucket_inv ?b" using assms refill_inv by (simp add: limiter_fit_def)
  have "0 \<le> 1 - tokens ?b" "1 - tokens ?b \<le> 1"
    using False inv one by (auto simp: try_acquire_def Let_def bucket_inv_def split: if_splits)
  then have m: "0 \<le> fsub ?one (tokens ?b)" "fsub ?one (tokens ?b) \<le> 1"
    using ieee.rnd_nonneg ieee.rnd_le_int [of 1] by (simp_all add: fsub_def one)
  have "0 \<le> fsub ?one (tokens ?b) / ?rate" "fsub ?one (tokens ?b) / ?rate \<le> 1"
    using m assms by (simp_all add: limiter_fit_def divide_le_eq)
  then have w: "0 \<le> fdiv (fsub ?one (tokens ?b)) ?rate" "fdiv (fsub ?one (tokens ?b)) ?rate \<le> 1"
    using ieee.rnd_nonneg ieee.rnd_le_int [of 1] by (simp_all add: fdiv_def)
  have "fl (1 / 1000) \<le> 1" using ieee.rnd_le_int [of 1 "1 / 1000"] by simp
  with w have "\<exists>d. acquire_wait ?b 1 = Some d"
    using assms by (auto simp: acquire_wait_def from_secs_f64_def limiter_fit_def Let_def max_def)
  then show ?thesis
    using that [of ?b] False inv assms by (auto simp: acquire_run limiter_fit_def simp del: acquire.simps(2))
qed

section \<open>Interface\<close>

text \<open>
  What tenants rely on: a request of a tenant reads and writes that tenant's state only. Then
  its verdicts are those of a run that holds no other tenant's requests.
\<close>

locale per_key =
  fixes state_of :: "'q \<Rightarrow> string \<Rightarrow> 's"
    and request :: "'q \<Rightarrow> string \<times> 'a \<Rightarrow> bool \<times> 'q"
    and local :: "'s \<Rightarrow> 'a \<Rightarrow> bool \<times> 's"
  assumes request_verdict: "fst (request q (t, a)) = fst (local (state_of q t) a)"
    and request_state: "state_of (snd (request q (t, a))) u =
      (if u = t then snd (local (state_of q t) a) else state_of q u)"
begin

lemma verdicts_local:
  "map snd (filter (\<lambda>(r, v). fst r = t) (zip reqs (fst (feed request q reqs)))) =
     fst (feed local (state_of q t) (map snd (filter (\<lambda>r. fst r = t) reqs)))"
proof (induction reqs arbitrary: q)
  case (Cons r reqs)
  obtain u a where r: "r = (u, a)" by fastforce
  show ?case
    using Cons.IH [of "snd (request q r)"]
    by (cases "u = t") (auto simp: r request_verdict request_state Let_def split_def)
qed simp

lemma isolation:
  assumes "state_of q t = state_of p t"
  shows "map snd (filter (\<lambda>(r, v). fst r = t) (zip reqs (fst (feed request q reqs)))) =
     fst (feed request p (filter (\<lambda>r. fst r = t) reqs))"
proof -
  let ?own = "filter (\<lambda>r. fst r = t) reqs"
  have "map snd (filter (\<lambda>(r, v). fst r = t) (zip ?own (fst (feed request p ?own)))) =
      fst (feed request p ?own)"
    by (subst filter_True) (auto dest: set_zip_leftD simp: map_snd_zip)
  with verdicts_local [of t reqs q] verdicts_local [of t ?own p] assms show ?thesis by simp
qed

end

text \<open>The state of one tenant: its bucket, if it has one, and the defaults a new one gets.\<close>

definition tenant_state :: "tenant_quota_limiter \<Rightarrow> string \<Rightarrow> token_bucket option \<times> u32 \<times> f64" where
  "tenant_state q t = (hm_get (tenant_limiters q) t, default_capacity q, default_refill_rate q)"

definition tenant_local ::
    "token_bucket option \<times> u32 \<times> f64 \<Rightarrow> instant \<times> instant \<Rightarrow> bool \<times> (token_bucket option \<times> u32 \<times> f64)" where
  "tenant_local s c =
     (let b = (case fst s of Some b \<Rightarrow> b | None \<Rightarrow> bucket_new (fst (snd s)) (snd (snd s)) (fst c));
          r = try_acquire b 1 (snd c)
      in (fst r, Some (snd r), snd s))"

interpretation quota: per_key tenant_state allow_request tenant_local
  by unfold_locales
    (auto simp: allow_request_def try_allow_def tenant_state_def tenant_local_def Let_def
      split: option.splits prod.splits)

lemma try_allow_other:
  "u \<noteq> t \<Longrightarrow>
     hm_get (tenant_limiters (snd (try_allow q t created now))) u = hm_get (tenant_limiters q) u"
  by (auto simp: try_allow_def split: option.splits prod.splits)

lemma bucket_new_inv: "0 \<le> rate \<Longrightarrow> bucket_inv (bucket_new cap rate now)"
  by (simp add: bucket_inv_def bucket_new_def)

lemma try_allow_inv: "quota_inv q \<Longrightarrow> quota_inv (snd (try_allow q t created now))"
  by (cases "hm_get (tenant_limiters q) t")
    (auto simp: quota_inv_def try_allow_def split_def intro!: try_acquire_inv bucket_new_inv)

section \<open>Properties\<close>



text \<open>
  The burst is exactly the capacity. At the moment a bucket is created, of any number of
  requests for one token the first \<open>capacity\<close> are granted and all others refused.
\<close>

theorem burst_is_capacity:
  "fst (feed (\<lambda>b _. try_acquire b 1 now) (bucket_new cap rate now) (replicate n ()))
     = replicate (min (unat cap) n) True @ replicate (n - unat cap) False"
  by (rule burst_run) (simp_all add: bucket_new_def f64_of_u32_exact)

text \<open>
  Asking for more than the capacity never returns. Whatever the clock reads and however
  long it runs, \<open>acquire\<close> of more tokens than the capacity is still waiting or has panicked.
\<close>

theorem acquire_beyond_capacity:
  assumes "unat (capacity b) < unat count"
  shows "acquire b count clock \<noteq> Acquired b'"
  using assms
proof (induction clock arbitrary: b)
  case (Cons now clock)
  then show ?case
    using try_acquire_too_much [of b count now]
    by (simp add: acquire_run del: acquire.simps(2) split: option.splits)
qed simp

theorem acquire_beyond_capacity_witness:
  "acquire (bucket_new 2 1 0) 3 [10, 20, 30] \<noteq> Acquired (bucket_new 2 1 0)"
  by (rule acquire_beyond_capacity) (simp add: bucket_new_def)


lemma demo_clock: "as_secs_f64 4000000000 = 4"
proof -
  have "fl 4 = 4" using fl_of_int [of 4] by simp
  then show ?thesis
    by (simp add: as_secs_f64_def nanos_per_sec_def fadd_def fdiv_def f64_of_nat_def)
qed


text \<open>
  C28: Tenants are isolated. The verdicts a tenant gets in any interleaving of requests are
  exactly the verdicts it gets when it is alone: no other tenant's traffic can use up its
  quota or give it more.
\<close>

theorem tenant_isolation:
  "verdicts_of t reqs (fst (feed allow_request q reqs))
     = fst (feed allow_request q (filter (\<lambda>r. fst r = t) reqs))"
  unfolding verdicts_of_def by (rule quota.isolation) (rule refl)

end
