(* ===== verification/Quota_Threads.thy ===== *)
theory Quota_Threads
  imports Rate_Limiter
begin

text \<open>
  \<open>TenantQuotaLimiter\<close> of \<^verbatim>\<open>src/src/resiliency/rate_limiter.rs\<close> called by several threads at once.
  A thread stops wherever it has to wait for the lock of the map; the two mutexes of a bucket are
  always taken in the same order and held to the end of an acquisition, so an acquisition is one
  step. A miss gives the read lock back before it asks for the write lock, and other threads may
  run in between.
\<close>

section \<open>Model\<close>

datatype quota_call = TryAllow string | SetQuota string u32 f64 | TenantCount | HasQuota string

datatype quota_answer = Allowed bool | QuotaSet | Counted nat | Has bool

text \<open>Where a thread is: it holds the read lock in \<open>Reading\<close> and \<open>Found\<close>, the write lock in
  \<open>Writing\<close>.\<close>

datatype quota_pc =
    Called quota_call
  | Reading string
  | Found string
  | Missed string
  | Writing string
  | Answered quota_answer

fun reader :: "quota_pc \<Rightarrow> bool" where
  "reader (Reading t) \<longleftrightarrow> True"
| "reader (Found t) \<longleftrightarrow> True"
| "reader _ \<longleftrightarrow> False"

fun writer :: "quota_pc \<Rightarrow> bool" where
  "writer (Writing t) \<longleftrightarrow> True"
| "writer _ \<longleftrightarrow> False"

text \<open>\<open>answered\<close> is the history of the calls that returned, with the thread and the clock
  readings of the step; no step reads it.\<close>

record quota_state =
  quotas :: tenant_quota_limiter
  callers :: "quota_pc list"
  answered :: "(nat \<times> quota_call \<times> (instant \<times> instant) \<times> quota_answer) list"

definition can_read :: "quota_state \<Rightarrow> bool" where
  "can_read s \<longleftrightarrow> \<not> list_ex writer (callers s)"

definition can_write :: "quota_state \<Rightarrow> bool" where
  "can_write s \<longleftrightarrow> \<not> list_ex writer (callers s) \<and> \<not> list_ex reader (callers s)"

definition move_to :: "nat \<Rightarrow> quota_pc \<Rightarrow> quota_state \<Rightarrow> quota_state" where
  "move_to i p s = s\<lparr>callers := (callers s)[i := p]\<rparr>"

definition answer_call ::
    "nat \<Rightarrow> quota_call \<Rightarrow> instant \<times> instant \<Rightarrow> quota_answer \<times> tenant_quota_limiter \<Rightarrow> quota_state \<Rightarrow> quota_state" where
  "answer_call i c clocks r s =
     (move_to i (Answered (fst r)) s)\<lparr>quotas := snd r, answered := answered s @ [(i, c, clocks, fst r)]\<rparr>"

text \<open>An acquisition from a bucket of the map.\<close>

definition draw :: "string \<Rightarrow> token_bucket \<Rightarrow> instant \<Rightarrow> tenant_quota_limiter \<Rightarrow> quota_answer \<times> tenant_quota_limiter" where
  "draw t l now q =
     (let (r, l') = try_acquire l 1 now
      in (Allowed r, q\<lparr>tenant_limiters := hm_insert t l' (tenant_limiters q)\<rparr>))"

definition quota_step :: "nat \<times> instant \<times> instant \<Rightarrow> quota_state \<Rightarrow> quota_state option" where
  "quota_step = (\<lambda>(i, created, now) s.
     let q = quotas s; k = (created, now) in
     if length (callers s) \<le> i then None
     else case callers s ! i of
       Called (TryAllow t) \<Rightarrow> if can_read s then Some (move_to i (Reading t) s) else None
     | Reading t \<Rightarrow>
         Some (move_to i (if hm_contains_key (tenant_limiters q) t then Found t else Missed t) s)
     | Found t \<Rightarrow>
         (case hm_get (tenant_limiters q) t of
            Some l \<Rightarrow> Some (answer_call i (TryAllow t) k (draw t l now q) s)
          | None \<Rightarrow> None)
     | Missed t \<Rightarrow> if can_write s then Some (move_to i (Writing t) s) else None
     | Writing t \<Rightarrow>
         (let l = (case hm_get (tenant_limiters q) t of
                     Some l \<Rightarrow> l
                   | None \<Rightarrow> bucket_new (default_capacity q) (default_refill_rate q) created)
          in Some (answer_call i (TryAllow t) k (draw t l now q) s))
     | Called (SetQuota t cap rate) \<Rightarrow>
         if can_write s then Some (answer_call i (SetQuota t cap rate) k (QuotaSet, set_tenant_quota q t cap rate created) s)
         else None
     | Called TenantCount \<Rightarrow>
         if can_read s then Some (answer_call i TenantCount k (Counted (tenant_count q), q) s) else None
     | Called (HasQuota t) \<Rightarrow>
         if can_read s then Some (answer_call i (HasQuota t) k (Has (has_tenant_quota q t), q) s) else None
     | Answered a \<Rightarrow> None)"

inductive quota_move :: "quota_state \<Rightarrow> quota_state \<Rightarrow> bool" where
  by_thread: "quota_step a s = Some s' \<Longrightarrow> quota_move s s'"

definition quota_begin :: "tenant_quota_limiter \<Rightarrow> quota_call list \<Rightarrow> quota_state" where
  "quota_begin q cs = \<lparr>quotas = q, callers = map Called cs, answered = []\<rparr>"

section \<open>Specification\<close>

text \<open>The limiter called by one thread: every call is one step.\<close>

fun quota_op :: "tenant_quota_limiter \<Rightarrow> quota_call \<times> instant \<times> instant \<Rightarrow> quota_answer \<times> tenant_quota_limiter" where
  "quota_op q (TryAllow t, created, now) = (case try_allow q t created now of (r, q') \<Rightarrow> (Allowed r, q'))"
| "quota_op q (SetQuota t cap rate, created, now) = (QuotaSet, set_tenant_quota q t cap rate created)"
| "quota_op q (TenantCount, created, now) = (Counted (tenant_count q), q)"
| "quota_op q (HasQuota t, created, now) = (Has (has_tenant_quota q t), q)"

text \<open>What the history says of a thread.\<close>

definition answers_to :: "nat \<Rightarrow> (nat \<times> quota_call \<times> (instant \<times> instant) \<times> quota_answer) list \<Rightarrow> (quota_call \<times> quota_answer) list" where
  "answers_to i h = map (\<lambda>(j, c, k, a). (c, a)) (filter (\<lambda>(j, _). j = i) h)"

fun steps_left :: "quota_pc \<Rightarrow> nat" where
  "steps_left (Called c) = 4"
| "steps_left (Reading t) = 3"
| "steps_left (Found t) = 1"
| "steps_left (Missed t) = 2"
| "steps_left (Writing t) = 1"
| "steps_left (Answered a) = 0"

section \<open>Lemmas\<close>

text \<open>The call a thread is in.\<close>

fun in_call :: "quota_pc \<Rightarrow> quota_call option" where
  "in_call (Called c) = Some c"
| "in_call (Reading t) = Some (TryAllow t)"
| "in_call (Found t) = Some (TryAllow t)"
| "in_call (Missed t) = Some (TryAllow t)"
| "in_call (Writing t) = Some (TryAllow t)"
| "in_call (Answered a) = None"

text \<open>
  A step moves a thread on inside its call or answers the call; an answer is what the call
  gives when it runs alone in the present state.
\<close>

lemma quota_step_cases:
  assumes "quota_step (i, created, now) s = Some s'"
  obtains (moved) p c where "i < length (callers s)" and "s' = move_to i p s" and "in_call (callers s ! i) = Some c"
      and "in_call p = Some c" and "steps_left p < steps_left (callers s ! i)"
      and "\<And>t. p = Found t \<Longrightarrow> hm_contains_key (tenant_limiters (quotas s)) t"
  | (returned) c where "i < length (callers s)" and "in_call (callers s ! i) = Some c"
      and "s' = answer_call i c (created, now) (quota_op (quotas s) (c, created, now)) s"
proof -
  have i: "i < length (callers s)" using assms by (simp add: quota_step_def Let_def split: if_splits)
  note step = assms [unfolded quota_step_def Let_def split_conv]
  show ?thesis
  proof (cases "callers s ! i")
    case (Called c)
    show ?thesis
    proof (cases "\<exists>t. c = TryAllow t")
      case True
      then obtain t where t: "c = TryAllow t" by blast
      then have "s' = move_to i (Reading t) s" using step i Called by (simp split: if_splits)
      then show ?thesis by (rule moved [OF i]) (simp_all add: Called t)
    next
      case False
      then have "s' = answer_call i c (created, now) (quota_op (quotas s) (c, created, now)) s"
        using step i Called by (cases c) (simp_all split: if_splits)
      then show ?thesis by (intro returned [OF i]) (simp_all add: Called)
    qed
  next
    case (Reading t)
    let ?p = "if hm_contains_key (tenant_limiters (quotas s)) t then Found t else Missed t"
    have "s' = move_to i ?p s" using step i Reading by simp
    then show ?thesis by (rule moved [OF i]) (simp_all add: Reading split: if_splits)
  next
    case (Found t)
    then obtain l where l: "hm_get (tenant_limiters (quotas s)) t = Some l"
        "s' = answer_call i (TryAllow t) (created, now) (draw t l now (quotas s)) s"
      using step i by (simp split: option.splits)
    then have "draw t l now (quotas s) = quota_op (quotas s) (TryAllow t, created, now)"
      by (simp add: draw_def try_allow_def split: prod.split)
    then show ?thesis using l(2) by (intro returned [OF i, of "TryAllow t"]) (simp_all add: Found)
  next
    case (Missed t)
    then have "s' = move_to i (Writing t) s" using step i by (simp split: if_splits)
    then show ?thesis by (rule moved [OF i]) (simp_all add: Missed)
  next
    case (Writing t)
    let ?l = "case hm_get (tenant_limiters (quotas s)) t of
        Some l \<Rightarrow> l | None \<Rightarrow> bucket_new (default_capacity (quotas s)) (default_refill_rate (quotas s)) created"
    have "s' = answer_call i (TryAllow t) (created, now) (draw t ?l now (quotas s)) s" using step i Writing by simp
    moreover have "draw t ?l now (quotas s) = quota_op (quotas s) (TryAllow t, created, now)"
      by (simp add: draw_def try_allow_def split: prod.split option.split)
    ultimately show ?thesis by (intro returned [OF i, of "TryAllow t"]) (simp_all add: Writing)
  next
    case (Answered a)
    then show ?thesis using step i by simp
  qed
qed

text \<open>A thread is still in its call and the history does not have it, or it has its answer once.\<close>

definition settled :: "quota_call \<Rightarrow> quota_pc \<Rightarrow> (quota_call \<times> quota_answer) list \<Rightarrow> bool" where
  "settled c p xs \<longleftrightarrow> in_call p = Some c \<and> xs = [] \<or> (\<exists>a. p = Answered a \<and> xs = [(c, a)])"

lemma settled_in_call: "settled c p xs \<Longrightarrow> in_call p = Some c' \<Longrightarrow> c' = c \<and> xs = []"
  by (auto simp: settled_def)

text \<open>The history is a run of the sequential limiter, with one entry for each thread that returned.\<close>

definition quota_history :: "tenant_quota_limiter \<Rightarrow> quota_call list \<Rightarrow> quota_state \<Rightarrow> bool" where
  "quota_history q cs s \<longleftrightarrow>
     length (callers s) = length cs
     \<and> feed quota_op q (map (\<lambda>(i, c, k, a). (c, k)) (answered s)) = (map (\<lambda>(i, c, k, a). a) (answered s), quotas s)
     \<and> (\<forall>i < length cs. settled (cs ! i) (callers s ! i) (answers_to i (answered s)))
     \<and> (\<forall>i t. i < length cs \<and> callers s ! i = Found t \<longrightarrow> hm_contains_key (tenant_limiters (quotas s)) t)"

lemma quota_op_keeps: "hm_contains_key (tenant_limiters q) t \<Longrightarrow> hm_contains_key (tenant_limiters (snd (quota_op q x))) t"
  by (cases "(q, x)" rule: quota_op.cases)
    (auto simp: try_allow_def set_tenant_quota_def split: option.split prod.split)

lemma quota_history_start: "quota_history q cs (quota_begin q cs)"
  by (auto simp: quota_history_def quota_begin_def answers_to_def settled_def)

lemma quota_history_step:
  assumes his: "quota_history q cs s" and move: "quota_move s s'"
  shows "quota_history q cs s'"
proof -
  obtain i created now where "quota_step (i, created, now) s = Some s'" using move by (auto elim!: quota_move.cases)
  then show ?thesis
  proof (cases rule: quota_step_cases)
    case (moved p c)
    then have "c = cs ! i \<and> answers_to i (answered s) = []"
      using his settled_in_call by (auto simp: quota_history_def)
    then show ?thesis
      using his moved by (auto simp: quota_history_def move_to_def nth_list_update settled_def)
  next
    case (returned c)
    let ?r = "quota_op (quotas s) (c, created, now)"
    have c: "c = cs ! i" "answers_to i (answered s) = []"
      using his returned(1,2) settled_in_call by (auto simp: quota_history_def)
    have "feed quota_op q (map (\<lambda>(i, c, k, a). (c, k)) (answered s')) = (map (\<lambda>(i, c, k, a). a) (answered s'), quotas s')"
      using his by (simp add: quota_history_def returned(3) answer_call_def feed_append split_beta)
    moreover have "answers_to j (answered s') = answers_to j (answered s) @ (if j = i then [(c, fst ?r)] else [])" for j
      by (simp add: answers_to_def returned(3) answer_call_def)
    then have "settled (cs ! j) (callers s' ! j) (answers_to j (answered s'))" if "j < length cs" for j
      using his c that returned(1)
      by (auto simp: quota_history_def settled_def returned(3) answer_call_def move_to_def nth_list_update)
    moreover have "hm_contains_key (tenant_limiters (quotas s')) t" if "j < length cs" "callers s' ! j = Found t" for j t
      using his that quota_op_keeps [of "quotas s" t] returned(1)
      by (auto simp: quota_history_def returned(3) answer_call_def move_to_def nth_list_update split: if_splits)
    moreover have "length (callers s') = length cs"
      using his by (simp add: quota_history_def returned(3) answer_call_def move_to_def)
    ultimately show ?thesis unfolding quota_history_def by blast
  qed
qed

interpretation quota_threads: inductive_invariant "\<lambda>s. s = quota_begin q cs" quota_move "quota_history q cs" for q cs
  by unfold_locales (simp_all add: quota_history_start quota_history_step)

text \<open>Progress: a thread that holds a lock can step; when none does, every thread can.\<close>

lemma quota_progress:
  assumes his: "quota_history q cs s" and i: "i < length cs" "\<forall>a. callers s ! i \<noteq> Answered a"
  shows "\<exists>s'. quota_move s s'"
proof -
  have enabled: "\<exists>s'. quota_move s s'"
    if "j < length cs" "reader (callers s ! j) \<or> writer (callers s ! j) \<or> can_write s \<and> (\<forall>a. callers s ! j \<noteq> Answered a)" for j
  proof -
    have "\<exists>s'. quota_step (j, 0, 0) s = Some s'"
    proof (cases "callers s ! j")
      case (Called c)
      with his that show ?thesis
        by (cases c) (auto simp: quota_step_def quota_history_def can_read_def can_write_def Let_def)
    qed (use his that in \<open>force simp: quota_step_def quota_history_def hm_contains_key_def Let_def split: option.split\<close>)+
    then show ?thesis by (blast intro: by_thread)
  qed
  show ?thesis
  proof (cases "can_write s")
    case True
    with enabled [OF i(1)] i(2) show ?thesis by blast
  next
    case False
    then obtain j where "j < length (callers s)" "reader (callers s ! j) \<or> writer (callers s ! j)"
      by (auto simp: can_write_def list_ex_iff in_set_conv_nth)
    with enabled [of j] his show ?thesis unfolding quota_history_def by auto
  qed
qed

lemma steps_left_decreases:
  assumes "quota_move s s'"
  shows "sum_list (map steps_left (callers s')) < sum_list (map steps_left (callers s))"
proof -
  have less: "sum_list (map steps_left (xs[i := p])) < sum_list (map steps_left xs)"
    if "i < length xs" "steps_left p < steps_left (xs ! i)" for xs i p
    using that by (induction xs arbitrary: i) (auto simp: less_Suc_eq_0_disj nth_Cons' split: nat.split)
  obtain i created now where "quota_step (i, created, now) s = Some s'" using assms by (auto elim!: quota_move.cases)
  then show ?thesis
  proof (cases rule: quota_step_cases)
    case (moved p c)
    then show ?thesis using less by (simp add: move_to_def)
  next
    case (returned c)
    then have "0 < steps_left (callers s ! i)" by (cases "callers s ! i") simp_all
    with returned less show ?thesis by (simp add: answer_call_def move_to_def)
  qed
qed

section \<open>Properties\<close>

text \<open>
  C29: Concurrent calls are linearizable. Whatever number of threads calls the limiter and however
  they interleave, also when several of them miss the same tenant and race for the write lock, the
  calls that have returned gave the answers, and left the buckets, that the same calls give
  one after the other in the order they returned; every thread that returned is in that order once,
  with its own call and its answer.
\<close>

theorem quota_linearizable:
  assumes "reach (\<lambda>s. s = quota_begin q cs) quota_move s"
  shows "feed quota_op q (map (\<lambda>(i, c, k, a). (c, k)) (answered s)) = (map (\<lambda>(i, c, k, a). a) (answered s), quotas s)
    \<and> (\<forall>i < length cs. answers_to i (answered s) = (case callers s ! i of Answered a \<Rightarrow> [(cs ! i, a)] | _ \<Rightarrow> []))"
  using quota_threads.reach_inv [OF assms]
  by (auto simp: quota_history_def settled_def split: quota_pc.split)

text \<open>Two threads that both miss the tenant.\<close>

fun quota_run :: "(nat \<times> instant \<times> instant) list \<Rightarrow> quota_state \<Rightarrow> quota_state option" where
  "quota_run [] s = Some s"
| "quota_run (a # as) s = Option.bind (quota_step a s) (quota_run as)"

lemma quota_run_moves: "quota_run as s = Some s' \<Longrightarrow> (quota_move ^^ length as) s s'"
proof (induction as arbitrary: s)
  case (Cons a as)
  then obtain t where "quota_step a s = Some t" "quota_run as t = Some s'" by (auto split: Option.bind_splits)
  with Cons.IH show ?case using relpowp_Suc_I2 [of quota_move s t "length as" s'] by_thread by (simp del: relpowp.simps)
qed simp

definition demo_race :: "(nat \<times> instant \<times> instant) list" where
  "demo_race = map (\<lambda>i. (i, 0, 0)) [0, 1, 0, 1, 0, 0, 1, 1]"

lemma demo_race_runs:
  "\<exists>s. quota_run demo_race (quota_begin (quota_new 1 0) [TryAllow ''a'', TryAllow ''a'']) = Some s
      \<and> callers s = [Answered (Allowed True), Answered (Allowed False)] \<and> tenant_count (quotas s) = 1"
proof -
  have "fl 1 = 1" using fl_of_int [of 1] by simp
  then have "try_acquire (bucket_new 1 0 0) 1 0 = (True, (bucket_new 1 0 0)\<lparr>tokens := 0\<rparr>)"
    "try_acquire ((bucket_new 1 0 0)\<lparr>tokens := 0\<rparr>) 1 0 = (False, (bucket_new 1 0 0)\<lparr>tokens := 0\<rparr>)"
    by (simp_all add: try_acquire_def refill_def bucket_new_def Let_def fmul_def fadd_def fsub_def f64_of_u32_exact as_secs_f64_def)
  then show ?thesis
    by (simp add: demo_race_def quota_begin_def quota_new_def quota_step_def can_read_def can_write_def move_to_def
        answer_call_def draw_def hm_insert_def hm_contains_key_def tenant_count_def Let_def)
qed

lemma reach_moves: "(quota_move ^^ n) (quota_begin q cs) s \<Longrightarrow> reach (\<lambda>s. s = quota_begin q cs) quota_move s"
proof (induction n arbitrary: s)
  case 0
  then show ?case by (auto intro: reach.at_start)
next
  case (Suc n)
  then show ?case by (auto intro: reach.by_move)
qed

theorem quota_linearizable_witness:
  "\<exists>s. quota_run demo_race (quota_begin (quota_new 1 0) [TryAllow ''a'', TryAllow ''a'']) = Some s
      \<and> answers_to 0 (answered s) = [(TryAllow ''a'', Allowed True)]
      \<and> answers_to 1 (answered s) = [(TryAllow ''a'', Allowed False)]"
proof -
  obtain s where s: "quota_run demo_race (quota_begin (quota_new 1 0) [TryAllow ''a'', TryAllow ''a'']) = Some s"
      "callers s = [Answered (Allowed True), Answered (Allowed False)]"
    using demo_race_runs by blast
  from quota_linearizable [OF reach_moves [OF quota_run_moves [OF s(1)]]] s show ?thesis
    by (auto simp: less_Suc_eq_0_disj)
qed

text \<open>
  C30: Every call returns. The threads never block each other for good: as long as a thread has not
  returned some thread can take a step, and no schedule is longer than four steps per call.
\<close>

theorem quota_calls_return:
  assumes "(quota_move ^^ n) (quota_begin q cs) s"
  shows "n \<le> 4 * length cs \<and> ((\<forall>i < length cs. \<exists>a. callers s ! i = Answered a) \<or> (\<exists>s'. quota_move s s'))"
proof
  have "n + sum_list (map steps_left (callers s)) \<le> 4 * length cs"
    using assms
  proof (induction n arbitrary: s)
    case 0
    then show ?case by (auto simp: quota_begin_def comp_def sum_list_triv)
  next
    case (Suc n)
    then obtain t where "(quota_move ^^ n) (quota_begin q cs) t" "quota_move t s" by auto
    with Suc.IH [OF this(1)] steps_left_decreases [OF this(2)] show ?case by simp
  qed
  then show "n \<le> 4 * length cs" by simp
  show "(\<forall>i < length cs. \<exists>a. callers s ! i = Answered a) \<or> (\<exists>s'. quota_move s s')"
    using quota_progress [OF quota_threads.reach_inv [OF reach_moves [OF assms]]] by blast
qed

theorem quota_calls_return_witness:
  "\<exists>s. (quota_move ^^ 8) (quota_begin (quota_new 1 0) [TryAllow ''a'', TryAllow ''a'']) s \<and> \<not> (\<exists>s'. quota_move s s')
      \<and> (8 :: nat) \<le> 4 * length [TryAllow ''a'', TryAllow ''a'']"
proof -
  obtain s where s: "quota_run demo_race (quota_begin (quota_new 1 0) [TryAllow ''a'', TryAllow ''a'']) = Some s"
    using demo_race_runs by blast
  have m: "(quota_move ^^ 8) (quota_begin (quota_new 1 0) [TryAllow ''a'', TryAllow ''a'']) s"
    using quota_run_moves [OF s] by (simp add: demo_race_def numeral_eq_Suc del: relpowp.simps)
  have "\<not> quota_move s s'" for s'
  proof
    assume "quota_move s s'"
    with m have "(quota_move ^^ 9) (quota_begin (quota_new 1 0) [TryAllow ''a'', TryAllow ''a'']) s'"
      using relpowp_Suc_I [OF m] by (simp add: eval_nat_numeral)
    from quota_calls_return [OF this] show False by simp
  qed
  then show ?thesis using m quota_calls_return [OF m] by blast
qed

end
