(* ===== verification/Dedup.thy ===== *)
theory Dedup
  imports Event
begin

text \<open>
  \<^verbatim>\<open>src/src/resiliency/dedup.rs\<close>: the bounded filter that drops events whose id was seen
  recently. The filter keeps a set of ids and the order in which they came; the
  specification is a window over the history of accepted ids.
\<close>

section \<open>Model\<close>

record dedup_filter =
  processed_ids :: "string set"
  order :: "string list"
  max_capacity :: nat

definition dedup_new :: "nat \<Rightarrow> dedup_filter" where
  "dedup_new cap = \<lparr>processed_ids = {}, order = [], max_capacity = cap\<rparr>"

definition check_and_track :: "dedup_filter \<Rightarrow> string \<Rightarrow> bool \<times> dedup_filter" where
  "check_and_track f event_id =
     (if event_id \<in> processed_ids f then (True, f)
      else
        let ids = insert event_id (processed_ids f);
            ord = order f @ [event_id]
        in if length ord > max_capacity f
           then (case ord of
                   [] \<Rightarrow> (False, f\<lparr>processed_ids := ids, order := ord\<rparr>)
                 | oldest # rest \<Rightarrow>
                     (False, f\<lparr>processed_ids := ids - {oldest}, order := rest\<rparr>))
           else (False, f\<lparr>processed_ids := ids, order := ord\<rparr>))"

text \<open>The filter over a stream of ids: the verdicts in order, and the filter it leaves.\<close>

definition dedup_run :: "dedup_filter \<Rightarrow> string list \<Rightarrow> bool list \<times> dedup_filter" where
  "dedup_run f xs = feed check_and_track f xs"

section \<open>Specification\<close>

text \<open>
  The abstract filter keeps the whole history of accepted ids; an id is a duplicate exactly
  when it is among the last \<open>cap\<close> of them.
\<close>

definition window :: "nat \<Rightarrow> 'a list \<Rightarrow> 'a list" where
  "window cap xs = drop (length xs - cap) xs"

definition history_check :: "nat \<Rightarrow> string list \<Rightarrow> string \<Rightarrow> bool \<times> string list" where
  "history_check cap acc x =
     (if x \<in> set (window cap acc) then (True, acc) else (False, acc @ [x]))"

text \<open>The ids the filter lets through.\<close>

definition passed :: "nat \<Rightarrow> string list \<Rightarrow> string list" where
  "passed cap xs =
     map fst (filter (\<lambda>(x, dup). \<not> dup) (zip xs (fst (dedup_run (dedup_new cap) xs))))"

definition dedup_inv :: "dedup_filter \<Rightarrow> bool" where
  "dedup_inv f \<longleftrightarrow>
     processed_ids f = set (order f) \<and> distinct (order f) \<and> length (order f) \<le> max_capacity f"

section \<open>Lemmas\<close>

lemma window_snoc:
  "window cap (xs @ [x]) =
     (if cap = 0 then [] else if length xs < cap then window cap xs @ [x]
      else tl (window cap xs) @ [x])"
  by (auto simp: window_def Suc_diff_le drop_Suc tl_drop)

lemma length_window: "length (window cap xs) = min cap (length xs)"
  by (auto simp: window_def)

text \<open>First occurrences: what comes later than the head and differs from it.\<close>

lemma first_occurrence_Cons:
  "rev (remdups (rev xs @ [x])) = x # rev (remdups (rev (filter (\<lambda>y. y \<noteq> x) xs)))"
  by (induction xs rule: rev_induct) auto

lemma check_and_track_inv: "dedup_inv f \<Longrightarrow> dedup_inv (snd (check_and_track f x))"
  by (cases "order f") (auto simp: dedup_inv_def check_and_track_def Let_def)

lemma check_and_track_cap [simp]: "max_capacity (snd (check_and_track f x)) = max_capacity f"
  by (auto simp: check_and_track_def Let_def split: list.splits)

text \<open>An id that is not in the filter is appended, and the oldest one leaves a full filter.\<close>

lemma check_and_track_fresh:
  assumes "dedup_inv f" and "x \<notin> processed_ids f"
  shows "fst (check_and_track f x) = False"
    and "order (snd (check_and_track f x)) =
           (if length (order f) < max_capacity f then order f @ [x] else tl (order f @ [x]))"
  using assms by (cases "order f"; simp add: check_and_track_def dedup_inv_def Let_def)+

lemma check_and_track_known:
  "x \<in> processed_ids f \<Longrightarrow> check_and_track f x = (True, f)"
  by (simp add: check_and_track_def)

text \<open>One step of the filter is one step of the window over the accepted history.\<close>

lemma check_and_track_window:
  assumes inv: "dedup_inv f" and win: "order f = window (max_capacity f) acc"
  shows "fst (check_and_track f x) = (x \<in> set (window (max_capacity f) acc))"
    and "order (snd (check_and_track f x)) =
           window (max_capacity f) (if fst (check_and_track f x) then acc else acc @ [x])"
proof -
  have mem: "x \<in> processed_ids f \<longleftrightarrow> x \<in> set (window (max_capacity f) acc)"
    using inv by (simp add: dedup_inv_def win)
  then show "fst (check_and_track f x) = (x \<in> set (window (max_capacity f) acc))"
    by (cases "x \<in> processed_ids f")
      (simp_all add: check_and_track_known check_and_track_fresh [OF inv])
  have "tl (order f @ [x]) = window (max_capacity f) (acc @ [x])"
    if "\<not> length (order f) < max_capacity f"
    using that length_window [of "max_capacity f" acc]
    by (cases "order f") (auto simp: window_snoc win)
  then show "order (snd (check_and_track f x)) =
          window (max_capacity f) (if fst (check_and_track f x) then acc else acc @ [x])"
    using length_window [of "max_capacity f" acc]
    by (cases "x \<in> processed_ids f")
      (auto simp: check_and_track_known check_and_track_fresh [OF inv] window_snoc win)
qed

lemma dedup_inv_new: "dedup_inv (dedup_new cap)"
  by (simp add: dedup_inv_def dedup_new_def)

definition dedup_rel :: "nat \<Rightarrow> dedup_filter \<Rightarrow> string list \<Rightarrow> bool" where
  "dedup_rel cap f acc \<longleftrightarrow> dedup_inv f \<and> max_capacity f = cap \<and> order f = window cap acc"

lemma dedup_rel_step:
  "dedup_rel cap f acc \<Longrightarrow>
     fst (check_and_track f x) = fst (history_check cap acc x)
     \<and> dedup_rel cap (snd (check_and_track f x)) (snd (history_check cap acc x))"
  using check_and_track_window [of f acc x] check_and_track_inv [of f x]
  by (auto simp: dedup_rel_def history_check_def)

lemma dedup_rel_new: "dedup_rel cap (dedup_new cap) []"
  using dedup_inv_new [of cap] by (simp add: dedup_rel_def) (simp add: dedup_new_def window_def)

lemma dedup_simulation:
  "fst (feed check_and_track (dedup_new cap) xs) = fst (feed (history_check cap) [] xs)
   \<and> dedup_rel cap (snd (feed check_and_track (dedup_new cap) xs))
       (snd (feed (history_check cap) [] xs))"
  by (rule feed_simulation [where R = "dedup_rel cap"]) (simp_all add: dedup_rel_new dedup_rel_step)

lemma history_append:
  "snd (feed (history_check cap) acc xs) =
     acc @ map fst (filter (\<lambda>(x, dup). \<not> dup) (zip xs (fst (feed (history_check cap) acc xs))))"
  by (induction xs arbitrary: acc) (simp_all add: history_check_def Let_def split_def)

lemma history_small:
  assumes "distinct acc" and "card (set acc \<union> set xs) \<le> cap"
  shows "snd (feed (history_check cap) acc xs) = acc @ rev (remdups (rev (filter (\<lambda>x. x \<notin> set acc) xs)))"
  using assms
proof (induction xs arbitrary: acc)
  case (Cons x xs)
  have "length acc \<le> cap"
    using Cons.prems card_mono [of "set acc \<union> set (x # xs)" "set acc"]
    by (force simp: distinct_card)
  then have w: "window cap acc = acc" by (simp add: window_def)
  show ?case
  proof (cases "x \<in> set acc")
    case True
    then show ?thesis using Cons by (simp add: history_check_def [of cap acc x] w Let_def split_def insert_absorb)
  next
    case False
    have "snd (feed (history_check cap) (acc @ [x]) xs)
        = (acc @ [x]) @ rev (remdups (rev (filter (\<lambda>y. y \<notin> set (acc @ [x])) xs)))"
      using Cons.prems False by (intro Cons.IH) (auto simp: insert_commute)
    also have "\<dots> = acc @ rev (remdups (rev (filter (\<lambda>y. y \<notin> set acc) (x # xs))))"
      using False by (simp add: first_occurrence_Cons filter_filter conj_commute)
    finally show ?thesis using False by (simp add: history_check_def [of cap acc x] w Let_def split_def)
  qed
qed simp

section \<open>Interface\<close>

text \<open>
  What the ingestion loops rely on: the verdict is membership in the ids the filter
  remembers, a duplicate changes nothing, and only the offered id is ever added.
\<close>

locale id_filter =
  fixes check :: "'f \<Rightarrow> string \<Rightarrow> bool \<times> 'f"
    and seen :: "'f \<Rightarrow> string set"
    and ok :: "'f \<Rightarrow> bool"
  assumes verdict: "ok f \<Longrightarrow> fst (check f x) \<longleftrightarrow> x \<in> seen f"
    and duplicate_same: "ok f \<Longrightarrow> x \<in> seen f \<Longrightarrow> snd (check f x) = f"
    and seen_after: "ok f \<Longrightarrow> seen (snd (check f x)) \<subseteq> insert x (seen f)"
    and ok_check: "ok f \<Longrightarrow> ok (snd (check f x))"
begin

lemma ok_feed: "ok f \<Longrightarrow> ok (snd (feed check f xs))"
  by (rule feed_invariant) (simp_all add: ok_check)

lemma fresh_pass:
  "ok f \<Longrightarrow> distinct xs \<Longrightarrow> set xs \<inter> seen f = {} \<Longrightarrow>
     fst (feed check f xs) = replicate (length xs) False"
proof (induction xs arbitrary: f)
  case (Cons x xs)
  have "set xs \<inter> seen (snd (check f x)) = {}"
    using Cons.prems seen_after [of f x] by auto
  then have "fst (feed check (snd (check f x)) xs) = replicate (length xs) False"
    using Cons.prems by (intro Cons.IH) (simp_all add: ok_check)
  moreover have "\<not> fst (check f x)" using Cons.prems by (simp add: verdict)
  ultimately show ?case by (simp add: Let_def split_def)
qed simp

end

interpretation dedup: id_filter check_and_track processed_ids dedup_inv
proof unfold_locales
  fix f x
  assume inv: "dedup_inv f"
  show "fst (check_and_track f x) \<longleftrightarrow> x \<in> processed_ids f"
    by (cases "x \<in> processed_ids f")
      (simp_all add: check_and_track_known check_and_track_fresh [OF inv])
  show "processed_ids (snd (check_and_track f x)) \<subseteq> insert x (processed_ids f)"
    by (auto simp: check_and_track_def Let_def split: list.splits)
qed (simp_all add: check_and_track_known check_and_track_inv)

section \<open>Properties\<close>

text \<open>
  C15: Over any stream of ids, the bounded filter gives the same verdicts as the abstract
  filter that remembers every accepted id and looks at the last \<open>max_capacity\<close> of them;
  its queue is exactly that window, its set the ids of the queue.
\<close>

theorem dedup_refines_window:
  "fst (dedup_run (dedup_new cap) xs) = fst (feed (history_check cap) [] xs)
   \<and> order (snd (dedup_run (dedup_new cap) xs)) = window cap (snd (feed (history_check cap) [] xs))
   \<and> processed_ids (snd (dedup_run (dedup_new cap) xs))
       = set (order (snd (dedup_run (dedup_new cap) xs)))"
  using dedup_simulation [of cap xs]
  by (simp add: dedup_run_def dedup_rel_def dedup_inv_def)

text \<open>
  A stream with no more distinct ids than the filter's capacity passes each id exactly
  once, at its first occurrence, in order.
\<close>

theorem dedup_exactly_once:
  assumes "card (set xs) \<le> cap"
  shows "passed cap xs = rev (remdups (rev xs))"
proof -
  have "passed cap xs = snd (feed (history_check cap) [] xs)"
    using dedup_simulation [of cap xs] history_append [of cap "[]" xs]
    by (simp add: passed_def dedup_run_def)
  then show ?thesis using history_small [of "[]" xs cap] assms by simp
qed

theorem dedup_exactly_once_witness:
  "passed 3 [''evt-1'', ''evt-1'', ''evt-2'', ''evt-3'', ''evt-2''] = [''evt-1'', ''evt-2'', ''evt-3'']"
proof -
  have "card (set [''evt-1'', ''evt-1'', ''evt-2'', ''evt-3'', ''evt-2'']) \<le> 3"
    by (simp add: card_insert_if)
  from dedup_exactly_once [OF this] show ?thesis by simp
qed

end
