(* ===== verification/Tx_Buffer.thy ===== *)
theory Tx_Buffer
  imports Event "HOL-Library.Multiset"
begin

text \<open>
  \<^verbatim>\<open>src/src/buffer/mod.rs\<close>: the buffer that holds the mutations of a transaction until it
  commits. The specification reads the outputs off the history of events; the buffer is shown
  to implement it, to lose and to duplicate nothing, and to leak nothing of a transaction that
  has not committed.
\<close>

section \<open>Model\<close>

type_synonym tx_buffer = "(string, change_event list) hash_map"

definition tx_new :: tx_buffer where
  "tx_new = []"

definition tx_process :: "tx_buffer \<Rightarrow> change_event \<Rightarrow> change_event list \<times> tx_buffer" where
  "tx_process b event =
     (case transaction_id event of
        None \<Rightarrow> ([event], b)
      | Some tx_id \<Rightarrow>
          (case operation event of
             Commit \<Rightarrow>
               (case hm_get b tx_id of
                  Some mutations \<Rightarrow> (mutations, hm_remove tx_id b)
                | None \<Rightarrow> ([], b))
           | Rollback \<Rightarrow> ([], hm_remove tx_id b)
           | _ \<Rightarrow>
               ([], hm_insert tx_id
                      ((case hm_get b tx_id of None \<Rightarrow> [] | Some ms \<Rightarrow> ms) @ [event]) b)))"

definition tx_prune :: "nat \<Rightarrow> tx_buffer \<Rightarrow> tx_buffer" where
  "tx_prune max_size b = (if length b > max_size then [] else b)"

section \<open>Specification\<close>

text \<open>The mutations of a transaction since it last ended, read off the history of events.\<close>

definition ends_tx :: "change_event \<Rightarrow> bool" where
  "ends_tx e \<longleftrightarrow> operation e = Commit \<or> operation e = Rollback"

definition pend :: "string \<Rightarrow> change_event list \<Rightarrow> change_event \<Rightarrow> change_event list" where
  "pend tx acc e =
     (if transaction_id e = Some tx then (if ends_tx e then [] else acc @ [e]) else acc)"

definition pending :: "string \<Rightarrow> change_event list \<Rightarrow> change_event list" where
  "pending tx es = foldl (pend tx) [] es"

definition history_process :: "change_event list \<Rightarrow> change_event \<Rightarrow> change_event list \<times> change_event list" where
  "history_process es e =
     (case transaction_id e of
        None \<Rightarrow> [e]
      | Some tx \<Rightarrow> if operation e = Commit then pending tx es else [], es @ [e])"

text \<open>The events that carry data: everything but the end markers of transactions.\<close>

definition is_mutation :: "change_event \<Rightarrow> bool" where
  "is_mutation e \<longleftrightarrow> transaction_id e = None \<or> \<not> ends_tx e"

definition buffered :: "tx_buffer \<Rightarrow> string \<Rightarrow> change_event list" where
  "buffered b tx = (case hm_get b tx of None \<Rightarrow> [] | Some ms \<Rightarrow> ms)"

definition tx_inv :: "tx_buffer \<Rightarrow> bool" where
  "tx_inv b \<longleftrightarrow> hm_ok b
     \<and> (\<forall>tx. \<forall>e \<in> set (buffered b tx). transaction_id e = Some tx \<and> \<not> ends_tx e)"

section \<open>Lemmas\<close>

lemma pending_Nil [simp]: "pending tx [] = []"
  by (simp add: pending_def)

lemma pending_snoc: "pending tx (es @ [e]) = pend tx (pending tx es) e"
  by (simp add: pending_def)

lemma buffered_Nil [simp]: "buffered [] tx = []"
  by (simp add: buffered_def)

lemma buffered_step:
  "buffered (snd (tx_process b e)) tx = pend tx (buffered b tx) e"
  by (auto simp: tx_process_def buffered_def pend_def ends_tx_def
      split: option.splits operation.splits)

lemma output_step:
  "fst (tx_process b e) =
     (case transaction_id e of None \<Rightarrow> [e]
      | Some tx \<Rightarrow> if operation e = Commit then buffered b tx else [])"
  by (auto simp: tx_process_def buffered_def split: option.splits operation.splits)

lemma tx_process_hm_ok: "hm_ok b \<Longrightarrow> hm_ok (snd (tx_process b e))"
  by (simp add: tx_process_def split: option.splits operation.splits)

lemma tx_process_inv: "tx_inv b \<Longrightarrow> tx_inv (snd (tx_process b e))"
  by (auto simp: tx_inv_def tx_process_hm_ok buffered_step pend_def)

lemma tx_inv_new: "tx_inv tx_new"
  by (simp add: tx_inv_def tx_new_def)

definition tx_rel :: "tx_buffer \<Rightarrow> change_event list \<Rightarrow> bool" where
  "tx_rel b es \<longleftrightarrow> (\<forall>tx. buffered b tx = pending tx es)"

lemma tx_simulation:
  "fst (feed tx_process tx_new es) = fst (feed history_process [] es)
   \<and> tx_rel (snd (feed tx_process tx_new es)) (snd (feed history_process [] es))"
proof (rule feed_simulation [where R = tx_rel])
  show "tx_rel tx_new []" by (simp add: tx_rel_def tx_new_def)
next
  fix b es e
  assume "tx_rel b es"
  then show "fst (tx_process b e) = fst (history_process es e)
      \<and> tx_rel (snd (tx_process b e)) (snd (history_process es e))"
    by (simp add: tx_rel_def output_step history_process_def buffered_step pending_snoc
        split: option.splits)
qed

lemma history_state: "snd (feed history_process h es) = h @ es"
  by (induction es arbitrary: h) (simp_all add: history_process_def Let_def split_def)

lemma buffered_after: "buffered (snd (feed tx_process tx_new es)) tx = pending tx es"
  using tx_simulation [of es] history_state [of "[]" es] by (simp add: tx_rel_def)

text \<open>A transaction that has not ended yet is pending as a whole.\<close>

lemma pending_open:
  assumes "\<And>e. e \<in> set es \<Longrightarrow> transaction_id e = Some tx \<Longrightarrow> \<not> ends_tx e"
  shows "pending tx es = filter (\<lambda>e. transaction_id e = Some tx) es"
  using assms by (induction es rule: rev_induct) (simp_all add: pending_snoc pend_def)

lemma buffered_insert_mset:
  "mset (concat (hm_values (hm_insert tx ms b))) + mset (buffered b tx) =
     mset (concat (hm_values b)) + mset ms"
  by (induction b) (auto simp: hm_insert_def buffered_def split: option.splits)

lemma buffered_remove_mset:
  "hm_ok b \<Longrightarrow>
     mset (concat (hm_values (hm_remove tx b))) + mset (buffered b tx) = mset (concat (hm_values b))"
proof (induction b)
  case (Cons p b)
  have "AList.delete tx b = b" if "tx \<notin> set (map fst b)"
    using that by simp
  with Cons show ?case
    by (cases p) (auto simp: hm_remove_def buffered_def hm_ok_def split: option.splits)
qed (simp add: hm_remove_def)

lemma conservation_step:
  assumes "hm_ok b" and "\<not> (operation e = Rollback \<and> transaction_id e \<noteq> None)"
  shows "mset (fst (tx_process b e)) + mset (concat (hm_values (snd (tx_process b e)))) =
     mset (concat (hm_values b)) + (if is_mutation e then {#e#} else {#})"
proof (cases "transaction_id e")
  case None
  then show ?thesis by (simp add: tx_process_def is_mutation_def)
next
  case (Some tx)
  show ?thesis
  proof (cases "operation e = Commit")
    case True
    with Some show ?thesis
      using buffered_remove_mset [OF assms(1), of tx]
      by (auto simp: tx_process_def buffered_def is_mutation_def ends_tx_def add.commute
          split: option.splits)
  next
    case False
    let ?old = "case hm_get b tx of None \<Rightarrow> [] | Some ms \<Rightarrow> ms"
    have "tx_process b e = ([], hm_insert tx (?old @ [e]) b)" and "is_mutation e"
      using False Some assms(2)
      by (auto simp: tx_process_def is_mutation_def ends_tx_def split: operation.splits)
    moreover have "mset (concat (hm_values (hm_insert tx (?old @ [e]) b)))
        = mset (concat (hm_values b)) + {#e#}"
      using buffered_insert_mset [of tx "?old @ [e]" b] by (simp add: buffered_def)
    ultimately show ?thesis by simp
  qed
qed

lemma conservation_run:
  assumes "hm_ok b" and "\<forall>e \<in> set es. \<not> (operation e = Rollback \<and> transaction_id e \<noteq> None)"
  shows "mset (concat (fst (feed tx_process b es)))
       + mset (concat (hm_values (snd (feed tx_process b es))))
     = mset (concat (hm_values b)) + mset (filter is_mutation es)"
  using assms
proof (induction es arbitrary: b)
  case (Cons e es)
  from Cons tx_process_hm_ok [of b e] have "mset (concat (fst (feed tx_process (snd (tx_process b e)) es)))
       + mset (concat (hm_values (snd (feed tx_process (snd (tx_process b e)) es))))
     = mset (concat (hm_values (snd (tx_process b e)))) + mset (filter is_mutation es)"
    by simp
  with conservation_step [OF Cons.prems(1), of e] Cons.prems(2) show ?case
    by (auto simp: Let_def split_def ac_simps union_lcomm)
qed simp

text \<open>What comes out in a transaction was committed by it.\<close>

lemma output_committed:
  assumes "tx_inv b" and "x \<in> set (fst (tx_process b e))" and "transaction_id x = Some tx"
  shows "operation e = Commit \<and> transaction_id e = Some tx"
  using assms
  by (auto simp: output_step tx_inv_def split: option.splits if_splits)


section \<open>Properties\<close>

text \<open>
  C8: On every stream of events the buffer emits, event by event, exactly what the history
  says: an event outside a transaction at once, on a commit the transaction's mutations since
  it last ended, and nothing otherwise; and what it still holds of a transaction is what the
  history says is pending.
\<close>

theorem tx_refines_history:
  "fst (feed tx_process tx_new es) = fst (feed history_process [] es)
   \<and> (\<forall>tx. buffered (snd (feed tx_process tx_new es)) tx = pending tx es)"
  using tx_simulation [of es] by (simp add: buffered_after)

text \<open>
  Atomic flush. When a transaction that has neither committed nor rolled back before
  commits, its mutations leave the buffer as one batch, complete and in stream order, no
  matter how other transactions were interleaved, and the buffer forgets the transaction.
\<close>

theorem tx_atomic_flush:
  assumes "\<And>e. e \<in> set es \<Longrightarrow> transaction_id e = Some tx \<Longrightarrow> \<not> ends_tx e"
    and "transaction_id c = Some tx" and "operation c = Commit"
  shows "fst (tx_process (snd (feed tx_process tx_new es)) c)
           = filter (\<lambda>e. transaction_id e = Some tx) es
       \<and> buffered (snd (tx_process (snd (feed tx_process tx_new es)) c)) tx = []"
  using assms pending_open [of es tx]
  by (simp add: output_step buffered_after buffered_step pend_def ends_tx_def)

theorem tx_atomic_flush_witness:
  "fst (tx_process (snd (feed tx_process tx_new
      [demo_event ''1'' Create (Some ''tx-1''), demo_event ''2'' Create (Some ''tx-2''),
       demo_event ''3'' Update (Some ''tx-1'')]))
     (demo_event ''4'' Commit (Some ''tx-1'')))
   = [demo_event ''1'' Create (Some ''tx-1''), demo_event ''3'' Update (Some ''tx-1'')]"
proof -
  let ?es = "[demo_event ''1'' Create (Some ''tx-1''), demo_event ''2'' Create (Some ''tx-2''),
       demo_event ''3'' Update (Some ''tx-1'')]"
  let ?c = "demo_event ''4'' Commit (Some ''tx-1'')"
  have open_tx: "\<not> ends_tx e" if "e \<in> set ?es" for e
    using that by (auto simp: demo_event_def ends_tx_def)
  have c: "transaction_id ?c = Some ''tx-1''" "operation ?c = Commit"
    by (simp_all add: demo_event_def)
  from tx_atomic_flush [of ?es "''tx-1''" ?c, OF open_tx c] show ?thesis
    by (simp add: demo_event_def)
qed

text \<open>
  No dirty output. As long as the stream holds no commit of a transaction, no event of
  that transaction is emitted; in particular nothing of a rolled back transaction ever is.
\<close>

theorem tx_no_dirty_output:
  assumes "\<And>e. e \<in> set es \<Longrightarrow> \<not> (operation e = Commit \<and> transaction_id e = Some tx)"
    and "x \<in> set (concat (fst (feed tx_process tx_new es)))"
  shows "transaction_id x \<noteq> Some tx"
proof -
  have "\<forall>x \<in> set (concat (fst (feed tx_process b es))). transaction_id x \<noteq> Some tx"
    if "tx_inv b" and "\<forall>e \<in> set es. \<not> (operation e = Commit \<and> transaction_id e = Some tx)"
    for b es
    using that
  proof (induction es arbitrary: b)
    case (Cons e es)
    from Cons.IH [OF tx_process_inv [OF Cons.prems(1)]] Cons.prems
      output_committed [OF Cons.prems(1), of _ e tx]
    show ?case by (auto simp: Let_def split_def)
  qed simp
  with tx_inv_new assms show ?thesis by blast
qed

theorem tx_no_dirty_output_witness:
  "transaction_id (demo_event ''1'' Create None) \<noteq> Some ''tx-1''
   \<and> demo_event ''1'' Create None \<in> set (concat (fst (feed tx_process tx_new
        [demo_event ''0'' Create (Some ''tx-1''), demo_event ''1'' Create None,
         demo_event ''2'' Rollback (Some ''tx-1'')])))"
proof -
  let ?es = "[demo_event ''0'' Create (Some ''tx-1''), demo_event ''1'' Create None,
         demo_event ''2'' Rollback (Some ''tx-1'')]"
  have nc: "\<not> (operation e = Commit \<and> transaction_id e = Some ''tx-1'')" if "e \<in> set ?es" for e
    using that by (auto simp: demo_event_def)
  have x: "demo_event ''1'' Create None \<in> set (concat (fst (feed tx_process tx_new ?es)))"
    by (simp add: tx_process_def tx_new_def demo_event_def Let_def split_def)
  from tx_no_dirty_output [of ?es "''tx-1''", OF nc x] x show ?thesis by blast
qed



text \<open>
  Pruning bounds the number of buffered transactions, but it does so by dropping every
  transaction there is, also the ones still receiving mutations: after a prune that acts, a
  commit emits nothing.
\<close>

theorem tx_prune_bound:
  "length (tx_prune max_size b) \<le> max_size
   \<and> (max_size < length b \<longrightarrow>
        (\<forall>c. operation c = Commit \<longrightarrow> transaction_id c \<noteq> None \<longrightarrow>
             fst (tx_process (tx_prune max_size b) c) = []))"
  by (auto simp: tx_prune_def tx_process_def)

theorem tx_prune_bound_witness:
  "fst (tx_process (tx_prune 1 [(''tx-1'', [demo_event ''1'' Create (Some ''tx-1'')]),
                                (''tx-2'', [demo_event ''2'' Create (Some ''tx-2'')])])
          (demo_event ''3'' Commit (Some ''tx-1''))) = []"
  using tx_prune_bound [of 1 "[(''tx-1'', [demo_event ''1'' Create (Some ''tx-1'')]),
                               (''tx-2'', [demo_event ''2'' Create (Some ''tx-2'')])]"]
  by (auto simp: demo_event_def)

end
