(* ===== verification/Watermark.thy ===== *)
theory Watermark
  imports Event
begin

text \<open>
  \<^verbatim>\<open>src/src/snapshot/watermark.rs\<close>: the DBLog-style snapshotter. A chunk of rows read from
  a table is reconciled with the log events that arrive between a low and a high watermark.
  The text of a key is what \<open>serde_json\<close> prints for it, the parameter \<open>to_str\<close>.
\<close>

section \<open>Model\<close>

record watermark_snapshotter =
  active_chunk :: "(string, change_event) hash_map"
  in_watermark_window :: bool
  active_tx :: "string option"

definition wm_new :: watermark_snapshotter where
  "wm_new = \<lparr>active_chunk = [], in_watermark_window = False, active_tx = None\<rparr>"

definition load_chunk ::
    "(json \<Rightarrow> string) \<Rightarrow> change_event list \<Rightarrow> watermark_snapshotter \<Rightarrow> watermark_snapshotter" where
  "load_chunk to_str chunk_events w =
     w\<lparr>active_chunk := fold (\<lambda>event m. hm_insert (to_str (ev_key event)) event m) chunk_events []\<rparr>"

definition watermark_table :: string where
  "watermark_table = ''caminus_watermarks''"

text \<open>The reconciliation of one log event with the chunk, inside the window.\<close>

definition reconcile ::
    "(json \<Rightarrow> string) \<Rightarrow> change_event \<Rightarrow> (string, change_event) hash_map \<Rightarrow> (string, change_event) hash_map"
where
  "reconcile to_str event chunk =
     (let key_str = to_str (ev_key event) in
      if hm_contains_key chunk key_str then
        (case operation event of
           Delete \<Rightarrow> hm_remove key_str chunk
         | Update \<Rightarrow>
             (case hm_get chunk key_str of
                None \<Rightarrow> chunk
              | Some chunk_event \<Rightarrow>
                  hm_insert key_str
                    (chunk_event\<lparr>after := after event, timestamp := timestamp event\<rparr>) chunk)
         | Create \<Rightarrow>
             (case hm_get chunk key_str of
                None \<Rightarrow> chunk
              | Some chunk_event \<Rightarrow>
                  hm_insert key_str
                    (chunk_event\<lparr>after := after event, timestamp := timestamp event\<rparr>) chunk)
         | _ \<Rightarrow> chunk)
      else chunk)"

definition process_replication_event ::
    "(json \<Rightarrow> string) \<Rightarrow> watermark_snapshotter \<Rightarrow> change_event
       \<Rightarrow> change_event option \<times> watermark_snapshotter" where
  "process_replication_event to_str w event =
     (if source_table_or_collection event = watermark_table then
        (None,
         if operation event = Create \<or> operation event = Commit then
           (if \<not> in_watermark_window w
            then w\<lparr>in_watermark_window := True, active_tx := transaction_id event\<rparr>
            else w\<lparr>in_watermark_window := False, active_tx := None\<rparr>)
         else w)
      else
        (Some event,
         if in_watermark_window w
         then w\<lparr>active_chunk := reconcile to_str event (active_chunk w)\<rparr>
         else w))"

definition flush_chunk :: "watermark_snapshotter \<Rightarrow> change_event list \<times> watermark_snapshotter" where
  "flush_chunk w = (hm_values (active_chunk w), w\<lparr>active_chunk := []\<rparr>)"

definition is_in_window :: "watermark_snapshotter \<Rightarrow> bool" where
  "is_in_window w = in_watermark_window w"

section \<open>Specification\<close>

text \<open>
  The row a chunk holds for a key after a log: a row that is present is deleted by a delete
  and takes the payload and time of a create or an update; a row that is absent stays absent.
\<close>

definition row_step :: "change_event option \<Rightarrow> change_event \<Rightarrow> change_event option" where
  "row_step r e =
     (case r of
        None \<Rightarrow> None
      | Some row \<Rightarrow>
          if operation e = Delete then None
          else if operation e = Create \<or> operation e = Update
            then Some (row\<lparr>after := after e, timestamp := timestamp e\<rparr>)
          else Some row)"

definition row_after :: "(json \<Rightarrow> string) \<Rightarrow> string \<Rightarrow> change_event option \<Rightarrow> change_event list \<Rightarrow> change_event option" where
  "row_after to_str k r es = foldl row_step r (filter (\<lambda>e. to_str (ev_key e) = k) es)"

definition is_marker :: "change_event \<Rightarrow> bool" where
  "is_marker e \<longleftrightarrow> source_table_or_collection e = watermark_table
     \<and> (operation e = Create \<or> operation e = Commit)"

definition chunk_keyed :: "(json \<Rightarrow> string) \<Rightarrow> (string, change_event) hash_map \<Rightarrow> bool" where
  "chunk_keyed to_str m \<longleftrightarrow>
     hm_ok m \<and> (\<forall>k e. hm_get m k = Some e \<longrightarrow> to_str (ev_key e) = k)"

definition wm_inv :: "(json \<Rightarrow> string) \<Rightarrow> watermark_snapshotter \<Rightarrow> bool" where
  "wm_inv to_str w \<longleftrightarrow> chunk_keyed to_str (active_chunk w)
     \<and> (\<not> in_watermark_window w \<longrightarrow> active_tx w = None)"

section \<open>Lemmas\<close>

lemma reconcile_get:
  "hm_get (reconcile to_str e chunk) k =
     (if to_str (ev_key e) = k then row_step (hm_get chunk k) e else hm_get chunk k)"
  by (auto simp: reconcile_def row_step_def hm_contains_key_def Let_def
      split: operation.splits option.splits)

lemma reconcile_ok: "hm_ok chunk \<Longrightarrow> hm_ok (reconcile to_str e chunk)"
  by (auto simp: reconcile_def Let_def split: operation.splits option.splits)

lemma load_chunk_get:
  "hm_get (active_chunk (load_chunk to_str es w)) =
     map_of (rev (map (\<lambda>e. (to_str (ev_key e), e)) es))"
  by (simp add: load_chunk_def hm.get_fold_put)

lemma load_chunk_ok: "hm_ok (active_chunk (load_chunk to_str es w))"
  by (simp add: load_chunk_def hm.ok_fold_put)

lemma row_step_key: "row_step r e = Some row \<Longrightarrow> \<exists>row'. r = Some row' \<and> ev_key row' = ev_key row"
  by (auto simp: row_step_def split: option.splits if_splits)

lemma reconcile_keyed: "chunk_keyed to_str m \<Longrightarrow> chunk_keyed to_str (reconcile to_str e m)"
  unfolding chunk_keyed_def
  by (metis reconcile_get reconcile_ok row_step_key)

lemma process_inv: "wm_inv to_str w \<Longrightarrow> wm_inv to_str (snd (process_replication_event to_str w e))"
  by (simp add: wm_inv_def process_replication_event_def reconcile_keyed)

lemma load_chunk_keyed: "chunk_keyed to_str (active_chunk (load_chunk to_str es w))"
  using load_chunk_ok [of to_str es w]
  by (auto simp: chunk_keyed_def load_chunk_get dest!: map_of_SomeD)

lemma load_chunk_inv: "wm_inv to_str w \<Longrightarrow> wm_inv to_str (load_chunk to_str es w)"
  using load_chunk_keyed [of to_str es w] by (simp add: wm_inv_def) (simp add: load_chunk_def)

lemma flush_inv: "wm_inv to_str w \<Longrightarrow> wm_inv to_str (snd (flush_chunk w))"
  by (simp add: wm_inv_def chunk_keyed_def flush_chunk_def)

lemma process_marker:
  "is_marker e \<Longrightarrow>
     fst (process_replication_event to_str w e) = None
     \<and> in_watermark_window (snd (process_replication_event to_str w e)) = (\<not> in_watermark_window w)
     \<and> active_chunk (snd (process_replication_event to_str w e)) = active_chunk w"
  by (auto simp: process_replication_event_def is_marker_def)

lemma process_in_window:
  assumes "source_table_or_collection e \<noteq> watermark_table" and "in_watermark_window w"
  shows "process_replication_event to_str w e =
     (Some e, w\<lparr>active_chunk := reconcile to_str e (active_chunk w)\<rparr>)"
  using assms by (simp add: process_replication_event_def)

lemma process_out_of_window:
  assumes "source_table_or_collection e \<noteq> watermark_table" and "\<not> in_watermark_window w"
  shows "process_replication_event to_str w e = (Some e, w)"
  using assms by (simp add: process_replication_event_def)

text \<open>A run of ordinary events inside the window: all are forwarded, the chunk is reconciled.\<close>

lemma run_in_window:
  assumes "\<And>e. e \<in> set es \<Longrightarrow> source_table_or_collection e \<noteq> watermark_table"
    and "in_watermark_window w"
  shows "fst (feed (process_replication_event to_str) w es) = map Some es
       \<and> in_watermark_window (snd (feed (process_replication_event to_str) w es))
       \<and> hm_get (active_chunk (snd (feed (process_replication_event to_str) w es))) k
           = row_after to_str k (hm_get (active_chunk w) k) es"
  using assms
proof (induction es arbitrary: w)
  case (Cons e es)
  let ?w = "w\<lparr>active_chunk := reconcile to_str e (active_chunk w)\<rparr>"
  have "process_replication_event to_str w e = (Some e, ?w)"
    using Cons.prems by (simp add: process_in_window)
  moreover have "row_after to_str k (hm_get (active_chunk w) k) (e # es)
      = row_after to_str k (hm_get (active_chunk ?w) k) es"
    by (simp add: row_after_def reconcile_get)
  ultimately show ?case
    using Cons.IH [of ?w] Cons.prems by (simp add: Let_def split_def)
qed (simp add: row_after_def)

lemma run_out_of_window:
  assumes "\<And>e. e \<in> set es \<Longrightarrow> source_table_or_collection e \<noteq> watermark_table"
    and "\<not> in_watermark_window w"
  shows "feed (process_replication_event to_str) w es = (map Some es, w)"
  using assms by (induction es) (simp_all add: process_out_of_window)

lemma feed_snoc:
  "feed op s (xs @ [x]) =
     (fst (feed op s xs) @ [fst (op (snd (feed op s xs)) x)], snd (op (snd (feed op s xs)) x))"
  by (simp add: feed_append Let_def split_def)

lemma row_after_None: "row_after to_str k None es = None"
proof -
  have "foldl row_step None es = None" for es
    by (induction es) (simp_all add: row_step_def)
  then show ?thesis by (simp add: row_after_def)
qed


text \<open>The last write in the window decides the payload of a row that survives it.\<close>

lemma row_after_last_write:
  assumes "r \<noteq> None" and "to_str (ev_key u) = k" and "operation u = Create \<or> operation u = Update"
    and "\<And>e. e \<in> set es \<Longrightarrow> to_str (ev_key e) = k \<Longrightarrow> operation e \<noteq> Delete"
    and "\<And>e. e \<in> set es' \<Longrightarrow> to_str (ev_key e) \<noteq> k"
  shows "\<exists>row. row_after to_str k r (es @ u # es') = Some row \<and> after row = after u
           \<and> timestamp row = timestamp u"
proof -
  have keep: "\<exists>row. foldl row_step r xs = Some row"
    if "\<And>e. e \<in> set xs \<Longrightarrow> operation e \<noteq> Delete" and "r \<noteq> None" for xs r
    using that by (induction xs arbitrary: r) (auto simp: row_step_def split: option.splits)
  obtain row where "foldl row_step r (filter (\<lambda>e. to_str (ev_key e) = k) es) = Some row"
    using keep [of "filter (\<lambda>e. to_str (ev_key e) = k) es" r] assms(1,4) by auto
  moreover have "filter (\<lambda>e. to_str (ev_key e) = k) es' = []"
    using assms(5) by (simp add: filter_empty_conv)
  moreover have "operation u \<noteq> Delete" using assms(3) by auto
  ultimately show ?thesis
    using assms(2,3) by (simp add: row_after_def row_step_def)
qed

section \<open>Properties\<close>



text \<open>
  The chunk is keyed by the text of the row key alone. A log event of a different table
  with the same key text therefore overwrites the row of the snapshotted table: in the window,
  a create or update of any table replaces the payload of the loaded row.
\<close>

theorem watermark_cross_table_overwrite:
  assumes "in_watermark_window w" and "source_table_or_collection e \<noteq> watermark_table"
    and "operation e = Create \<or> operation e = Update"
    and "hm_get (active_chunk w) (to_str (ev_key e)) = Some row"
  shows "hm_get (active_chunk (snd (process_replication_event to_str w e))) (to_str (ev_key e))
           = Some (row\<lparr>after := after e, timestamp := timestamp e\<rparr>)"
  using assms by (auto simp: process_in_window reconcile_get row_step_def)

theorem watermark_cross_table_overwrite_witness:
  "hm_get (active_chunk (snd (process_replication_event demo_to_str
      \<lparr>active_chunk = [(''1'', demo_row ''users'' Snapshot ''1'' 10)], in_watermark_window = True,
       active_tx = None\<rparr>
      (demo_row ''orders'' Create ''1'' 77)))) ''1''
   = Some ((demo_row ''users'' Snapshot ''1'' 10)\<lparr>after := Some (Number (PosInt 77))\<rparr>)"
  using watermark_cross_table_overwrite [of
      "\<lparr>active_chunk = [(''1'', demo_row ''users'' Snapshot ''1'' 10)], in_watermark_window = True,
        active_tx = None\<rparr>" "demo_row ''orders'' Create ''1'' 77" demo_to_str
      "demo_row ''users'' Snapshot ''1'' 10"]
  by (simp add: demo_row_simps watermark_table_def)

end
