(* ===== verification/Schema_Registry.thy ===== *)
theory Schema_Registry
  imports State_Store
begin

text \<open>
  \<^verbatim>\<open>src/src/storage/schema.rs\<close>: registration of schemas under a compatibility mode and
  validation of event payloads. The parameter \<open>dbg\<close> is the \<open>Debug\<close> format of a JSON
  value, which appears in error messages only.
\<close>

section \<open>Model\<close>

datatype schema_compatibility = NoCompat | Backward | Forward | Full

datatype schema_error = Storage storage_error | Incompatibility string | Validation string

definition schema_fields :: "json \<Rightarrow> (string \<times> json) list option" where
  "schema_fields schema = Option.bind (json_get schema ''fields'') as_object"

definition quoted :: "string \<Rightarrow> string" where
  "quoted s = CHR 0x27 # s @ [CHR 0x27]"

text \<open>Step 1 of the check: the type of a field both schemas have may not change.\<close>

definition check_types ::
    "(json \<Rightarrow> string) \<Rightarrow> (string \<times> json) list \<Rightarrow> (string \<times> json) list \<Rightarrow> (schema_error, unit) result" where
  "check_types dbg old_fields new_fields =
     for_each old_fields (\<lambda>(field_name, old_type_val).
       case map_of new_fields field_name of
         None \<Rightarrow> Ok ()
       | Some new_type_val \<Rightarrow>
           if old_type_val \<noteq> new_type_val
           then Err (Incompatibility (''Field '' @ quoted field_name @ '' type changed from ''
                  @ dbg old_type_val @ '' to '' @ dbg new_type_val))
           else Ok ())"

definition check_present ::
    "string \<Rightarrow> string \<Rightarrow> (string \<times> json) list \<Rightarrow> (string \<times> json) list \<Rightarrow> (schema_error, unit) result" where
  "check_present pre post flds others =
     for_each (map fst flds) (\<lambda>field_name.
       if map_of others field_name = None
       then Err (Incompatibility (pre @ quoted field_name @ post))
       else Ok ())"

definition check_compatibility ::
    "(json \<Rightarrow> string) \<Rightarrow> json \<Rightarrow> json \<Rightarrow> schema_compatibility \<Rightarrow> (schema_error, unit) result" where
  "check_compatibility dbg old_schema new_schema mode =
     (if mode = NoCompat then Ok ()
      else try_map id (ok_or (schema_fields old_schema)
             (Incompatibility (''Old schema missing '' @ quoted ''fields'' @ '' object''))) (\<lambda>old_fields.
        try_map id (ok_or (schema_fields new_schema)
             (Incompatibility (''New schema missing '' @ quoted ''fields'' @ '' object''))) (\<lambda>new_fields.
        try_map id (check_types dbg old_fields new_fields) (\<lambda>_.
          (case mode of
             Backward \<Rightarrow>
               check_present ''Backward compatibility violation: Field '' '' was deleted''
                 old_fields new_fields
           | Forward \<Rightarrow>
               check_present ''Forward compatibility violation: New field '' '' added''
                 new_fields old_fields
           | Full \<Rightarrow>
               try_map id (check_present ''Full compatibility violation: Field '' '' was deleted''
                 old_fields new_fields) (\<lambda>_.
               check_present ''Full compatibility violation: Field '' '' was added''
                 new_fields old_fields)
           | NoCompat \<Rightarrow> Ok ())))))"

definition register_schema ::
    "'db rocksdb \<Rightarrow> json_codec \<Rightarrow> (json \<Rightarrow> string) \<Rightarrow> 'db \<Rightarrow> string \<Rightarrow> json \<Rightarrow> schema_compatibility
       \<Rightarrow> (schema_error, unit) result \<times> 'db" where
  "register_schema K J dbg d source_id new_schema mode =
     (case get_schema K J d source_id of
        Inl e \<Rightarrow> (Err (Storage e), d)
      | Inr old \<Rightarrow>
          (case (case old of
                   Some old_schema \<Rightarrow> check_compatibility dbg old_schema new_schema mode
                 | None \<Rightarrow> Ok ()) of
             Inl e \<Rightarrow> (Err e, d)
           | Inr _ \<Rightarrow>
               (case save_schema K J d source_id new_schema of
                  (r, d') \<Rightarrow> (try_map Storage r Ok, d'))))"

text \<open>The check of one field of a payload against its declared type.\<close>

definition check_field_type ::
    "(json \<Rightarrow> string) \<Rightarrow> string \<Rightarrow> string \<Rightarrow> json \<Rightarrow> (schema_error, unit) result" where
  "check_field_type dbg field_name expected_type val =
     (if expected_type = ''integer'' then
        (if \<not> is_number val \<or> fract (the (as_f64 val)) \<noteq> 0
         then Err (Validation (''Field '' @ quoted field_name @ '' expected integer, found '' @ dbg val))
         else Ok ())
      else if expected_type = ''string'' then
        (if \<not> is_string val
         then Err (Validation (''Field '' @ quoted field_name @ '' expected string, found '' @ dbg val))
         else Ok ())
      else if expected_type = ''boolean'' then
        (if \<not> is_boolean val
         then Err (Validation (''Field '' @ quoted field_name @ '' expected boolean, found '' @ dbg val))
         else Ok ())
      else if expected_type = ''float'' then
        (if \<not> is_number val
         then Err (Validation (''Field '' @ quoted field_name @ '' expected float, found '' @ dbg val))
         else Ok ())
      else Err (Validation (''Unsupported schema type: '' @ expected_type)))"

definition validate_field ::
    "(json \<Rightarrow> string) \<Rightarrow> (string \<times> json) list \<Rightarrow> string \<times> json \<Rightarrow> (schema_error, unit) result" where
  "validate_field dbg payload_obj = (\<lambda>(field_name, type_val).
     try_map id (ok_or (as_str type_val)
         (Validation (''Schema type for '' @ quoted field_name @ '' is not a string''))) (\<lambda>expected_type.
     try_map id (ok_or (map_of payload_obj field_name)
         (Validation (''Missing required field '' @ quoted field_name))) (\<lambda>val.
     check_field_type dbg field_name expected_type val)))"

text \<open>The part of \<open>validate_event\<close> after the schema is read.\<close>

definition validate_against ::
    "(json \<Rightarrow> string) \<Rightarrow> json \<Rightarrow> change_event \<Rightarrow> (schema_error, unit) result" where
  "validate_against dbg schema event =
     try_map id (ok_or (schema_fields schema)
       (Validation (''Registered schema missing '' @ quoted ''fields'' @ '' object''))) (\<lambda>flds.
     if operation event \<noteq> Create \<and> operation event \<noteq> Update then Ok ()
     else (case after event of
             Some payload \<Rightarrow>
               try_map id (ok_or (as_object payload)
                 (Validation ''Event payload is not a JSON object'')) (\<lambda>payload_obj.
               for_each flds (validate_field dbg payload_obj))
           | None \<Rightarrow> Err (Validation (''Event payload '' @ quoted ''after'' @ '' is missing''))))"

definition validate_event ::
    "'db rocksdb \<Rightarrow> json_codec \<Rightarrow> (json \<Rightarrow> string) \<Rightarrow> 'db \<Rightarrow> string \<Rightarrow> change_event
       \<Rightarrow> (schema_error, unit) result" where
  "validate_event K J dbg d source_id event =
     try_map Storage (get_schema K J d source_id) (\<lambda>s.
       case s of
         None \<Rightarrow> Ok ()
       | Some schema \<Rightarrow> validate_against dbg schema event)"

section \<open>Specification\<close>

fun compat_spec :: "schema_compatibility \<Rightarrow> (string \<rightharpoonup> json) \<Rightarrow> (string \<rightharpoonup> json) \<Rightarrow> bool" where
  "compat_spec NoCompat old new = True"
| "compat_spec Backward old new = (old \<subseteq>\<^sub>m new)"
| "compat_spec Forward old new = (new \<subseteq>\<^sub>m old)"
| "compat_spec Full old new = (old = new)"

text \<open>A value has a declared type.\<close>

definition has_type :: "string \<Rightarrow> json \<Rightarrow> bool" where
  "has_type ty val \<longleftrightarrow>
     (ty = ''integer'' \<and> (\<exists>x. as_f64 val = Some x \<and> x \<in> \<int>))
     \<or> (ty = ''string'' \<and> is_string val)
     \<or> (ty = ''boolean'' \<and> is_boolean val)
     \<or> (ty = ''float'' \<and> is_number val)"

definition payload_conforms :: "(string \<rightharpoonup> json) \<Rightarrow> change_event \<Rightarrow> bool" where
  "payload_conforms flds event \<longleftrightarrow>
     (operation event = Create \<or> operation event = Update \<longrightarrow>
        (\<exists>obj. after event = Some (Object obj)
           \<and> (\<forall>f ty_val. flds f = Some ty_val \<longrightarrow>
                (\<exists>ty val. ty_val = String ty \<and> map_of obj f = Some val \<and> has_type ty val))))"

definition schema_ok :: "json \<Rightarrow> bool" where
  "schema_ok schema \<longleftrightarrow>
     (case schema_fields schema of None \<Rightarrow> False | Some fs \<Rightarrow> distinct (map fst fs))"

definition fields_map :: "json \<Rightarrow> (string \<rightharpoonup> json)" where
  "fields_map schema = (case schema_fields schema of None \<Rightarrow> Map.empty | Some fs \<Rightarrow> map_of fs)"

section \<open>Lemmas\<close>

lemma schema_okE:
  assumes "schema_ok s"
  obtains fs where "schema_fields s = Some fs" "distinct (map fst fs)" "fields_map s = map_of fs"
  using assms by (auto simp: schema_ok_def fields_map_def split: option.splits)

lemma check_types_iff:
  assumes "distinct (map fst old)"
  shows "check_types dbg old new = Ok () \<longleftrightarrow>
    (\<forall>k a b. map_of old k = Some a \<longrightarrow> map_of new k = Some b \<longrightarrow> a = b)"
  using assms
  by (simp add: check_types_def for_each_Ok_iff ball_entries split: option.split) blast

lemma check_present_iff:
  "check_present p s fs gs = Ok () \<longleftrightarrow> dom (map_of fs) \<subseteq> dom (map_of gs)"
proof -
  have "check_present p s fs gs = Ok () \<longleftrightarrow> (\<forall>k \<in> set (map fst fs). map_of gs k \<noteq> None)"
    by (simp add: check_present_def for_each_Ok_iff)
  also have "\<dots> \<longleftrightarrow> dom (map_of fs) \<subseteq> dom (map_of gs)"
    by (force simp: dom_map_of_conv_image_fst [of fs] domIff)
  finally show ?thesis .
qed

lemma try_unit_Ok: "try_map id (r :: ('e, unit) result) k = Ok y \<longleftrightarrow> r = Ok () \<and> k () = Ok y"
  by (cases r) simp_all

lemma map_le_iff_types: "f \<subseteq>\<^sub>m g \<longleftrightarrow> dom f \<subseteq> dom g \<and> (\<forall>k a b. f k = Some a \<longrightarrow> g k = Some b \<longrightarrow> a = b)"
  by (auto simp: map_le_def dom_def)

lemma integer_check:
  "is_number val \<and> fract (the (as_f64 val)) = 0 \<longleftrightarrow> (\<exists>x. as_f64 val = Some x \<and> x \<in> \<int>)"
  by (cases "as_f64 val") (simp_all add: is_number_as_f64 fract_eq_0_iff)

lemma check_field_type_iff: "check_field_type dbg f ty val = Ok () \<longleftrightarrow> has_type ty val"
  unfolding has_type_def integer_check [symmetric] check_field_type_def by simp

lemma validate_field_iff:
  "validate_field dbg obj (f, ty_val) = Ok () \<longleftrightarrow>
     (\<exists>ty val. ty_val = String ty \<and> map_of obj f = Some val \<and> has_type ty val)"
  by (cases "as_str ty_val"; cases "map_of obj f")
    (auto simp: validate_field_def check_field_type_iff as_str_Some_iff)

lemma validate_against_iff:
  assumes "schema_ok schema"
  shows "validate_against dbg schema event = Ok () \<longleftrightarrow> payload_conforms (fields_map schema) event"
proof -
  obtain fs where fs: "schema_fields schema = Some fs" "distinct (map fst fs)"
    "fields_map schema = map_of fs"
    using assms by (rule schema_okE)
  have loop: "for_each fs (validate_field dbg obj) = Ok () \<longleftrightarrow>
      (\<forall>f tv. map_of fs f = Some tv \<longrightarrow>
         (\<exists>ty val. tv = String ty \<and> map_of obj f = Some val \<and> has_type ty val))" for obj
    using fs(2) by (auto simp: for_each_Ok_iff validate_field_iff)
  show ?thesis
  proof (cases "after event")
    case None
    then show ?thesis by (simp add: validate_against_def payload_conforms_def fs)
  next
    case (Some payload)
    then show ?thesis
      by (cases payload) (simp_all add: validate_against_def payload_conforms_def fs loop)
  qed
qed

lemma payload_conforms_mono:
  "f \<subseteq>\<^sub>m g \<Longrightarrow> payload_conforms g e \<Longrightarrow> payload_conforms f e"
  unfolding payload_conforms_def using map_le_Some [of f g] by fast


lemma check_compatibility_iff:
  assumes "schema_ok old" and "schema_ok new"
  shows "check_compatibility dbg old new mode = Ok () \<longleftrightarrow>
           compat_spec mode (fields_map old) (fields_map new)"
proof -
  obtain fs where fs: "schema_fields old = Some fs" "distinct (map fst fs)" "fields_map old = map_of fs"
    using assms(1) by (rule schema_okE)
  obtain gs where gs: "schema_fields new = Some gs" "distinct (map fst gs)" "fields_map new = map_of gs"
    using assms(2) by (rule schema_okE)
  note laws = check_types_iff [OF fs(2)] check_present_iff map_le_iff_types try_unit_Ok
  show ?thesis
  proof (cases mode)
    case Full
    have "map_of fs = map_of gs \<longleftrightarrow> map_of fs \<subseteq>\<^sub>m map_of gs \<and> map_of gs \<subseteq>\<^sub>m map_of fs"
      by (auto intro: map_le_antisym)
    then show ?thesis
      using Full by (auto simp: check_compatibility_def fs gs laws)
  next
    case Forward
    then show ?thesis by (simp add: check_compatibility_def fs gs laws) blast
  qed (auto simp: check_compatibility_def fs gs laws)
qed

lemma compat_spec_refl: "compat_spec mode f f"
  by (cases mode) simp_all

lemma compat_spec_trans: "compat_spec mode f g \<Longrightarrow> compat_spec mode g h \<Longrightarrow> compat_spec mode f h"
  by (cases mode) (auto intro: map_le_trans)

section \<open>Interface\<close>

text \<open>What an evolution of schemas relies on: compatibility is reflexive and transitive, so
  a consumer may skip versions.\<close>

locale evolution =
  fixes compatible :: "'s \<Rightarrow> 's \<Rightarrow> bool"
    and legal :: "'s \<Rightarrow> bool"
  assumes compatible_refl: "legal s \<Longrightarrow> compatible s s"
    and compatible_trans: "legal r \<Longrightarrow> legal s \<Longrightarrow> legal t \<Longrightarrow>
      compatible r s \<Longrightarrow> compatible s t \<Longrightarrow> compatible r t"
begin

lemma chain_compatible:
  "legal s \<Longrightarrow> \<forall>t \<in> set ts. legal t \<Longrightarrow> successively compatible (s # ts) \<Longrightarrow>
     compatible s (last (s # ts))"
proof (induction ts rule: rev_induct)
  case (snoc t ts)
  note split = successively_append_iff [of compatible "s # ts" "[t]"]
  have "compatible s (last (s # ts))"
    using snoc split by simp
  moreover have "compatible (last (s # ts)) t"
    using snoc.prems split by simp
  moreover have "legal (last (s # ts))"
    using snoc.prems by (cases ts rule: rev_cases) auto
  ultimately have "compatible s t"
    using snoc.prems by (intro compatible_trans [of s "last (s # ts)" t]) simp_all
  then show ?case by simp
qed (simp add: compatible_refl)

end

interpretation schema: evolution
    "\<lambda>old new. check_compatibility dbg old new mode = Ok ()" schema_ok for dbg mode
  by unfold_locales
    (auto simp: check_compatibility_iff compat_spec_refl intro: compat_spec_trans)


section \<open>Properties\<close>

text \<open>
  C17: The compatibility check decides inclusion of the field maps. For two schemas with a
  \<open>fields\<close> object, the check accepts in mode \<open>Backward\<close> exactly when every old field
  is kept with its type, in mode \<open>Forward\<close> exactly when every new field was there with its
  type, in mode \<open>Full\<close> exactly when the fields are the same, and in mode \<open>None\<close>
  always; no other outcome is possible.
\<close>

theorem check_compatibility_decides:
  assumes "schema_ok old" and "schema_ok new"
  shows "check_compatibility dbg old new mode = Ok () \<longleftrightarrow>
           compat_spec mode (fields_map old) (fields_map new)"
  using assms by (rule check_compatibility_iff)

definition demo_schema :: "string list \<Rightarrow> json" where
  "demo_schema fs = Object [(''fields'', Object (map (\<lambda>f. (f, String ''string'')) fs))]"

theorem check_compatibility_decides_witness:
  "check_compatibility demo_to_str (demo_schema [''id'']) (demo_schema [''email'', ''id'']) Backward = Ok ()
   \<and> check_compatibility demo_to_str (demo_schema [''id'']) (demo_schema [''email'', ''id'']) Full \<noteq> Ok ()"
proof -
  have ok: "schema_ok (demo_schema [''id''])" "schema_ok (demo_schema [''email'', ''id''])"
    by (simp_all add: schema_ok_def schema_fields_def demo_schema_def)
  show ?thesis
    using check_compatibility_decides [OF ok, of demo_to_str Backward]
      check_compatibility_decides [OF ok, of demo_to_str Full]
    by (auto simp: fields_map_def schema_fields_def demo_schema_def map_le_def fun_eq_iff)
qed

text \<open>
  Versions may be skipped. If each schema of a sequence was accepted against the one
  before it, in one mode, then the last one is accepted against the first.
\<close>

theorem evolution_chain:
  assumes "schema_ok s" and "\<forall>t \<in> set ts. schema_ok t"
    and "successively (\<lambda>old new. check_compatibility dbg old new mode = Ok ()) (s # ts)"
  shows "check_compatibility dbg s (last (s # ts)) mode = Ok ()"
  using assms by (rule schema.chain_compatible)

theorem evolution_chain_witness:
  "check_compatibility demo_to_str (demo_schema [''id''])
     (last (demo_schema [''id''] #
        [demo_schema [''email'', ''id''], demo_schema [''email'', ''id'', ''name'']])) Backward = Ok ()"
proof -
  let ?a = "demo_schema [''id'']" and ?b = "demo_schema [''email'', ''id'']"
    and ?c = "demo_schema [''email'', ''id'', ''name'']"
  have ok: "schema_ok ?a" "\<forall>t \<in> set [?b, ?c]. schema_ok t"
    by (simp_all add: schema_ok_def schema_fields_def demo_schema_def)
  have steps: "successively (\<lambda>old new. check_compatibility demo_to_str old new Backward = Ok ())
      (?a # [?b, ?c])"
    by (simp add: check_compatibility_def schema_fields_def demo_schema_def check_types_def
        check_present_def)
  show ?thesis by (rule evolution_chain [OF ok steps])
qed


definition demo_codec :: "json \<Rightarrow> json_codec" where
  "demo_codec v = \<lparr>to_vec = (\<lambda>w. if w = v then Ok [1] else Err ''unknown value''),
     from_slice = (\<lambda>b. if b = [1] then Ok v else Err ''malformed'')\<rparr>"




text \<open>
  A registration that fails leaves the database as it was unless the failing call is the
  write itself; a registration that succeeds makes the new schema the registered one, and it
  was compatible with the one it replaced.
\<close>

theorem register_schema_effect:
  assumes "rocksdb_laws K" and "codec_roundtrips J new_schema"
    and "register_schema K J dbg d source_id new_schema mode = (r, d')"
  shows "(r = Ok () \<longrightarrow>
            get_schema K J d' source_id = Ok (Some new_schema)
            \<and> (\<forall>old. get_schema K J d source_id = Ok (Some old) \<longrightarrow>
                 check_compatibility dbg old new_schema mode = Ok ())
            \<and> (\<forall>t. t \<noteq> source_id \<longrightarrow> get_schema K J d' t = get_schema K J d t)
            \<and> (\<forall>u. get_offset K d' u = get_offset K d u))
       \<and> (\<forall>msg. r = Err (Incompatibility msg) \<longrightarrow> d' = d)"
proof (cases "get_schema K J d source_id")
  case (Inl e)
  then show ?thesis using assms(3) by (auto simp: register_schema_def)
next
  case (Inr old)
  let ?c = "case old of Some o' \<Rightarrow> check_compatibility dbg o' new_schema mode | None \<Rightarrow> Ok ()"
  show ?thesis
  proof (cases ?c)
    case (Inl e)
    then show ?thesis using assms(3) Inr by (auto simp: register_schema_def)
  next
    case ok: (Inr u)
    obtain q d1 where save: "save_schema K J d source_id new_schema = (q, d1)" by fastforce
    with assms(3) Inr ok have r: "r = try_map Storage q Ok" "d' = d1"
      by (auto simp: register_schema_def)
    show ?thesis
    proof (cases q)
      case (Inl e)
      then show ?thesis using r by simp
    next
      case q: (Inr v)
      then have "save_schema K J d source_id new_schema = (Ok (), d')" using save r by simp
      note save_schema_get [OF assms(1) this assms(2)] save_schema_frame [OF assms(1) this]
      then show ?thesis using r q Inr ok by auto
    qed
  qed
qed

theorem register_schema_effect_witness:
  "get_schema mem_rocksdb (demo_codec (demo_schema [''id'']))
     (snd (register_schema mem_rocksdb (demo_codec (demo_schema [''id''])) demo_to_str Map.empty
        ''users'' (demo_schema [''id'']) Backward)) ''users''
   = Ok (Some (demo_schema [''id'']))"
proof -
  let ?s = "demo_schema [''id'']"
  let ?r = "register_schema mem_rocksdb (demo_codec ?s) demo_to_str Map.empty ''users'' ?s Backward"
  have rt: "codec_roundtrips (demo_codec ?s) ?s"
    by (simp add: codec_roundtrips_def demo_codec_def)
  have r: "?r = (Ok (), snd ?r)"
    by (simp add: register_schema_def get_schema_def save_schema_def mem_rocksdb_def demo_codec_def)
  from register_schema_effect [OF mem_rocksdb_laws rt r] show ?thesis by simp
qed

text \<open>
  A field added under \<open>Backward\<close> makes old data invalid: the new schema is accepted,
  yet an event that the old schema validates is rejected by it.
\<close>

theorem backward_rejects_old_data:
  "check_compatibility demo_to_str (demo_schema [''id'']) (demo_schema [''email'', ''id'']) Backward = Ok ()
   \<and> validate_against demo_to_str (demo_schema [''id''])
        ((demo_event ''1'' Create None)\<lparr>after := Some (Object [(''id'', String ''i'')])\<rparr>) = Ok ()
   \<and> validate_against demo_to_str (demo_schema [''email'', ''id''])
        ((demo_event ''1'' Create None)\<lparr>after := Some (Object [(''id'', String ''i'')])\<rparr>)
        = Err (Validation (''Missing required field '' @ quoted ''email''))"
  by (simp add: check_compatibility_def schema_fields_def demo_schema_def check_types_def
      check_present_def validate_against_def validate_field_def check_field_type_def demo_event_def)

end
