(* ===== verification/Router.thy ===== *)
theory Router
  imports Rate_Limiter
begin

text \<open>
  \<^verbatim>\<open>src/src/router/mod.rs\<close>: the partition router and the tenant router on top of the
  quotas. The hash of a string under \<open>DefaultHasher::new()\<close> is the parameter \<open>hash\<close>:
  the standard library fixes that it is a function of the string and nothing else about it.
\<close>

section \<open>Model\<close>

datatype partition_strategy = KeyHash | TenantPrefix | RoundRobin

record partition_router =
  num_partitions :: u32
  strategy :: partition_strategy

definition partition_router_new :: "u32 \<Rightarrow> partition_strategy \<Rightarrow> partition_router" where
  "partition_router_new n s = \<lparr>num_partitions = n, strategy = s\<rparr>"

definition tenant_of :: "change_event \<Rightarrow> string" where
  "tenant_of event =
     (case Option.bind (Option.bind (after event) (\<lambda>a. json_get a ''tenant_id'')) as_str of
        Some t \<Rightarrow> t
      | None \<Rightarrow> source_database event)"

definition resolve_partition ::
    "(string \<Rightarrow> u64) \<Rightarrow> (json \<Rightarrow> string) \<Rightarrow> partition_router \<Rightarrow> change_event \<Rightarrow> u32" where
  "resolve_partition hash to_str r event =
     (if num_partitions r \<le> 1 then 0
      else case strategy r of
        KeyHash \<Rightarrow> ucast (hash (to_str (ev_key event)) mod ucast (num_partitions r))
      | TenantPrefix \<Rightarrow> ucast (hash (tenant_of event) mod ucast (num_partitions r))
      | RoundRobin \<Rightarrow> ucast (hash (ev_id event) mod ucast (num_partitions r)))"

record tenant_router =
  router :: partition_router
  quota_limiter :: tenant_quota_limiter

definition tenant_router_new :: "u32 \<Rightarrow> u32 \<Rightarrow> f64 \<Rightarrow> tenant_router" where
  "tenant_router_new n cap rate =
     \<lparr>router = partition_router_new n TenantPrefix, quota_limiter = quota_new cap rate\<rparr>"

definition router_set_quota :: "tenant_router \<Rightarrow> string \<Rightarrow> u32 \<Rightarrow> f64 \<Rightarrow> instant \<Rightarrow> tenant_router" where
  "router_set_quota tr tenant_id cap rate now =
     tr\<lparr>quota_limiter := set_tenant_quota (quota_limiter tr) tenant_id cap rate now\<rparr>"

definition route_event ::
    "(string \<Rightarrow> u64) \<Rightarrow> (json \<Rightarrow> string) \<Rightarrow> tenant_router \<Rightarrow> change_event \<Rightarrow> instant \<Rightarrow> instant
       \<Rightarrow> u32 option \<times> tenant_router" where
  "route_event hash to_str tr event created now =
     (case try_allow (quota_limiter tr) (tenant_of event) created now of
        (allowed, q') \<Rightarrow>
          (if allowed then Some (resolve_partition hash to_str (router tr) event) else None,
           tr\<lparr>quota_limiter := q'\<rparr>))"

section \<open>Specification\<close>

text \<open>The text the partition of an event depends on.\<close>

definition routing_key :: "(json \<Rightarrow> string) \<Rightarrow> partition_strategy \<Rightarrow> change_event \<Rightarrow> string" where
  "routing_key to_str s event =
     (case s of KeyHash \<Rightarrow> to_str (ev_key event) | TenantPrefix \<Rightarrow> tenant_of event | RoundRobin \<Rightarrow> ev_id event)"

section \<open>Lemmas\<close>

lemma resolve_partition_key:
  "resolve_partition hash to_str r event =
     (if num_partitions r \<le> 1 then 0
      else ucast (hash (routing_key to_str (strategy r) event) mod ucast (num_partitions r)))"
  by (simp add: resolve_partition_def routing_key_def split: partition_strategy.split)

lemma unat_u32_to_u64 [simp]: "unat (ucast (n :: u32) :: u64) = unat n"
proof -
  have "unat n < 2 ^ 32" using unsigned_less [of n, where 'a = nat] by simp
  then have "unat n < 2 ^ 64" by (rule less_le_trans) simp
  then show ?thesis by (simp add: unsigned_ucast_eq take_bit_nat_eq_self)
qed

lemma unat_mod_u32:
  "0 < n \<Longrightarrow> unat (ucast ((h :: u64) mod ucast n) :: u32) = unat h mod unat (n :: u32)"
proof -
  assume "0 < n"
  then have n: "0 < unat n" by (simp add: unat_gt_0)
  have "unat (h mod ucast n) = unat h mod unat n" by (simp add: unat_mod)
  moreover have "unat h mod unat n < 2 ^ 32"
    using mod_less_divisor [OF n, of "unat h"] unsigned_less [of n, where 'a = nat] by simp
  ultimately show ?thesis
    by (simp add: unsigned_ucast_eq unsigned_take_bit_eq take_bit_nat_eq_self_iff)
qed

lemma resolve_partition_value:
  assumes "1 < num_partitions r"
  shows "unat (resolve_partition hash to_str r event) =
    unat (hash (routing_key to_str (strategy r) event)) mod unat (num_partitions r)"
proof -
  have "0 < num_partitions r" using assms by (rule order.strict_trans [rotated]) simp
  with assms show ?thesis by (simp add: resolve_partition_key unat_mod_u32 not_le)
qed

lemma resolve_partition_lt:
  assumes "1 \<le> num_partitions r"
  shows "unat (resolve_partition hash to_str r event) < unat (num_partitions r)"
proof -
  have "0 < unat (num_partitions r)"
    using assms by (simp add: word_le_nat_alt)
  then show ?thesis
    using resolve_partition_value [of r hash to_str event]
    by (cases "1 < num_partitions r") (auto simp: resolve_partition_key)
qed

section \<open>Properties\<close>

text \<open>
  C32: Every event is routed to an existing partition, and the partition depends on nothing
  but the routing key of the strategy: with \<open>KeyHash\<close> all changes of a row, with
  \<open>TenantPrefix\<close> all events of a tenant, land in one partition.
\<close>

theorem partition_range_and_affinity:
  assumes "1 \<le> num_partitions r"
  shows "unat (resolve_partition hash to_str r event) < unat (num_partitions r)
       \<and> (routing_key to_str (strategy r) event = routing_key to_str (strategy r) event' \<longrightarrow>
            resolve_partition hash to_str r event = resolve_partition hash to_str r event')"
  using resolve_partition_lt [OF assms] by (auto simp: resolve_partition_key)

theorem partition_range_and_affinity_witness:
  "unat (resolve_partition (\<lambda>s. of_nat (length s)) demo_to_str (partition_router_new 4 KeyHash)
      (demo_row ''users'' Create ''row-1'' 1)) < 4"
proof -
  have "1 \<le> num_partitions (partition_router_new 4 KeyHash)" by (simp add: partition_router_new_def)
  from partition_range_and_affinity [OF this, of "\<lambda>s. of_nat (length s)" demo_to_str
      "demo_row ''users'' Create ''row-1'' 1" "demo_row ''users'' Create ''row-1'' 1"]
  show ?thesis by (simp add: partition_router_new_def)
qed

text \<open>
  The tenant router admits an event exactly when the tenant's bucket admits it, sends it
  to the tenant's partition, and leaves every other tenant's bucket as it was.
\<close>

theorem route_event_effect:
  assumes "route_event hash to_str tr event created now = (p, tr')"
  shows "(p \<noteq> None \<longleftrightarrow> fst (try_allow (quota_limiter tr) (tenant_of event) created now))
       \<and> (p \<noteq> None \<longrightarrow> p = Some (resolve_partition hash to_str (router tr) event))
       \<and> router tr' = router tr
       \<and> (\<forall>t. t \<noteq> tenant_of event \<longrightarrow>
            hm_get (tenant_limiters (quota_limiter tr')) t = hm_get (tenant_limiters (quota_limiter tr)) t)"
  using assms try_allow_other [of _ "tenant_of event" "quota_limiter tr" created now]
  by (auto simp: route_event_def split_def split: if_splits)

theorem route_event_effect_witness:
  "fst (route_event (\<lambda>_. 5) demo_to_str (tenant_router_new 4 1 0) (demo_event ''1'' Create None) 0 0) = Some 1"
proof -
  let ?tr = "tenant_router_new 4 1 0" and ?e = "demo_event ''1'' Create None"
  obtain p tr' where r: "route_event (\<lambda>_. 5) demo_to_str ?tr ?e 0 0 = (p, tr')" by fastforce
  have "fst (try_allow (quota_limiter ?tr) (tenant_of ?e) 0 0)"
    using try_acquire_one_same_time(1) [of "bucket_new 1 0 0" 1]
    by (simp add: try_allow_def tenant_router_new_def quota_new_def bucket_new_def split_def)
  with route_event_effect [OF r] have "p = Some (resolve_partition (\<lambda>_. 5) demo_to_str (router ?tr) ?e)"
    by blast
  moreover have "resolve_partition (\<lambda>_. 5) demo_to_str (router ?tr) ?e = 1"
    by (simp add: resolve_partition_def tenant_router_new_def partition_router_new_def word_le_nat_alt)
  ultimately show ?thesis by (simp add: r)
qed

end
