(* ===== verification/Consensus.thy ===== *)
theory Consensus
  imports State_Store
begin

text \<open>
  \<^verbatim>\<open>src/src/consensus/mod.rs\<close> and \<^verbatim>\<open>src/src/consensus/failover.rs\<close>: the election loop
  and the failover controller. The loop runs in its own task and shares two atomics with
  \<open>shutdown()\<close>, so one iteration is two steps: the check of the \<open>shutdown\<close> flag after the
  sleep, and the match on the role. \<open>shutdown()\<close> is one step at a time for each of its two
  stores. Log output is left out.
\<close>

section \<open>The election loop\<close>

datatype state_role = Follower | Candidate | Leader

text \<open>Where the loop task is: asleep before the check, past it, or out of the loop; and where
  a caller of \<open>shutdown()\<close> is.\<close>

datatype loop_pc = Asleep | Checked | Exited

datatype shutdown_pc = NotCalled | FlagSet | Done

record coordinator =
  node_id :: u64
  is_leader :: bool
  shutdown :: bool
  role :: state_role
  cterm :: int
  loop_at :: loop_pc
  shutdown_at :: shutdown_pc

definition coordinator_new :: "u64 \<Rightarrow> coordinator" where
  "coordinator_new i =
     \<lparr>node_id = i, is_leader = False, shutdown = False, role = Follower, cterm = 0,
      loop_at = Asleep, shutdown_at = NotCalled\<rparr>"

definition election_timeout_ms :: "u64 \<Rightarrow> u64" where
  "election_timeout_ms i = 150 + (i * 50) mod 150"

text \<open>The match on the role, one iteration of the loop's body.\<close>

definition role_step :: "coordinator \<Rightarrow> coordinator" where
  "role_step c =
     (case role c of
        Follower \<Rightarrow> c\<lparr>role := Candidate, cterm := cterm c + 1\<rparr>
      | Candidate \<Rightarrow> c\<lparr>role := Leader, is_leader := True\<rparr>
      | Leader \<Rightarrow> c\<lparr>is_leader := True\<rparr>)"

inductive coord_step :: "coordinator \<Rightarrow> coordinator \<Rightarrow> bool" where
  exit_loop: "loop_at c = Asleep \<Longrightarrow> shutdown c \<Longrightarrow> coord_step c (c\<lparr>loop_at := Exited\<rparr>)"
| pass_check: "loop_at c = Asleep \<Longrightarrow> \<not> shutdown c \<Longrightarrow> coord_step c (c\<lparr>loop_at := Checked\<rparr>)"
| match_role: "loop_at c = Checked \<Longrightarrow> coord_step c ((role_step c)\<lparr>loop_at := Asleep\<rparr>)"
| set_flag: "shutdown_at c = NotCalled \<Longrightarrow>
    coord_step c (c\<lparr>shutdown := True, shutdown_at := FlagSet\<rparr>)"
| drop_lead: "shutdown_at c = FlagSet \<Longrightarrow>
    coord_step c (c\<lparr>is_leader := False, shutdown_at := Done\<rparr>)"

inductive_cases coord_stepE: "coord_step c c'"

text \<open>One whole iteration when nobody calls \<open>shutdown()\<close> meanwhile.\<close>

definition election_tick :: "coordinator \<Rightarrow> coordinator" where
  "election_tick c = (if shutdown c then c\<lparr>loop_at := Exited\<rparr> else role_step c)"

definition coord_start :: "u64 \<Rightarrow> coordinator \<Rightarrow> bool" where
  "coord_start i c \<longleftrightarrow> c = coordinator_new i"

definition coord_inv :: "u64 \<Rightarrow> coordinator \<Rightarrow> bool" where
  "coord_inv i c \<longleftrightarrow>
     node_id c = i
     \<and> (is_leader c \<longrightarrow> role c = Leader)
     \<and> (role c = Follower \<longleftrightarrow> cterm c = 0) \<and> 0 \<le> cterm c \<and> cterm c \<le> 1
     \<and> (shutdown c \<longleftrightarrow> shutdown_at c \<noteq> NotCalled)
     \<and> (loop_at c = Exited \<longrightarrow> shutdown c)"

section \<open>The failover controller\<close>

record failover_controller =
  fo_node_id :: u64
  heartbeat_interval :: duration
  last_leader_heartbeat :: instant
  active_lease :: bool

definition failover_new :: "u64 \<Rightarrow> u64 \<Rightarrow> instant \<Rightarrow> failover_controller" where
  "failover_new i heartbeat_millis now =
     \<lparr>fo_node_id = i, heartbeat_interval = from_millis (unat heartbeat_millis),
      last_leader_heartbeat = now, active_lease = False\<rparr>"

definition record_heartbeat :: "failover_controller \<Rightarrow> instant \<Rightarrow> failover_controller" where
  "record_heartbeat f now = f\<lparr>last_leader_heartbeat := now\<rparr>"

definition check_and_claim_lease :: "failover_controller \<Rightarrow> instant \<Rightarrow> bool \<times> failover_controller" where
  "check_and_claim_lease f now =
     (let elapsed = now - last_leader_heartbeat f in
      if elapsed > heartbeat_interval f * 2
      then (True, f\<lparr>active_lease := True\<rparr>)
      else (active_lease f, f))"

definition resume_checkpoint_offset :: "'db rocksdb \<Rightarrow> 'db \<Rightarrow> string \<Rightarrow> string option" where
  "resume_checkpoint_offset K d source_id =
     (case get_offset K d source_id of
        Inr (Some off) \<Rightarrow> Some off
      | _ \<Rightarrow> None)"

text \<open>After \<open>shutdown()\<close> returned, with the loop not between its check and its match.\<close>

definition stepped_down :: "coordinator \<Rightarrow> bool" where
  "stepped_down c \<longleftrightarrow>
     shutdown c \<and> shutdown_at c = Done \<and> loop_at c \<noteq> Checked \<and> \<not> is_leader c"

text \<open>The calls the controller receives, and the times it is checked.\<close>

datatype failover_call = Heartbeat instant | Check instant

fun failover_call_step :: "failover_controller \<Rightarrow> failover_call \<Rightarrow> bool option \<times> failover_controller" where
  "failover_call_step f (Heartbeat now) = (None, record_heartbeat f now)"
| "failover_call_step f (Check now) =
     (case check_and_claim_lease f now of (r, f') \<Rightarrow> (Some r, f'))"

definition failover_run :: "failover_controller \<Rightarrow> failover_call list \<Rightarrow> failover_controller" where
  "failover_run f calls = fold (\<lambda>call f. snd (failover_call_step f call)) calls f"

text \<open>The specification: the last heartbeat before each check, and whether one of the checks
  came more than two intervals after it.\<close>

fun lapsed :: "duration \<Rightarrow> instant \<Rightarrow> failover_call list \<Rightarrow> bool" where
  "lapsed d seen [] = False"
| "lapsed d seen (Heartbeat now # calls) = lapsed d now calls"
| "lapsed d seen (Check now # calls) = (now - seen > d * 2 \<or> lapsed d seen calls)"

section \<open>Lemmas\<close>

lemma role_step_fields [simp]:
  "node_id (role_step c) = node_id c"
  "shutdown (role_step c) = shutdown c"
  "shutdown_at (role_step c) = shutdown_at c"
  "loop_at (role_step c) = loop_at c"
  by (simp_all add: role_step_def split: state_role.split)

lemma role_step_inv:
  assumes "coord_inv i c"
  shows "is_leader (role_step c) \<longrightarrow> role (role_step c) = Leader"
    and "role (role_step c) \<noteq> Follower" and "cterm (role_step c) = 1"
  using assms by (auto simp: coord_inv_def role_step_def split: state_role.splits)

lemma coord_step_inv:
  assumes "coord_inv i c" and "coord_step c c'"
  shows "coord_inv i c'"
  using assms(2)
proof cases
  case match_role
  with assms(1) role_step_inv [OF assms(1)] show ?thesis by (simp add: coord_inv_def)
qed (use assms(1) in \<open>auto simp: coord_inv_def\<close>)

lemma coord_start_inv: "coord_start i c \<Longrightarrow> coord_inv i c"
  by (simp add: coord_start_def coord_inv_def coordinator_new_def)

interpretation coord: inductive_invariant "coord_start i" coord_step "coord_inv i" for i
  by unfold_locales (simp_all add: coord_start_inv coord_step_inv)

lemma stepped_down_step: "stepped_down c \<Longrightarrow> coord_step c c' \<Longrightarrow> stepped_down c'"
  by (erule coord_stepE) (auto simp: stepped_down_def)

interpretation rest: inductive_invariant stepped_down coord_step stepped_down
  by unfold_locales (simp_all add: stepped_down_step)

lemma failover_run_simps [simp]:
  "failover_run f [] = f"
  "failover_run f (call # calls) = failover_run (snd (failover_call_step f call)) calls"
  by (simp_all add: failover_run_def)

lemma failover_interval [simp]:
  "heartbeat_interval (snd (failover_call_step f call)) = heartbeat_interval f"
  by (cases call) (simp_all add: record_heartbeat_def check_and_claim_lease_def Let_def)

text \<open>Four steps of the loop, two iterations, from a new coordinator.\<close>

lemma two_iterations:
  "(coord_step ^^ 4) (coordinator_new i) (election_tick (election_tick (coordinator_new i)))"
proof -
  let ?a = "coordinator_new i"
  let ?b = "?a\<lparr>loop_at := Checked\<rparr>"
  let ?c = "(role_step ?b)\<lparr>loop_at := Asleep\<rparr>"
  let ?d = "?c\<lparr>loop_at := Checked\<rparr>"
  have "coord_step ?a ?b" "coord_step ?b ?c" "coord_step ?c ?d"
      "coord_step ?d ((role_step ?d)\<lparr>loop_at := Asleep\<rparr>)"
    by (rule coord_step.intros; simp add: coordinator_new_def role_step_def)+
  moreover have "(role_step ?d)\<lparr>loop_at := Asleep\<rparr> = election_tick (election_tick ?a)"
    by (simp add: coordinator_new_def role_step_def election_tick_def)
  ultimately show ?thesis by (auto simp: numeral_eq_Suc relcompp.simps)
qed

text \<open>The interleaving in which \<open>shutdown()\<close> runs between the check and the match.\<close>

lemma race_state:
  "reach (coord_start i) coord_step
     \<lparr>node_id = i, is_leader = True, shutdown = True, role = Leader, cterm = 1,
      loop_at = Exited, shutdown_at = Done\<rparr>"
proof -
  let ?c = "\<lambda>l s r t p q. \<lparr>node_id = i, is_leader = l, shutdown = s, role = r, cterm = t,
      loop_at = p, shutdown_at = q\<rparr>"
  have "reach (coord_start i) coord_step (?c False False Follower 0 Asleep NotCalled)"
    by (rule reach.at_start) (simp add: coord_start_def coordinator_new_def)
  moreover have "coord_step (?c False False Follower 0 Asleep NotCalled) (?c False False Follower 0 Checked NotCalled)"
    using coord_step.pass_check [of "?c False False Follower 0 Asleep NotCalled"] by simp
  moreover have "coord_step (?c False False Follower 0 Checked NotCalled) (?c False False Candidate 1 Asleep NotCalled)"
    using coord_step.match_role [of "?c False False Follower 0 Checked NotCalled"] by (simp add: role_step_def)
  moreover have "coord_step (?c False False Candidate 1 Asleep NotCalled) (?c False False Candidate 1 Checked NotCalled)"
    using coord_step.pass_check [of "?c False False Candidate 1 Asleep NotCalled"] by simp
  moreover have "coord_step (?c False False Candidate 1 Checked NotCalled) (?c False True Candidate 1 Checked FlagSet)"
    using coord_step.set_flag [of "?c False False Candidate 1 Checked NotCalled"] by simp
  moreover have "coord_step (?c False True Candidate 1 Checked FlagSet) (?c False True Candidate 1 Checked Done)"
    using coord_step.drop_lead [of "?c False True Candidate 1 Checked FlagSet"] by simp
  moreover have "coord_step (?c False True Candidate 1 Checked Done) (?c True True Leader 1 Asleep Done)"
    using coord_step.match_role [of "?c False True Candidate 1 Checked Done"] by (simp add: role_step_def)
  moreover have "coord_step (?c True True Leader 1 Asleep Done) (?c True True Leader 1 Exited Done)"
    using coord_step.exit_loop [of "?c True True Leader 1 Asleep Done"] by simp
  ultimately show ?thesis by (meson reach.by_move)
qed

section \<open>Properties\<close>

text \<open>
  C33: In every reachable state of the election loop, whatever the interleaving with
  \<open>shutdown()\<close>, the leader flag is up only in the Leader role, the term is 0 exactly in the
  Follower role and never exceeds 1, and the loop has ended only after a shutdown.
\<close>

theorem leader_flag_invariant:
  assumes "reach (coord_start i) coord_step c"
  shows "(is_leader c \<longrightarrow> role c = Leader) \<and> (role c = Follower \<longleftrightarrow> cterm c = 0)
       \<and> 0 \<le> cterm c \<and> cterm c \<le> 1 \<and> (loop_at c = Exited \<longrightarrow> shutdown c)"
  using coord.reach_inv [OF assms] unfolding coord_inv_def by blast

theorem leader_flag_invariant_witness:
  "role (election_tick (election_tick (coordinator_new 1))) = Leader"
proof -
  have "reach (coord_start 1) coord_step (coordinator_new 1)"
    by (rule reach.at_start) (simp add: coord_start_def)
  then have "reach (coord_start 1) coord_step (election_tick (election_tick (coordinator_new 1)))"
    using two_iterations [of 1] by (auto simp: numeral_eq_Suc relcompp.simps) (meson reach.by_move)
  from leader_flag_invariant [OF this] show ?thesis
    by (simp add: election_tick_def role_step_def coordinator_new_def)
qed

text \<open>
  A node becomes leader after two iterations of its loop with no message from anybody, so
  any two nodes of a cluster, run side by side, are both leaders of term 1 after four steps
  each.
\<close>

theorem two_leaders:
  "\<exists>a b. (coord_step ^^ 4) (coordinator_new i) a \<and> (coord_step ^^ 4) (coordinator_new j) b
     \<and> is_leader a \<and> is_leader b \<and> node_id a = i \<and> node_id b = j \<and> cterm a = 1 \<and> cterm b = 1"
proof -
  have "is_leader (election_tick (election_tick (coordinator_new k)))"
    "node_id (election_tick (election_tick (coordinator_new k))) = k"
    "cterm (election_tick (election_tick (coordinator_new k))) = 1" for k
    by (simp_all add: election_tick_def role_step_def coordinator_new_def)
  then show ?thesis using two_iterations by blast
qed

text \<open>
  Leadership is not always released. There is an interleaving in which \<open>shutdown()\<close> has
  returned, the loop has ended, and \<open>is_leader()\<close> stays true for ever after.
\<close>

theorem shutdown_race:
  "\<exists>c. reach (coord_start i) coord_step c \<and> shutdown_at c = Done \<and> loop_at c = Exited
     \<and> (\<forall>c'. coord_step\<^sup>*\<^sup>* c c' \<longrightarrow> is_leader c')"
proof -
  let ?c = "\<lparr>node_id = i, is_leader = True, shutdown = True, role = Leader, cterm = 1,
      loop_at = Exited, shutdown_at = Done\<rparr>"
  have "\<not> coord_step ?c c'" for c' by (auto elim: coord_stepE)
  then have "coord_step\<^sup>*\<^sup>* ?c c' \<Longrightarrow> c' = ?c" for c' by (metis converse_rtranclpE)
  then have "\<forall>c'. coord_step\<^sup>*\<^sup>* ?c c' \<longrightarrow> is_leader c'" by fastforce
  with race_state [of i] show ?thesis by (intro exI [of _ ?c]) simp
qed

theorem shutdown_race_witness:
  "\<exists>c. reach (coord_start 7) coord_step c \<and> shutdown_at c = Done \<and> is_leader c"
  using shutdown_race [of 7] by blast

text \<open>
  A shutdown that completes while the loop sleeps is final: whatever happens after it,
  \<open>is_leader()\<close> stays false.
\<close>

theorem shutdown_final:
  assumes "loop_at c = Asleep" and "shutdown_at c = NotCalled"
    and "coord_step\<^sup>*\<^sup>* (c\<lparr>shutdown := True, is_leader := False, shutdown_at := Done\<rparr>) c'"
  shows "coord_step\<^sup>*\<^sup>* c (c\<lparr>shutdown := True, is_leader := False, shutdown_at := Done\<rparr>) \<and> \<not> is_leader c'"
proof -
  let ?b = "c\<lparr>shutdown := True, shutdown_at := FlagSet\<rparr>"
  have "coord_step c ?b" using assms(2) by (rule coord_step.set_flag)
  moreover have "coord_step ?b (c\<lparr>shutdown := True, is_leader := False, shutdown_at := Done\<rparr>)"
    using coord_step.drop_lead [of ?b] by simp
  moreover have "stepped_down c'"
    by (rule rest.star_inv [OF assms(3)]) (simp add: stepped_down_def assms(1))
  ultimately show ?thesis by (simp add: stepped_down_def)
qed

theorem shutdown_final_witness:
  "\<not> is_leader ((election_tick (election_tick (coordinator_new 2)))
      \<lparr>shutdown := True, is_leader := False, shutdown_at := Done\<rparr>)"
  using shutdown_final [of "election_tick (election_tick (coordinator_new 2))", OF _ _ rtranclp.rtrancl_refl]
  by (simp add: election_tick_def role_step_def coordinator_new_def)

text \<open>
  C34: The failover lease is held exactly when some check came more than two heartbeat
  intervals after the heartbeat before it; once claimed it is never given up, whatever
  heartbeats arrive.
\<close>

theorem lease_claimed_iff_lapsed:
  "active_lease (failover_run f calls) \<longleftrightarrow>
     active_lease f \<or> lapsed (heartbeat_interval f) (last_leader_heartbeat f) calls"
proof (induction calls arbitrary: f)
  case (Cons call calls)
  show ?case
    by (cases call) (auto simp: Cons.IH record_heartbeat_def check_and_claim_lease_def Let_def)
qed simp

end
