(* ===== verification/Source.thy ===== *)
theory Source
  imports Event
begin

text \<open>
  \<^verbatim>\<open>src/src/source/mod.rs\<close>, \<^verbatim>\<open>postgres.rs\<close> and \<^verbatim>\<open>cassandra.rs\<close>: the retry loop with
  exponential backoff, and the two sources that use it. A source is a position and a step
  that turns it into the next event. The clock, the seed of the jitter and the RFC 3339 text
  of a time are arguments. A panic of \<open>Duration::mul_f64\<close> is an outcome of its own.
\<close>

section \<open>Retry with backoff\<close>

datatype ('e, 'a) retry_outcome = Returned "('e, 'a) result" | Overflow

definition jitter :: "u64 \<Rightarrow> f64" where
  "jitter seed = fadd (3 / 4) (fdiv (f64_of_nat (unat (seed mod 1000))) 2000)"

text \<open>
  The loop. \<open>f\<close> is the fallible call with the state it changes, \<open>seeds\<close> the clock reading
  after each failed attempt; the second component lists the sleeps.
\<close>

function retry_loop ::
    "('s \<Rightarrow> ('e, 'a) result \<times> 's) \<Rightarrow> nat \<Rightarrow> f64 \<Rightarrow> duration \<Rightarrow> (nat \<Rightarrow> u64) \<Rightarrow> nat \<Rightarrow> duration \<Rightarrow> 's
     \<Rightarrow> ('e, 'a) retry_outcome \<times> duration list \<times> 's" where
  "retry_loop f max_attempts multiplier max_delay seeds attempts delay s =
     (let attempt = attempts + 1; (r, s') = f s in
      case r of
        Inr val \<Rightarrow> (Returned (Ok val), [], s')
      | Inl err \<Rightarrow>
          if attempt \<ge> max_attempts then (Returned (Err err), [], s')
          else
            (case mul_f64 delay (jitter (seeds attempt)) of
               None \<Rightarrow> (Overflow, [], s')
             | Some current_delay \<Rightarrow>
                 (case mul_f64 delay multiplier of
                    None \<Rightarrow> (Overflow, [current_delay], s')
                  | Some d \<Rightarrow>
                      (let (out, ds, s'') =
                         retry_loop f max_attempts multiplier max_delay seeds attempt (min d max_delay) s'
                       in (out, current_delay # ds, s'')))))"
  by auto
termination
  by (relation "measure (\<lambda>(f, max_attempts, multiplier, max_delay, seeds, attempts, delay, s).
      max_attempts - attempts)") auto

declare retry_loop.simps [simp del]

definition retry_with_backoff ::
    "('s \<Rightarrow> ('e, 'a) result \<times> 's) \<Rightarrow> nat \<Rightarrow> duration \<Rightarrow> f64 \<Rightarrow> duration \<Rightarrow> (nat \<Rightarrow> u64) \<Rightarrow> 's
     \<Rightarrow> ('e, 'a) retry_outcome \<times> duration list \<times> 's" where
  "retry_with_backoff f max_attempts initial_delay multiplier max_delay seeds s =
     retry_loop f max_attempts multiplier max_delay seeds 0 initial_delay s"

section \<open>PostgreSQL\<close>

datatype postgres_error = Connection string | Slot string | Parse string

text \<open>\<open>make_conn\<close>: the first two attempts of the process fail.\<close>

definition pg_make_conn :: "u64 \<Rightarrow> (postgres_error, unit) result \<times> u64" where
  "pg_make_conn attempts =
     (if attempts < 2 then Err (Connection ''Simulated Postgres database outage'') else Ok (),
      attempts + 1)"

definition start_position :: "string option \<Rightarrow> u64" where
  "start_position start_offset =
     (case Option.bind start_offset parse_u64 of Some n \<Rightarrow> n | None \<Rightarrow> 0)"

text \<open>One step of the stream: the event at the position after \<open>seq\<close>.\<close>

definition pg_next :: "int \<Rightarrow> u64 \<Rightarrow> change_event \<times> u64" where
  "pg_next now seq =
     (let next_seq = seq + 1;
          tx_cycle = (next_seq - 1) div 4 + 1000;
          is_commit = (next_seq mod 4 = 0);
          op = (if is_commit then Commit else if next_seq mod 4 = 1 then Create else Update);
          text = show_nat (unat next_seq)
      in (\<lparr>ev_id = ''pg-evt-'' @ text,
           source_database = ''caminus_db'',
           source_table_or_collection = ''users'',
           operation = op,
           timestamp = now,
           ev_key = Object [(''id'', Number (PosInt next_seq))],
           before = None,
           after =
             (if is_commit then None
              else Some (Object
                [(''email'', String (''user'' @ text @ ''@caminus.io'')),
                 (''id'', Number (PosInt next_seq)),
                 (''name'', String (''User '' @ text))])),
           transaction_id = Some (''tx-'' @ show_nat (unat tx_cycle)),
           offset = text\<rparr>, next_seq))"

definition pg_start_stream ::
    "(nat \<Rightarrow> u64) \<Rightarrow> string option \<Rightarrow> u64
     \<Rightarrow> (postgres_error, u64) retry_outcome \<times> duration list \<times> u64" where
  "pg_start_stream seeds start_offset attempts =
     (case retry_with_backoff pg_make_conn 5 (from_millis 50) 2 (from_millis 500) seeds attempts of
        (Returned (Inr _), ds, a) \<Rightarrow> (Returned (Ok (start_position start_offset)), ds, a)
      | (Returned (Inl e), ds, a) \<Rightarrow> (Returned (Err e), ds, a)
      | (Overflow, ds, a) \<Rightarrow> (Overflow, ds, a))"

section \<open>Cassandra\<close>

datatype cassandra_error = DirectoryAccess string | CommitLogParse string

definition cas_make_conn :: "u64 \<Rightarrow> (cassandra_error, unit) result \<times> u64" where
  "cas_make_conn attempts =
     (if attempts < 2
      then Err (DirectoryAccess ''Simulated Cassandra CommitLog folder lock error'') else Ok (),
      attempts + 1)"

text \<open>\<open>now\<close> is the time of the event and \<open>key_now\<close> the later one written into its key.\<close>

definition cas_next :: "(int \<Rightarrow> string) \<Rightarrow> int \<times> int \<Rightarrow> u64 \<Rightarrow> change_event \<times> u64" where
  "cas_next to_rfc3339 t pos =
     (let next_pos = pos + 1;
          sensor = ''sensor-'' @ show_nat (unat (next_pos mod 10))
      in (\<lparr>ev_id = ''cas-evt-'' @ show_nat (unat next_pos),
           source_database = ''caminus_keyspace'',
           source_table_or_collection = ''sensor_readings'',
           operation = Create,
           timestamp = fst t,
           ev_key = Object [(''sensor_id'', String sensor), (''timestamp'', String (to_rfc3339 (snd t)))],
           before = None,
           after = Some (Object
             [(''reading_value'', Number (Float (fadd 20 (fmul (f64_of_nat (unat next_pos)) (fl (1 / 10)))))),
              (''sensor_id'', String sensor),
              (''status'', String ''OK'')]),
           transaction_id = None,
           offset = show_nat (unat next_pos)\<rparr>, next_pos))"

definition cas_start_stream ::
    "(nat \<Rightarrow> u64) \<Rightarrow> string option \<Rightarrow> u64
     \<Rightarrow> (cassandra_error, u64) retry_outcome \<times> duration list \<times> u64" where
  "cas_start_stream seeds start_offset attempts =
     (case retry_with_backoff cas_make_conn 5 (from_millis 50) 2 (from_millis 500) seeds attempts of
        (Returned (Inr _), ds, a) \<Rightarrow> (Returned (Ok (start_position start_offset)), ds, a)
      | (Returned (Inl e), ds, a) \<Rightarrow> (Returned (Err e), ds, a)
      | (Overflow, ds, a) \<Rightarrow> (Overflow, ds, a))"

section \<open>Lemmas on the retry loop\<close>

lemma jitter_bounds: "3 / 4 \<le> jitter seed" "jitter seed \<le> 5 / 4"
proof -
  obtain n where n: "n = unat (seed mod 1000)" by blast
  then have "n < 1000" by (simp add: unat_mod)
  then have r: "rat_of_nat n / 2000 \<le> 1 / 2" and e: "f64_of_nat n = rat_of_nat n"
    by (simp_all add: f64_of_nat_def fl_of_nat)
  have "0 \<le> fdiv (f64_of_nat n) 2000"
    unfolding e fdiv_def by (rule fl_nonneg) simp
  moreover have "fdiv (f64_of_nat n) 2000 \<le> 1 / 2"
    unfolding e fdiv_def using fl_mono [OF r] by (simp add: fl_dyadic)
  ultimately show "3 / 4 \<le> jitter seed" "jitter seed \<le> 5 / 4"
    using fl_mono [of "3 / 4"] fl_mono [of _ "5 / 4"]
    by (simp_all add: jitter_def fadd_def fl_dyadic n [symmetric])
qed

text \<open>Half a second, the longest delay of the two sources.\<close>

lemma half_second:
  assumes "d \<le> from_millis 500"
  shows "as_secs_f64 d \<le> 1 / 2"
proof -
  have d: "d \<le> 500000000" using assms by (simp add: from_millis_def)
  have "rat_of_nat d / 1000000000 \<le> 1 / 2" using d by simp
  then have "fl (fl (rat_of_nat d / 1000000000)) \<le> fl (fl (1 / 2))" by (intro fl_mono)
  then show ?thesis
    using d by (simp add: as_secs_f64_def fadd_def fdiv_def nanos_per_sec_def f64_of_nat_def fl_of_nat fl_dyadic)
qed

lemma mul_f64_bound:
  assumes "d \<le> from_millis 500" and "0 \<le> k" and "k \<le> of_int n / 4" and "0 \<le> n" and "n \<le> 8"
  shows "\<exists>d'. mul_f64 d k = Some d'"
proof -
  have "k * as_secs_f64 d \<le> of_int n / 4 * (1 / 2)"
    using half_second [OF assms(1)] assms(2,3,4) by (intro mult_mono) auto
  also have "\<dots> \<le> of_int 1" using assms(5) by simp
  finally have "fmul k (as_secs_f64 d) \<le> 1" using fl_mono [of _ "of_int 1"] fl_of_int [of 1]
    by (simp add: fmul_def)
  moreover have "0 \<le> fmul k (as_secs_f64 d)" using assms(2) by (simp add: fmul_def fl_nonneg)
  ultimately show ?thesis by (simp add: mul_f64_def from_secs_f64_def)
qed

lemma jittered_delay:
  assumes "d \<le> from_millis 500"
  shows "\<exists>d'. mul_f64 d (jitter seed) = Some d' \<and> d' \<le> from_millis 625"
proof -
  have k: "0 \<le> jitter seed" "jitter seed \<le> 5 / 4" using jitter_bounds [of seed] by linarith+
  have "jitter seed * as_secs_f64 d \<le> 5 / 4 * (1 / 2)"
    using half_second [OF assms] k by (intro mult_mono) auto
  then have le: "fmul (jitter seed) (as_secs_f64 d) \<le> 5 / 8"
    using fl_mono [of _ "5 / 8"] by (simp add: fmul_def fl_dyadic)
  then have "rne (fmul (jitter seed) (as_secs_f64 d) * 1000000000) \<le> 625000000"
    by (intro rne_le_int) simp
  moreover have "0 \<le> fmul (jitter seed) (as_secs_f64 d)" using k by (simp add: fmul_def fl_nonneg)
  ultimately show ?thesis
    using le by (simp add: mul_f64_def from_secs_f64_def from_millis_def)
qed

text \<open>
  What the loop does, in terms of the sequence of calls it makes: the calls but the last one
  failed, the last one returned the result, which is an error only when the attempts are used
  up, and there is one sleep between two calls.
\<close>

definition calls :: "('s \<Rightarrow> ('e, 'a) result \<times> 's) \<Rightarrow> 's \<Rightarrow> nat \<Rightarrow> ('e, 'a) result list \<times> 's" where
  "calls f s k = feed (\<lambda>s _. f s) s (replicate k ())"

lemma calls_Suc: "calls f s (Suc k) = (let (r, s') = f s; (rs, t) = calls f s' k in (r # rs, t))"
  by (simp add: calls_def)

definition retried :: "('s \<Rightarrow> ('e, 'a) result \<times> 's) \<Rightarrow> nat \<Rightarrow> 's
    \<Rightarrow> ('e, 'a) result \<Rightarrow> duration list \<Rightarrow> 's \<Rightarrow> bool" where
  "retried f budget s r ds s' \<longleftrightarrow>
     length ds < budget
     \<and> (\<exists>errs. calls f s (Suc (length ds)) = (map Inl errs @ [r], s') \<and> length errs = length ds)
     \<and> (is_ok r \<or> Suc (length ds) = budget)
     \<and> (\<forall>d \<in> set ds. d \<le> from_millis 625)"

lemma retry_loop_retried:
  fixes f :: "'s \<Rightarrow> ('e, 'a) result \<times> 's"
  assumes "0 \<le> multiplier" and "multiplier \<le> 2" and "max_delay \<le> from_millis 500"
  shows "delay \<le> from_millis 500 \<Longrightarrow>
    \<exists>r ds s'. retry_loop f max_attempts multiplier max_delay seeds attempts delay s = (Returned r, ds, s')
      \<and> retried f (max 1 (max_attempts - attempts)) s r ds s'"
proof (induction "max_attempts - attempts" arbitrary: attempts delay s)
  case (Suc m)
  obtain r s' where f: "f s = (r, s')" by fastforce
  show ?case
  proof (cases r)
    case (Inr v)
    then show ?thesis by (subst retry_loop.simps) (simp add: f retried_def calls_def)
  next
    case (Inl e)
    show ?thesis
    proof (cases "attempts + 1 \<ge> max_attempts")
      case True
      with Suc.hyps(2) have "max_attempts - attempts = 1" by linarith
      with True Inl show ?thesis by (subst retry_loop.simps) (simp add: f retried_def calls_def)
    next
      case False
      from jittered_delay [OF Suc.prems] obtain cur where
        cur: "mul_f64 delay (jitter (seeds (attempts + 1))) = Some cur" "cur \<le> from_millis 625" by blast
      from mul_f64_bound [OF Suc.prems assms(1), of 8] assms(2) obtain d where
        d: "mul_f64 delay multiplier = Some d" by auto
      have "m = max_attempts - (attempts + 1)" "min d max_delay \<le> from_millis 500"
        using Suc.hyps(2) assms(3) by auto
      from Suc.hyps(1) [OF this, of s'] obtain r' ds t where
        rest: "retry_loop f max_attempts multiplier max_delay seeds (attempts + 1) (min d max_delay) s'
            = (Returned r', ds, t)"
          "retried f (max 1 (max_attempts - (attempts + 1))) s' r' ds t"
        by blast
      have "retry_loop f max_attempts multiplier max_delay seeds attempts delay s
          = (Returned r', cur # ds, t)"
        using False rest(1) cur(1) d by (subst retry_loop.simps) (simp add: f Inl Let_def)
      moreover have "retried f (max 1 (max_attempts - attempts)) s r' (cur # ds) t"
      proof -
        from rest(2) obtain errs where
          "calls f s' (Suc (length ds)) = (map Inl errs @ [r'], t)" "length errs = length ds"
          unfolding retried_def by blast
        then have "calls f s (Suc (length (cur # ds))) = (map Inl (e # errs) @ [r'], t)"
            "length (e # errs) = length (cur # ds)"
          using calls_Suc [of f s "Suc (length ds)"] by (simp_all add: f Inl)
        moreover have "max 1 (max_attempts - attempts) = Suc (max 1 (max_attempts - (attempts + 1)))"
          using False by auto
        ultimately show ?thesis using rest(2) cur(2) unfolding retried_def by fastforce
      qed
      ultimately show ?thesis by blast
    qed
  qed
next
  case 0
  obtain r s' where f: "f s = (r, s')" by fastforce
  with 0 show ?case
    by (subst retry_loop.simps) (auto simp: retried_def calls_def split: sum.splits)
qed

section \<open>Interface\<close>

text \<open>
  What the pipelines rely on in a source: positions count up by one, the offset of an event is
  the text of its position, and different positions have different ids. A stream restarted
  from the offset of its last event is then the rest of the stream.
\<close>

locale cdc_source =
  fixes next_event :: "'c \<Rightarrow> u64 \<Rightarrow> change_event \<times> u64"
  assumes next_position: "snd (next_event c p) = p + 1"
    and next_offset: "offset (fst (next_event c p)) = show_nat (unat (p + 1))"
    and next_id: "ev_id (fst (next_event c p)) = ev_id (fst (next_event c' q)) \<Longrightarrow> p = q"
begin

lemma stream_nth:
  "feed (\<lambda>p c. next_event c p) p cs =
     (map (\<lambda>i. fst (next_event (cs ! i) (p + of_nat i))) [0..<length cs], p + of_nat (length cs))"
proof (induction cs arbitrary: p)
  case (Cons c cs)
  have "map (\<lambda>i. fst (next_event ((c # cs) ! i) (p + of_nat i))) [0..<length (c # cs)]
      = fst (next_event c p) # map (\<lambda>i. fst (next_event (cs ! i) (p + 1 + of_nat i))) [0..<length cs]"
    by (simp add: upt_conv_Cons map_Suc_upt [symmetric] comp_def add.assoc del: upt_Suc)
  with Cons [of "p + 1"] next_position [of c p] show ?case
    by (simp add: Let_def split_beta add.assoc del: upt_Suc)
qed simp

lemma stream_resume:
  assumes "cs \<noteq> []"
  shows "fst (feed (\<lambda>p c. next_event c p) p (cs @ ds)) =
     fst (feed (\<lambda>p c. next_event c p) p cs)
     @ fst (feed (\<lambda>p c. next_event c p)
         (start_position (Some (offset (last (fst (feed (\<lambda>p c. next_event c p) p cs)))))) ds)"
proof -
  obtain m where "length cs = Suc m" using assms by (cases cs) auto
  then have "offset (last (fst (feed (\<lambda>p c. next_event c p) p cs))) = show_nat (unat (p + of_nat (length cs)))"
    by (simp add: stream_nth next_offset algebra_simps)
  moreover have "snd (feed (\<lambda>p c. next_event c p) p cs) = p + of_nat (length cs)"
    by (simp add: stream_nth)
  ultimately show ?thesis by (simp add: feed_append start_position_def Let_def split_beta)
qed

lemma stream_distinct:
  assumes "length cs \<le> 2 ^ 64"
  shows "distinct (map ev_id (fst (feed (\<lambda>p c. next_event c p) p cs)))"
proof -
  have "i = j" if "i < length cs" "j < length cs"
      "ev_id (fst (next_event (cs ! i) (p + of_nat i))) = ev_id (fst (next_event (cs ! j) (p + of_nat j)))" for i j
  proof -
    have n: "unat (of_nat k :: u64) = k" if "k < length cs" for k
      using that assms by (simp only: unat_of_nat) simp
    have "(of_nat i :: u64) = of_nat j" using next_id [OF that(3)] by simp
    then show ?thesis using n [OF that(1)] n [OF that(2)] by argo
  qed
  then show ?thesis by (auto simp: stream_nth distinct_map intro!: inj_onI)
qed

end

lemma pg_next_fields [simp]:
  "snd (pg_next now seq) = seq + 1"
  "ev_id (fst (pg_next now seq)) = ''pg-evt-'' @ show_nat (unat (seq + 1))"
  "offset (fst (pg_next now seq)) = show_nat (unat (seq + 1))"
  by (simp_all add: pg_next_def Let_def)

lemma cas_next_fields [simp]:
  "snd (cas_next fmt t pos) = pos + 1"
  "ev_id (fst (cas_next fmt t pos)) = ''cas-evt-'' @ show_nat (unat (pos + 1))"
  "offset (fst (cas_next fmt t pos)) = show_nat (unat (pos + 1))"
  by (simp_all add: cas_next_def Let_def)

interpretation pg: cdc_source pg_next
  by unfold_locales (simp_all add: show_u64_inject)

interpretation cas: cdc_source "cas_next fmt" for fmt
  by unfold_locales (simp_all add: show_u64_inject)

text \<open>Both connections fail while the attempt counter of the process is below two.\<close>

definition flaky :: "'e \<Rightarrow> u64 \<Rightarrow> ('e, unit) result \<times> u64" where
  "flaky e attempts = (if attempts < 2 then Err e else Ok (), attempts + 1)"

lemma conn_flaky:
  "pg_make_conn = flaky (Connection ''Simulated Postgres database outage'')"
  "cas_make_conn = flaky (DirectoryAccess ''Simulated Cassandra CommitLog folder lock error'')"
  by (simp_all add: fun_eq_iff pg_make_conn_def cas_make_conn_def flaky_def)

lemma flaky_errors:
  assumes "calls (flaky e) a (Suc n) = (map Inl errs @ [r], a')" and "length errs = n"
  shows "n \<le> 2" and "n = 2 \<Longrightarrow> r = Ok ()"
proof -
  have small: "a = 0 \<or> a = 1" if "a < 2"
  proof -
    have "unat a = unat (0 :: u64) \<or> unat a = unat (1 :: u64)"
      using that by (auto simp: word_less_nat_alt)
    then show ?thesis by (metis unsigned_word_eqI)
  qed
  show "n \<le> 2"
  proof (rule ccontr)
    assume "\<not> n \<le> 2"
    then obtain m where n: "n = Suc (Suc (Suc m))"
      by (metis less_eq_Suc_le not_less_eq_eq numeral_2_eq_2 Suc_le_D)
    with assms(2) obtain x y z es where "errs = x # y # z # es" by (auto simp: length_Suc_conv)
    with assms(1) small show False
      by (auto simp: n calls_Suc flaky_def Let_def split_beta split: if_splits)
  qed
  assume "n = 2"
  then obtain x y where "errs = [x, y]" using assms(2) by (auto simp: numeral_2_eq_2 length_Suc_conv)
  with assms(1) small \<open>n = 2\<close> show "r = Ok ()"
    by (auto simp: numeral_2_eq_2 calls_Suc calls_def flaky_def Let_def split: if_splits)
qed

lemma retry_flaky:
  "\<exists>ds a'. retry_with_backoff (flaky e) 5 (from_millis 50) 2 (from_millis 500) seeds a
       = (Returned (Ok ()), ds, a')
     \<and> length ds \<le> 2 \<and> (\<forall>d \<in> set ds. d \<le> from_millis 625)"
proof -
  obtain r ds a' where
    run: "retry_with_backoff (flaky e) 5 (from_millis 50) 2 (from_millis 500) seeds a = (Returned r, ds, a')"
    and ret: "retried (flaky e) (max 1 (5 - 0)) a r ds a'"
    using retry_loop_retried [of 2 "from_millis 500" "from_millis 50" "flaky e" 5 seeds 0 a]
    by (auto simp: retry_with_backoff_def from_millis_def)
  from ret obtain errs where
    "calls (flaky e) a (Suc (length ds)) = (map Inl errs @ [r], a')" "length errs = length ds"
    unfolding retried_def by blast
  note flaky_errors [OF this]
  with ret run show ?thesis by (cases r) (auto simp: retried_def)
qed

section \<open>Properties\<close>



text \<open>
  Both sources always connect. Whatever the attempt counter, the clock and the stored
  offset, \<open>start_stream\<close> succeeds after at most two sleeps and starts at the stored position.
\<close>

theorem sources_connect:
  "\<exists>ds a' es b'. pg_start_stream seeds start_offset a = (Returned (Ok (start_position start_offset)), ds, a')
     \<and> cas_start_stream seeds start_offset a = (Returned (Ok (start_position start_offset)), es, b')
     \<and> length ds \<le> 2 \<and> length es \<le> 2"
proof -
  let ?pg = "Connection ''Simulated Postgres database outage''"
  let ?cas = "DirectoryAccess ''Simulated Cassandra CommitLog folder lock error''"
  obtain ds a' es b' where
    "retry_with_backoff (flaky ?pg) 5 (from_millis 50) 2 (from_millis 500) seeds a = (Returned (Ok ()), ds, a')"
    "retry_with_backoff (flaky ?cas) 5 (from_millis 50) 2 (from_millis 500) seeds a = (Returned (Ok ()), es, b')"
    "length ds \<le> 2" "length es \<le> 2"
    using retry_flaky [of ?pg seeds a] retry_flaky [of ?cas seeds a] by blast
  then show ?thesis by (simp add: pg_start_stream_def cas_start_stream_def conn_flaky)
qed

text \<open>
  C25: A source resumes where it stopped. Cutting a stream anywhere and restarting it from the
  offset of the last event delivered gives the events the uninterrupted stream would have
  given, no event twice and none skipped; this holds of both sources.
\<close>

theorem sources_resume:
  assumes "cs \<noteq> []" and "ts \<noteq> []"
  shows "fst (feed (\<lambda>p c. pg_next c p) p (cs @ ds)) =
           fst (feed (\<lambda>p c. pg_next c p) p cs)
           @ fst (feed (\<lambda>p c. pg_next c p)
               (start_position (Some (offset (last (fst (feed (\<lambda>p c. pg_next c p) p cs)))))) ds)
       \<and> fst (feed (\<lambda>p t. cas_next fmt t p) q (ts @ us)) =
           fst (feed (\<lambda>p t. cas_next fmt t p) q ts)
           @ fst (feed (\<lambda>p t. cas_next fmt t p)
               (start_position (Some (offset (last (fst (feed (\<lambda>p t. cas_next fmt t p) q ts)))))) us)"
  using pg.stream_resume [OF assms(1)] cas.stream_resume [OF assms(2)] by blast

theorem sources_resume_witness:
  "fst (feed (\<lambda>p c. pg_next c p) 0 ([5, 6] @ [7])) =
     fst (feed (\<lambda>p c. pg_next c p) 0 [5, 6])
     @ fst (feed (\<lambda>p c. pg_next c p)
         (start_position (Some (offset (last (fst (feed (\<lambda>p c. pg_next c p) 0 [5, 6])))))) [7])"
  using sources_resume [of "[5, 6]" "[(0, 0)]" 0 "[7]"] by blast

end
