(* ===== verification/Transform.thy ===== *)
theory Transform
  imports Confluent
begin

text \<open>
  \<^verbatim>\<open>src/src/transform/mod.rs\<close> and \<^verbatim>\<open>src/src/transform/registry.rs\<close>: the WebAssembly
  transformer and the plugin registry. The runtime \<open>wasmtime\<close> is the parameter record
  \<open>wasm_host\<close>; a call into the guest is assumed to return. The pass-through module that
  \<^verbatim>\<open>main.rs\<close> embeds as text is one instance of it. \<open>None\<close> stands for a panic.
\<close>

section \<open>The transformer\<close>

type_synonym i32 = "32 word"

datatype transform_error = Wasm string | TSerialization string | MissingExport string | MemoryAccess

record ('m, 's) wasm_host =
  module_new :: "bytes \<Rightarrow> (string, 'm) result"
  instance_new :: "'m \<Rightarrow> (string, 's) result"
  has_alloc :: "'s \<Rightarrow> bool"
  has_transform :: "'s \<Rightarrow> bool"
  has_memory :: "'s \<Rightarrow> bool"
  call_alloc :: "'s \<Rightarrow> i32 \<Rightarrow> (string, i32) result \<times> 's"
  call_transform :: "'s \<Rightarrow> i32 \<Rightarrow> i32 \<Rightarrow> (string, i32) result \<times> 's"
  memory_write :: "'s \<Rightarrow> u64 \<Rightarrow> bytes \<Rightarrow> (unit, unit) result \<times> 's"
  memory_read :: "'s \<Rightarrow> u64 \<Rightarrow> u64 \<Rightarrow> (unit, bytes) result"

definition transformer_new :: "('m, 's) wasm_host \<Rightarrow> bytes \<Rightarrow> (transform_error, 'm) result" where
  "transformer_new H wasm_bytes =
     (case module_new H wasm_bytes of Inl e \<Rightarrow> Err (Wasm e) | Inr m \<Rightarrow> Ok m)"

text \<open>
  The calls after the exports are found and the event is serialized. \<open>as usize\<close> sign-extends
  a negative length to more than \<open>isize::MAX\<close>, and the vector of that size panics.
\<close>

definition run_guest ::
    "('m, 's) wasm_host \<Rightarrow> event_codec \<Rightarrow> 's \<Rightarrow> bytes \<Rightarrow> (transform_error, change_event) result option" where
  "run_guest H J st json_bytes =
     (let len = of_nat (length json_bytes) :: i32 in
      case call_alloc H st len of
        (Inl e, _) \<Rightarrow> Some (Err (Wasm e))
      | (Inr guest_ptr, st) \<Rightarrow>
          (case memory_write H st (scast guest_ptr) json_bytes of
             (Inl _, _) \<Rightarrow> Some (Err MemoryAccess)
           | (Inr _, st) \<Rightarrow>
               (case call_transform H st guest_ptr len of
                  (Inl e, _) \<Rightarrow> Some (Err (Wasm e))
                | (Inr out_len, st) \<Rightarrow>
                    if sint out_len < 0 then None
                    else
                      (case memory_read H st (scast guest_ptr) (scast out_len) of
                         Inl _ \<Rightarrow> Some (Err MemoryAccess)
                       | Inr out_buffer \<Rightarrow>
                           (case event_from_slice J out_buffer of
                              Inl e \<Rightarrow> Some (Err (TSerialization e))
                            | Inr transformed_event \<Rightarrow> Some (Ok transformed_event))))))"

definition transform ::
    "('m, 's) wasm_host \<Rightarrow> event_codec \<Rightarrow> 'm \<Rightarrow> change_event
     \<Rightarrow> (transform_error, change_event) result option" where
  "transform H J m event =
     (case instance_new H m of
        Inl e \<Rightarrow> Some (Err (Wasm e))
      | Inr st \<Rightarrow>
          if \<not> has_alloc H st then Some (Err (MissingExport ''alloc''))
          else if \<not> has_transform H st then Some (Err (MissingExport ''transform''))
          else if \<not> has_memory H st then Some (Err (Wasm ''Missing memory export''))
          else
            (case event_to_vec J event of
               Inl e \<Rightarrow> Some (Err (TSerialization e))
             | Inr json_bytes \<Rightarrow> run_guest H J st json_bytes))"

section \<open>The pass-through module\<close>

text \<open>
  One page of memory; \<open>alloc\<close> returns address 0 and \<open>transform\<close> its second argument. The
  memory is a function from addresses to bytes, all zero in a new instance.
\<close>

definition page :: nat where
  "page = 65536"

definition mem_write :: "(nat \<Rightarrow> u8) \<Rightarrow> nat \<Rightarrow> bytes \<Rightarrow> (nat \<Rightarrow> u8)" where
  "mem_write m p bs = (\<lambda>i. if p \<le> i \<and> i < p + length bs then bs ! (i - p) else m i)"

definition passthrough :: "(unit, nat \<Rightarrow> u8) wasm_host" where
  "passthrough =
     \<lparr>module_new = (\<lambda>_. Ok ()),
      instance_new = (\<lambda>_. Ok (\<lambda>_. 0)),
      has_alloc = (\<lambda>_. True), has_transform = (\<lambda>_. True), has_memory = (\<lambda>_. True),
      call_alloc = (\<lambda>m _. (Ok 0, m)),
      call_transform = (\<lambda>m _ len. (Ok len, m)),
      memory_write = (\<lambda>m p bs.
        if unat p + length bs \<le> page then (Ok (), mem_write m (unat p) bs) else (Err (), m)),
      memory_read = (\<lambda>m p n.
        if unat p + unat n \<le> page then Ok (map m [unat p..<unat p + unat n]) else Err ())\<rparr>"

section \<open>The plugin registry\<close>

record plugin_metadata =
  plugin_name :: string
  plugin_version :: string
  enabled :: bool
  loaded_at :: int

type_synonym 'm plugin_registry = "(string, plugin_metadata \<times> 'm) hash_map"

definition registry_new :: "'m plugin_registry" where
  "registry_new = []"

definition register_plugin ::
    "('m, 's) wasm_host \<Rightarrow> 'm plugin_registry \<Rightarrow> string \<Rightarrow> string \<Rightarrow> bytes \<Rightarrow> int
     \<Rightarrow> (transform_error, unit) result \<times> 'm plugin_registry" where
  "register_plugin H reg name version wasm_bytes now =
     (case transformer_new H wasm_bytes of
        Inl e \<Rightarrow> (Err e, reg)
      | Inr engine \<Rightarrow>
          (let metadata = \<lparr>plugin_name = name, plugin_version = version, enabled = True, loaded_at = now\<rparr>
           in (Ok (), hm_insert name (metadata, engine) reg)))"

definition hot_reload_plugin ::
    "('m, 's) wasm_host \<Rightarrow> 'm plugin_registry \<Rightarrow> string \<Rightarrow> string \<Rightarrow> bytes \<Rightarrow> int
     \<Rightarrow> (transform_error, unit) result \<times> 'm plugin_registry" where
  "hot_reload_plugin H reg name new_version wasm_bytes now =
     (case transformer_new H wasm_bytes of
        Inl e \<Rightarrow> (Err e, reg)
      | Inr engine \<Rightarrow>
          (let metadata = \<lparr>plugin_name = name, plugin_version = new_version, enabled = True, loaded_at = now\<rparr>
           in (Ok (), hm_insert name (metadata, engine) reg)))"

definition execute_transform ::
    "('m, 's) wasm_host \<Rightarrow> event_codec \<Rightarrow> 'm plugin_registry \<Rightarrow> string \<Rightarrow> change_event
     \<Rightarrow> (transform_error, change_event option) result option" where
  "execute_transform H J reg name event =
     (case hm_get reg name of
        None \<Rightarrow> Some (Err (MissingExport (''Plugin '' @ [CHR 0x27] @ name @ [CHR 0x27] @ '' not registered'')))
      | Some (metadata, engine) \<Rightarrow>
          if \<not> enabled metadata then Some (Ok (Some event))
          else
            (case transform H J engine event of
               None \<Rightarrow> None
             | Some (Inl e) \<Rightarrow> Some (Err e)
             | Some (Inr t) \<Rightarrow> Some (Ok (Some t))))"

definition get_metadata :: "'m plugin_registry \<Rightarrow> string \<Rightarrow> plugin_metadata option" where
  "get_metadata reg name = map_option fst (hm_get reg name)"

definition registry_len :: "'m plugin_registry \<Rightarrow> nat" where
  "registry_len reg = length reg"

definition registry_is_empty :: "'m plugin_registry \<Rightarrow> bool" where
  "registry_is_empty reg \<longleftrightarrow> registry_len reg = 0"

text \<open>What the codec of events, \<open>serde_json\<close>, is relied on for: what it writes it reads back,
  and no event takes two gigabytes.\<close>

definition event_codec_ok :: "event_codec \<Rightarrow> bool" where
  "event_codec_ok J \<longleftrightarrow>
     (\<forall>e raw. event_to_vec J e = Ok raw \<longrightarrow> event_from_slice J raw = Ok e \<and> length raw < 2 ^ 31)"

definition demo_event_codec :: event_codec where
  "demo_event_codec =
     \<lparr>event_to_vec = (\<lambda>e. if e = demo_event ''1'' Create None then Ok [1] else Err ''unsupported''),
      event_from_slice = (\<lambda>bs. if bs = [1] then Ok (demo_event ''1'' Create None) else Err ''unsupported'')\<rparr>"

section \<open>Lemmas\<close>

lemma mem_read_write: "map (mem_write m p bs) [p..<p + length bs] = bs"
  by (rule nth_equalityI) (simp_all add: mem_write_def)

lemma i32_len:
  assumes "n < 2 ^ 31"
  shows "sint (of_nat n :: i32) = int n" and "unat (scast (of_nat n :: i32) :: u64) = n"
proof -
  have s: "signed_take_bit 31 (int n) = int n"
    using assms by (intro signed_take_bit_int_eq_self) auto
  then show 1: "sint (of_nat n :: i32) = int n" by (simp add: signed_of_nat)
  have "(scast (of_nat n :: i32) :: u64) = of_nat n" using 1 by (simp add: scast_eq)
  moreover have "unat (of_nat n :: u64) = n" using assms by (simp only: unat_of_nat) simp
  ultimately show "unat (scast (of_nat n :: i32) :: u64) = n" by simp
qed

lemma passthrough_run:
  assumes "length raw < 2 ^ 31"
  shows "run_guest passthrough J (\<lambda>_. 0) raw =
     (if length raw \<le> page
      then (case event_from_slice J raw of Inl e \<Rightarrow> Some (Err (TSerialization e)) | Inr t \<Rightarrow> Some (Ok t))
      else Some (Err MemoryAccess))"
  using i32_len [OF assms] mem_read_write [of "\<lambda>_. 0" 0 raw]
  by (simp add: run_guest_def passthrough_def Let_def)

section \<open>Interface\<close>

text \<open>
  What the pipelines rely on in a transformer: it does not panic, and it gives back the event
  it got or an error. Running it over a list then keeps the order and drops only failures.
\<close>

locale faithful_transform =
  fixes run :: "change_event \<Rightarrow> (transform_error, change_event) result option"
  assumes run_same: "run e = Some (Ok e) \<or> (\<exists>err. run e = Some (Err err))"
begin

lemma run_Ok: "run e = Some (Ok e') \<Longrightarrow> e' = e"
  using run_same [of e] by auto

lemma run_defined: "run e \<noteq> None"
  using run_same [of e] by auto

end

text \<open>A codec that reads back what it writes makes the pass-through module such a transformer.\<close>

locale event_json =
  fixes J :: event_codec
  assumes codec_ok: "event_codec_ok J"
begin

lemma passthrough_exact:
  assumes "event_to_vec J e = Ok raw"
  shows "transform passthrough J () e = Some (if length raw \<le> page then Ok e else Err MemoryAccess)"
proof -
  have "event_from_slice J raw = Ok e" "length raw < 2 ^ 31"
    using codec_ok assms by (auto simp: event_codec_ok_def)
  then show ?thesis
    using passthrough_run [of raw J] by (simp add: transform_def passthrough_def assms)
qed

lemma passthrough_unserializable:
  "event_to_vec J e = Err err \<Longrightarrow> transform passthrough J () e = Some (Err (TSerialization err))"
  by (simp add: transform_def passthrough_def)

end

sublocale event_json \<subseteq> pass: faithful_transform "transform passthrough J ()"
proof
  fix e
  show "transform passthrough J () e = Some (Ok e) \<or> (\<exists>err. transform passthrough J () e = Some (Err err))"
    by (cases "event_to_vec J e") (auto simp: passthrough_exact passthrough_unserializable)
qed

lemma demo_event_codec_ok: "event_codec_ok demo_event_codec"
  by (simp add: event_codec_ok_def demo_event_codec_def)

interpretation demo_json: event_json demo_event_codec
  by unfold_locales (rule demo_event_codec_ok)

lemma event_json_ok: "event_codec_ok J \<Longrightarrow> event_json J"
  by unfold_locales

section \<open>Properties\<close>




text \<open>
  The plugin registry. A registration or a hot reload whose module compiles replaces the
  plugin of that name, whether or not there was one, so that the next transform runs the new
  module; one whose module does not compile changes nothing. Other plugins are never affected.
\<close>

theorem plugin_reload_effect:
  assumes "hot_reload_plugin H reg name version wasm now = (r, reg')"
  shows "(case module_new H wasm of
            Inl e \<Rightarrow> r = Err (Wasm e) \<and> reg' = reg
          | Inr engine \<Rightarrow> r = Ok ()
              \<and> execute_transform H J reg' name event =
                  map_option (map_sum id Some) (transform H J engine event)
              \<and> map_option plugin_version (get_metadata reg' name) = Some version
              \<and> registry_len reg' = (if hm_get reg name = None then registry_len reg + 1 else registry_len reg))
       \<and> (other \<noteq> name \<longrightarrow>
            execute_transform H J reg' other event = execute_transform H J reg other event
            \<and> get_metadata reg' other = get_metadata reg other)
       \<and> register_plugin H reg name version wasm now = (r, reg')"
proof -
  have len: "length (AList.update k v m) = (if map_of m k = None then Suc (length m) else length m)"
    for k v and m :: "(string \<times> plugin_metadata \<times> 'a) list"
    by (induction m) auto
  show ?thesis
  proof (cases "module_new H wasm")
    case (Inl e)
    with assms show ?thesis
      by (simp add: hot_reload_plugin_def register_plugin_def transformer_new_def)
  next
    case (Inr engine)
    let ?meta = "\<lparr>plugin_name = name, plugin_version = version, enabled = True, loaded_at = now\<rparr>"
    have r: "r = Ok ()" and reg': "reg' = hm_insert name (?meta, engine) reg"
      using assms Inr by (auto simp: hot_reload_plugin_def transformer_new_def)
    have "execute_transform H J reg' name event = map_option (map_sum id Some) (transform H J engine event)"
      by (simp add: reg' execute_transform_def split: option.split sum.split)
    moreover have "other \<noteq> name \<longrightarrow> hm_get reg' other = hm_get reg other" by (simp add: reg')
    moreover have "registry_len reg' = (if hm_get reg name = None then registry_len reg + 1 else registry_len reg)"
      by (simp add: reg' registry_len_def hm_insert_def len)
    ultimately show ?thesis
      by (simp add: Inr r reg' register_plugin_def transformer_new_def execute_transform_def get_metadata_def)
  qed
qed

theorem plugin_reload_effect_witness:
  "get_metadata (snd (hot_reload_plugin passthrough registry_new ''mask'' ''2.0'' [0] 5)) ''mask''
     = Some \<lparr>plugin_name = ''mask'', plugin_version = ''2.0'', enabled = True, loaded_at = 5\<rparr>
   \<and> registry_len (snd (hot_reload_plugin passthrough registry_new ''mask'' ''2.0'' [0] 5)) = 1"
  using plugin_reload_effect [of passthrough registry_new "''mask''" "''2.0''" "[0]" 5]
  by (simp add: passthrough_def registry_new_def registry_len_def hot_reload_plugin_def transformer_new_def
      get_metadata_def hm_insert_def)

end
