(* ===== verification/Sinks.thy ===== *)
theory Sinks
  imports Event
begin

text \<open>
  \<^verbatim>\<open>src/src/serialize/mod.rs\<close>, \<^verbatim>\<open>src/src/sink/\<close> and \<^verbatim>\<open>src/src/resiliency/dlq.rs\<close>: the
  serialization wrapper, the three sinks and the dead letter queue. \<open>simd_json::to_string\<close> is
  the parameter \<open>to_string\<close>. All a sink does to the outside is to print lines, so sending
  returns a result and the lines printed.
\<close>

section \<open>Model\<close>

datatype serialization_error = Simd string

definition serialize_event ::
    "(change_event \<Rightarrow> (string, string) result) \<Rightarrow> change_event \<Rightarrow> (serialization_error, string) result" where
  "serialize_event to_string event = try_map Simd (to_string event) Ok"

text \<open>The \<open>Display\<close> form of the error.\<close>

fun serialization_message :: "serialization_error \<Rightarrow> string" where
  "serialization_message (Simd e) = ''simd-json serialization error: '' @ e"

definition quote_text :: "string \<Rightarrow> string" where
  "quote_text s = CHR 0x27 # s @ [CHR 0x27]"

record kafka_sink =
  brokers :: string
  topic :: string
  client_id :: string

definition kafka_new :: "string \<Rightarrow> string \<Rightarrow> string \<Rightarrow> kafka_sink" where
  "kafka_new b t c = \<lparr>brokers = b, topic = t, client_id = c\<rparr>"

datatype kafka_error = KConnection string | Delivery string

definition kafka_send ::
    "(change_event \<Rightarrow> (string, string) result) \<Rightarrow> kafka_sink \<Rightarrow> change_event
     \<Rightarrow> (kafka_error, unit) result \<times> string list" where
  "kafka_send to_string k event =
     (case serialize_event to_string event of
        Inl e \<Rightarrow> (Err (Delivery (serialization_message e)), [])
      | Inr payload \<Rightarrow>
          (Ok (),
           [''[KAFKA SINK] Sent to topic '' @ quote_text (topic k) @ '' on brokers '' @ quote_text (brokers k)
            @ '' - Payload size: '' @ show_nat (length payload) @ '' bytes'']))"

definition stdout_send ::
    "(change_event \<Rightarrow> (string, string) result) \<Rightarrow> change_event \<Rightarrow> (unit, unit) result \<times> string list" where
  "stdout_send to_string event =
     (let serialized = (case serialize_event to_string event of
            Inl _ \<Rightarrow> ''Serialization error''
          | Inr s \<Rightarrow> s)
      in (Ok (), [''[CONSOLE SINK] '' @ serialized]))"

record forwarder_sink =
  target_cluster_id :: string
  target_endpoint :: string

definition forwarder_new :: "string \<Rightarrow> string \<Rightarrow> forwarder_sink" where
  "forwarder_new c e = \<lparr>target_cluster_id = c, target_endpoint = e\<rparr>"

datatype forwarder_error = Unreachable string | FSerialization string

definition forwarder_send ::
    "(change_event \<Rightarrow> (string, string) result) \<Rightarrow> forwarder_sink \<Rightarrow> change_event
     \<Rightarrow> (forwarder_error, unit) result \<times> string list" where
  "forwarder_send to_string f event =
     (case serialize_event to_string event of
        Inl e \<Rightarrow> (Err (FSerialization (serialization_message e)), [])
      | Inr serialized \<Rightarrow>
          (Ok (),
           [''[CLUSTER FORWARDER] Forwarding change event '' @ ev_id event
            @ '' ('' @ source_table_or_collection event @ '') to remote cluster ''
            @ quote_text (target_cluster_id f) @ '' at endpoint '' @ quote_text (target_endpoint f)
            @ '' ('' @ show_nat (length serialized) @ '' bytes)'']))"

record dlq_record =
  failed_event :: change_event
  error_reason :: string
  failed_step :: string
  dlq_timestamp :: int
  retry_attempts :: u32

definition dlq_record_new :: "change_event \<Rightarrow> string \<Rightarrow> string \<Rightarrow> u32 \<Rightarrow> int \<Rightarrow> dlq_record" where
  "dlq_record_new event reason step retries now =
     \<lparr>failed_event = event, error_reason = reason, failed_step = step, dlq_timestamp = now,
      retry_attempts = retries\<rparr>"

record dead_letter_queue =
  dlq_topic_or_path :: string

definition dlq_new :: "string \<Rightarrow> dead_letter_queue" where
  "dlq_new path = \<lparr>dlq_topic_or_path = path\<rparr>"

definition route_to_dlq ::
    "(change_event \<Rightarrow> (string, string) result) \<Rightarrow> dead_letter_queue \<Rightarrow> dlq_record
     \<Rightarrow> (string, unit) result \<times> string list" where
  "route_to_dlq to_string q rec =
     (let serialized = (case serialize_event to_string (failed_event rec) of
            Inl _ \<Rightarrow> ''Failed to serialize raw event''
          | Inr s \<Rightarrow> s)
      in (Ok (),
          [''[DEAD LETTER QUEUE] Poison pill routed to '' @ quote_text (dlq_topic_or_path q)
           @ '' | Step: '' @ failed_step rec @ '' | Retries: '' @ show_nat (unat (retry_attempts rec))
           @ '' | Reason: '' @ error_reason rec @ '' | Event Payload: '' @ serialized]))"

section \<open>Interface\<close>

text \<open>
  The trait \<open>CdcSink\<close>, as the pipelines use it: a sink either fails and prints nothing, or
  prints exactly one line; when the event can be serialized it does not fail.
\<close>

locale cdc_sink =
  fixes send :: "change_event \<Rightarrow> ('e, unit) result \<times> string list"
    and serializable :: "change_event \<Rightarrow> bool"
  assumes send_Ok: "serializable e \<Longrightarrow> fst (send e) = Ok ()"
    and send_line: "length (snd (send e)) = (if is_ok (fst (send e)) then 1 else 0)"
begin

lemma send_all:
  assumes "\<forall>e \<in> set es. serializable e"
  shows "length (concat (map (\<lambda>e. snd (send e)) es)) = length es"
  using assms by (induction es) (simp_all add: send_line send_Ok)

lemma send_at_most_once: "length (concat (map (\<lambda>e. snd (send e)) es)) \<le> length es"
proof (induction es)
  case (Cons e es)
  moreover have "length (snd (send e)) \<le> 1" by (simp add: send_line)
  ultimately show ?case by simp
qed simp

end

interpretation kafka: cdc_sink "kafka_send to_string k" "\<lambda>e. is_ok (to_string e)" for to_string k
  by unfold_locales (auto simp: kafka_send_def serialize_event_def is_ok_def split: sum.splits)

interpretation console: cdc_sink "stdout_send to_string" "\<lambda>e. True" for to_string
  by unfold_locales (simp_all add: stdout_send_def Let_def)

interpretation forwarder: cdc_sink "forwarder_send to_string f" "\<lambda>e. is_ok (to_string e)" for to_string f
  by unfold_locales (auto simp: forwarder_send_def serialize_event_def is_ok_def split: sum.splits)

section \<open>Properties\<close>

text \<open>
  The sinks. Sending a batch of events that can be serialized succeeds on every sink and
  prints one line per event on each; on Kafka and on the forwarder an event that cannot be
  serialized is an error that prints nothing, while the console prints a placeholder for it.
\<close>

theorem sinks_deliver:
  assumes "\<forall>e \<in> set es. is_ok (to_string e)"
  shows "length (concat (map (\<lambda>e. snd (kafka_send to_string k e)) es)) = length es
       \<and> length (concat (map (\<lambda>e. snd (forwarder_send to_string f e)) es)) = length es
       \<and> length (concat (map (\<lambda>e. snd (stdout_send to_string e)) es)) = length es
       \<and> (to_string e = Err msg \<longrightarrow>
            kafka_send to_string k e = (Err (Delivery (''simd-json serialization error: '' @ msg)), [])
            \<and> stdout_send to_string e = (Ok (), [''[CONSOLE SINK] Serialization error'']))"
  using kafka.send_all [OF assms] forwarder.send_all [OF assms] console.send_all [of es to_string]
  by (simp add: kafka_send_def stdout_send_def serialize_event_def)

theorem sinks_deliver_witness:
  "length (concat (map (\<lambda>e. snd (kafka_send (\<lambda>e. Ok (ev_id e)) (kafka_new ''b'' ''t'' ''c'') e))
      [demo_event ''1'' Create None])) = 1"
  using sinks_deliver [of "[demo_event ''1'' Create None]" "\<lambda>e. Ok (ev_id e)"] by simp

end
