(* ===== verification/Observability.thy ===== *)
theory Observability
  imports F64
begin

text \<open>
  \<^verbatim>\<open>src/src/observability/mod.rs\<close>: the calls into the \<open>metrics\<close> crate and the start of its
  exporter. A call is the value handed to the recorder; installing the exporter is the
  parameter \<open>install\<close>, a function of the address that may fail.
\<close>

section \<open>Model\<close>

datatype recorder_call =
    HistogramRecord string f64
  | CounterIncrement string u64

definition record_processing_latency :: "f64 \<Rightarrow> recorder_call" where
  "record_processing_latency duration_seconds =
     HistogramRecord ''caminus_processing_latency_seconds'' duration_seconds"

definition record_replication_lag :: "f64 \<Rightarrow> recorder_call" where
  "record_replication_lag lag_seconds = HistogramRecord ''caminus_replication_lag_seconds'' lag_seconds"

definition increment_throughput :: "u64 \<Rightarrow> recorder_call" where
  "increment_throughput count = CounterIncrement ''caminus_throughput'' count"

text \<open>The result and the lines printed.\<close>

definition init_metrics :: "(string \<Rightarrow> (string, unit) result) \<Rightarrow> u16 \<Rightarrow> (string, unit) result \<times> string list" where
  "init_metrics install port =
     (let addr = ''0.0.0.0:'' @ show_nat (unat port) in
      case install addr of
        Inl e \<Rightarrow> (Err e, [])
      | Inr _ \<Rightarrow> (Ok (), [''[Metrics Server] Listening on http://'' @ addr]))"

section \<open>Observations\<close>

text \<open>What a counter and a histogram have got from a list of calls.\<close>

definition counter_total :: "string \<Rightarrow> recorder_call list \<Rightarrow> nat" where
  "counter_total name cs =
     sum_list (map (\<lambda>c. case c of CounterIncrement n k \<Rightarrow> if n = name then unat k else 0 | _ \<Rightarrow> 0) cs)"

definition samples :: "string \<Rightarrow> recorder_call list \<Rightarrow> f64 list" where
  "samples name cs =
     List.map_filter (\<lambda>c. case c of HistogramRecord n x \<Rightarrow> if n = name then Some x else None | _ \<Rightarrow> None) cs"

lemma counter_total_append [simp]: "counter_total n (xs @ ys) = counter_total n xs + counter_total n ys"
  by (simp add: counter_total_def)

lemma samples_append [simp]: "samples n (xs @ ys) = samples n xs @ samples n ys"
  by (simp add: samples_def List.map_filter_def)

lemma observations_Nil [simp]: "counter_total n [] = 0" "samples n [] = []"
  by (simp_all add: counter_total_def samples_def List.map_filter_simps)

end
