(* ===== verification/Pipeline.thy ===== *)
theory Pipeline
  imports Dedup Tx_Buffer Watermark Schema_Registry Router Consensus Source Transform Sinks
    Observability
begin

text \<open>
  \<^verbatim>\<open>src/src/main.rs\<close>: the two replication tasks. One round of a task is one item of its
  source stream together with what the task reads from outside during it: the leader flag, the
  clock readings of the heartbeat and of the limiter, and for each mutation the wall clock and the
  time since the round started. Everything the sinks, the router, the store, the dead letter
  queue and the metrics recorder are asked to do is appended to a list of effects.
\<close>

section \<open>Environment\<close>

record ('db, 'm, 's) env =
  rocks :: "'db rocksdb"
  schema_codec :: json_codec
  dbg_json :: "json \<Rightarrow> string"
  wasm :: "('m, 's) wasm_host"
  wasm_module :: 'm
  event_json_codec :: event_codec
  hasher :: "string \<Rightarrow> u64"
  key_text :: "json \<Rightarrow> string"
  simd_text :: "change_event \<Rightarrow> (string, string) result"
  utf8_message :: "bytes \<Rightarrow> string"
  access_message :: string
  num_milliseconds :: "int \<Rightarrow> int"

record 'e round =
  item :: "('e, change_event) result"
  leading :: bool
  beat_at :: instant
  limiter_readings :: "instant list"
  clocks :: "nat \<Rightarrow> int \<times> duration"

datatype effect =
    Assigned string u32
  | KafkaSend change_event "(kafka_error, unit) result"
  | ConsoleSend change_event
  | SaveOffset string "(storage_error, unit) result"
  | DeadLetter dlq_record "string list"
  | Metric recorder_call

text \<open>A task runs, waits for ever in the limiter, died in a panic, or left its loop.\<close>

datatype task_state = Running | Throttled | Dead | Ended

record 'db pipeline =
  tx_buffer :: tx_buffer
  watermark_engine :: watermark_snapshotter
  dedup :: dedup_filter
  store :: 'db
  failover :: failover_controller
  limiter :: token_bucket
  effects :: "effect list"
  task :: task_state

section \<open>Texts of errors\<close>

fun storage_message :: "(bytes \<Rightarrow> string) \<Rightarrow> storage_error \<Rightarrow> string" where
  "storage_message utf8 (Db e) = ''RocksDB error: '' @ e"
| "storage_message utf8 (State_Store.Serialization e) = ''Serialization error: '' @ e"
| "storage_message utf8 (Utf8 b) = ''Utf8 conversion error: '' @ utf8 b"

fun schema_message :: "(bytes \<Rightarrow> string) \<Rightarrow> schema_error \<Rightarrow> string" where
  "schema_message utf8 (Storage e) = ''Storage error: '' @ storage_message utf8 e"
| "schema_message utf8 (Incompatibility m) = ''Incompatible schema change: '' @ m"
| "schema_message utf8 (Validation m) = ''Validation failed: '' @ m"

fun transform_message :: "string \<Rightarrow> transform_error \<Rightarrow> string" where
  "transform_message acc (Wasm e) = ''Wasm engine error: '' @ e"
| "transform_message acc (TSerialization e) = ''Serialization error: '' @ e"
| "transform_message acc (MissingExport f) = ''Missing exported function: '' @ f"
| "transform_message acc MemoryAccess = ''Wasm memory access error: '' @ acc"

section \<open>Configuration of the engine\<close>

definition user_schema :: json where
  "user_schema = Object [(''fields'', Object [(''id'', String ''integer''), (''name'', String ''string'')])]"

definition engine_limiter :: "instant \<Rightarrow> token_bucket" where
  "engine_limiter now = bucket_new 1000 500 now"

definition engine_failover :: "instant \<Rightarrow> failover_controller" where
  "engine_failover now = failover_new 1 1000 now"

definition engine_router :: partition_router where
  "engine_router = partition_router_new 4 KeyHash"

definition engine_kafka :: kafka_sink where
  "engine_kafka = kafka_new ''localhost:9092'' ''caminus_mutations'' ''caminus_engine''"

definition engine_dlq :: dead_letter_queue where
  "engine_dlq = dlq_new ''caminus_dlq_poison_pills''"

text \<open>Registration of the table schema at start; a failure is only reported.\<close>

definition register_user_schema :: "('db, 'm, 's) env \<Rightarrow> 'db \<Rightarrow> 'db" where
  "register_user_schema E d =
     snd (register_schema (rocks E) (schema_codec E) (dbg_json E) d ''postgres_users'' user_schema Backward)"

definition last_offset :: "('db, 'm, 's) env \<Rightarrow> 'db \<Rightarrow> string \<Rightarrow> string option" where
  "last_offset E d source_id =
     (case resume_checkpoint_offset (rocks E) d source_id of
        Some off \<Rightarrow> Some off
      | None \<Rightarrow> (case get_offset (rocks E) d source_id of Inr r \<Rightarrow> r | Inl _ \<Rightarrow> None))"

definition pipeline_new :: "'db \<Rightarrow> failover_controller \<Rightarrow> token_bucket \<Rightarrow> 'db pipeline" where
  "pipeline_new d fo bucket =
     \<lparr>tx_buffer = tx_new, watermark_engine = wm_new, dedup = dedup_new 1000, store = d,
      failover = fo, limiter = bucket, effects = [], task = Running\<rparr>"

section \<open>One round\<close>

definition emit :: "effect list \<Rightarrow> 'db pipeline \<Rightarrow> 'db pipeline" where
  "emit es s = s\<lparr>effects := effects s @ es\<rparr>"

definition dead_letter ::
    "('db, 'm, 's) env \<Rightarrow> change_event \<Rightarrow> string \<Rightarrow> string \<Rightarrow> int \<Rightarrow> 'db pipeline \<Rightarrow> 'db pipeline" where
  "dead_letter E event reason step now s =
     (let dlq_record = dlq_record_new event reason step 1 now
      in emit [DeadLetter dlq_record (snd (route_to_dlq (simd_text E) engine_dlq dlq_record))] s)"

text \<open>What a delivery does, piece by piece: route and send, echo, save the offset, record.\<close>

definition send_event :: "('db, 'm, 's) env \<Rightarrow> change_event \<Rightarrow> 'db pipeline \<Rightarrow> 'db pipeline" where
  "send_event E transformed s =
     (let target_partition = resolve_partition (hasher E) (key_text E) engine_router transformed
      in emit [Assigned (ev_id transformed) target_partition,
               KafkaSend transformed (fst (kafka_send (simd_text E) engine_kafka transformed))] s)"

definition echo_event :: "change_event \<Rightarrow> 'db pipeline \<Rightarrow> 'db pipeline" where
  "echo_event transformed s = emit [ConsoleSend transformed] s"

definition save_checkpoint ::
    "('db, 'm, 's) env \<Rightarrow> string \<Rightarrow> change_event \<Rightarrow> 'db pipeline \<Rightarrow> 'db pipeline" where
  "save_checkpoint E source_id transformed s =
     (let (saved, d) = save_offset (rocks E) (store s) source_id (offset transformed)
      in emit [SaveOffset (offset transformed) saved] (s\<lparr>store := d\<rparr>))"

definition record_delivery ::
    "('db, 'm, 's) env \<Rightarrow> int \<times> duration \<Rightarrow> change_event \<Rightarrow> 'db pipeline \<Rightarrow> 'db pipeline" where
  "record_delivery E now transformed s =
     (let elapsed = as_secs_f64 (snd now);
          lag = fdiv (f64_of_int (num_milliseconds E (fst now - timestamp transformed))) 1000
      in emit [Metric (record_processing_latency elapsed), Metric (increment_throughput 1),
               Metric (record_replication_lag lag)] s)"

text \<open>The body of the loop over the flushed mutations.\<close>

definition deliver ::
    "('db, 'm, 's) env \<Rightarrow> string \<Rightarrow> int \<times> duration \<Rightarrow> change_event \<Rightarrow> 'db pipeline \<Rightarrow> 'db pipeline" where
  "deliver E source_id now mut_event s =
     (case transform (wasm E) (event_json_codec E) (wasm_module E) mut_event of
        None \<Rightarrow> s\<lparr>task := Dead\<rparr>
      | Some (Inr transformed) \<Rightarrow>
          record_delivery E now transformed
            (save_checkpoint E source_id transformed (echo_event transformed (send_event E transformed s)))
      | Some (Inl e) \<Rightarrow>
          dead_letter E mut_event (transform_message (access_message E) e) ''WasmTransform'' (fst now) s)"

fun deliver_all ::
    "('db, 'm, 's) env \<Rightarrow> string \<Rightarrow> (nat \<Rightarrow> int \<times> duration) \<Rightarrow> nat \<Rightarrow> change_event list
     \<Rightarrow> 'db pipeline \<Rightarrow> 'db pipeline" where
  "deliver_all E source_id clock k [] s = s"
| "deliver_all E source_id clock k (e # es) s =
     (let s' = deliver E source_id (clock k) e s
      in if task s' = Dead then s' else deliver_all E source_id clock (k + 1) es s')"

text \<open>The stages before that loop: the mutations an event releases.\<close>

definition pg_prepare ::
    "('db, 'm, 's) env \<Rightarrow> int \<Rightarrow> change_event \<Rightarrow> 'db pipeline \<Rightarrow> change_event list \<times> 'db pipeline" where
  "pg_prepare E now event s =
     (let (dup, f) = check_and_track (dedup s) (ev_id event); s = s\<lparr>dedup := f\<rparr> in
      if dup then ([], s)
      else
        (case validate_event (rocks E) (schema_codec E) (dbg_json E) (store s) ''postgres_users'' event of
           Inl e \<Rightarrow> ([], dead_letter E event (schema_message (utf8_message E) e) ''SchemaValidation'' now s)
         | Inr _ \<Rightarrow>
             (case process_replication_event (key_text E) (watermark_engine s) event of
                (None, w) \<Rightarrow> ([], s\<lparr>watermark_engine := w\<rparr>)
              | (Some processed_event, w) \<Rightarrow>
                  (let (mutations, b) = tx_process (tx_buffer s) processed_event
                   in (mutations, s\<lparr>watermark_engine := w, tx_buffer := b\<rparr>)))))"

definition cass_prepare :: "change_event \<Rightarrow> 'db pipeline \<Rightarrow> change_event list \<times> 'db pipeline" where
  "cass_prepare event s =
     (let (dup, f) = check_and_track (dedup s) (ev_id event); s = s\<lparr>dedup := f\<rparr> in
      if dup then ([], s)
      else
        (let (mutations, b) = tx_process (tx_buffer s) event
         in (mutations, s\<lparr>tx_buffer := b\<rparr>)))"

definition pg_event ::
    "('db, 'm, 's) env \<Rightarrow> (nat \<Rightarrow> int \<times> duration) \<Rightarrow> change_event \<Rightarrow> 'db pipeline \<Rightarrow> 'db pipeline" where
  "pg_event E clock event s =
     (let (mutations, s) = pg_prepare E (fst (clock 0)) event s
      in deliver_all E ''postgres_users'' clock 1 mutations s)"

definition cass_event ::
    "('db, 'm, 's) env \<Rightarrow> (nat \<Rightarrow> int \<times> duration) \<Rightarrow> change_event \<Rightarrow> 'db pipeline \<Rightarrow> 'db pipeline" where
  "cass_event E clock event s =
     (let (mutations, s) = cass_prepare event s
      in deliver_all E ''cassandra_sensors'' clock 1 mutations s)"

text \<open>The loop around both: leadership, heartbeat and limiter, then the item.\<close>

definition round_step ::
    "((nat \<Rightarrow> int \<times> duration) \<Rightarrow> change_event \<Rightarrow> 'db pipeline \<Rightarrow> 'db pipeline) \<Rightarrow> 'db pipeline \<Rightarrow> 'e round \<Rightarrow> 'db pipeline" where
  "round_step handle s r =
     (if task s \<noteq> Running then s
      else if \<not> leading r then s
      else
        (let s = s\<lparr>failover := record_heartbeat (failover s) (beat_at r)\<rparr> in
         case acquire (limiter s) 1 (limiter_readings r) of
           Waiting b \<Rightarrow> s\<lparr>limiter := b, task := Throttled\<rparr>
         | Panicked b \<Rightarrow> s\<lparr>limiter := b, task := Dead\<rparr>
         | Acquired b \<Rightarrow>
             (case item r of
                Inr event \<Rightarrow> handle (clocks r) event (s\<lparr>limiter := b\<rparr>)
              | Inl _ \<Rightarrow> s\<lparr>limiter := b, task := Ended\<rparr>)))"

definition pg_run :: "('db, 'm, 's) env \<Rightarrow> 'db pipeline \<Rightarrow> 'e round list \<Rightarrow> 'db pipeline" where
  "pg_run E = foldl (round_step (pg_event E))"

definition cass_run :: "('db, 'm, 's) env \<Rightarrow> 'db pipeline \<Rightarrow> 'e round list \<Rightarrow> 'db pipeline" where
  "cass_run E = foldl (round_step (cass_event E))"

section \<open>Observations\<close>

fun sent_event :: "effect \<Rightarrow> change_event option" where
  "sent_event (KafkaSend e r) = Some e"
| "sent_event _ = None"

text \<open>The events handed to the sinks, in order.\<close>

definition sent :: "'db pipeline \<Rightarrow> change_event list" where
  "sent s = List.map_filter sent_event (effects s)"

fun dead_event :: "effect \<Rightarrow> change_event option" where
  "dead_event (DeadLetter d ls) = Some (failed_event d)"
| "dead_event _ = None"

definition dead_letters :: "'db pipeline \<Rightarrow> change_event list" where
  "dead_letters s = List.map_filter dead_event (effects s)"

section \<open>Assumptions on the environment\<close>

text \<open>RocksDB answers what was put, and puts succeed.\<close>

definition healthy :: "('db, 'm, 's) env \<Rightarrow> bool" where
  "healthy E \<longleftrightarrow> rocksdb_laws (rocks E) \<and> (\<forall>d k v. \<exists>d'. db_put (rocks E) d k v = (Ok (), d'))"

text \<open>The transformer leaves the event alone, and its offset is text.\<close>

definition passes_through :: "('db, 'm, 's) env \<Rightarrow> change_event \<Rightarrow> bool" where
  "passes_through E e \<longleftrightarrow>
     transform (wasm E) (event_json_codec E) (wasm_module E) e = Some (Ok e)
     \<and> utf8_valid (as_bytes (offset e))"

text \<open>
  What a run of a task adds: the events sent, no dead letters, and the last of their offsets
  as the checkpoint of the source; the schemas stay.
\<close>

definition delivered ::
    "('db, 'm, 's) env \<Rightarrow> string \<Rightarrow> change_event list \<Rightarrow> 'db pipeline \<Rightarrow> 'db pipeline \<Rightarrow> bool" where
  "delivered E src es s s' \<longleftrightarrow>
     sent s' = sent s @ es \<and> dead_letters s' = dead_letters s
     \<and> get_offset (rocks E) (store s') src =
         (if es = [] then get_offset (rocks E) (store s) src else Ok (Some (offset (last es))))
     \<and> (\<forall>u. get_schema (rocks E) (schema_codec E) (store s') u = get_schema (rocks E) (schema_codec E) (store s) u)"

section \<open>Lemmas\<close>

lemma delivered_refl: "sent s' = sent s \<Longrightarrow> dead_letters s' = dead_letters s \<Longrightarrow> store s' = store s
    \<Longrightarrow> delivered E src [] s s'"
  by (simp add: delivered_def)

lemma delivered_trans:
  "delivered E src es s t \<Longrightarrow> delivered E src fs t u \<Longrightarrow> delivered E src (es @ fs) s u"
  by (auto simp: delivered_def)

lemma observations_emit [simp]:
  "sent (emit fx s) = sent s @ List.map_filter sent_event fx"
  "dead_letters (emit fx s) = dead_letters s @ List.map_filter dead_event fx"
  "store (emit fx s) = store s" "task (emit fx s) = task s" "tx_buffer (emit fx s) = tx_buffer s"
  "watermark_engine (emit fx s) = watermark_engine s" "dedup (emit fx s) = dedup s"
  "limiter (emit fx s) = limiter s"
  by (simp_all add: emit_def sent_def dead_letters_def List.map_filter_def)

lemmas deliver_steps = send_event_def echo_event_def save_checkpoint_def record_delivery_def

lemma observations_update [simp]:
  "sent (s\<lparr>store := d\<rparr>) = sent s" "dead_letters (s\<lparr>store := d\<rparr>) = dead_letters s"
  "sent (s\<lparr>dedup := f\<rparr>) = sent s" "dead_letters (s\<lparr>dedup := f\<rparr>) = dead_letters s"
  "sent (s\<lparr>tx_buffer := b\<rparr>) = sent s" "dead_letters (s\<lparr>tx_buffer := b\<rparr>) = dead_letters s"
  "sent (s\<lparr>watermark_engine := w\<rparr>) = sent s" "dead_letters (s\<lparr>watermark_engine := w\<rparr>) = dead_letters s"
  "sent (s\<lparr>limiter := l\<rparr>) = sent s" "dead_letters (s\<lparr>limiter := l\<rparr>) = dead_letters s"
  "sent (s\<lparr>failover := fo\<rparr>) = sent s" "dead_letters (s\<lparr>failover := fo\<rparr>) = dead_letters s"
  "sent (s\<lparr>task := t\<rparr>) = sent s" "dead_letters (s\<lparr>task := t\<rparr>) = dead_letters s"
  by (simp_all add: sent_def dead_letters_def)

text \<open>What the loop over the mutations leaves alone.\<close>

definition same_stages :: "'db pipeline \<Rightarrow> 'db pipeline \<Rightarrow> bool" where
  "same_stages s s' \<longleftrightarrow> tx_buffer s' = tx_buffer s \<and> watermark_engine s' = watermark_engine s
     \<and> dedup s' = dedup s \<and> limiter s' = limiter s"

lemma same_stages_trans: "same_stages s t \<Longrightarrow> same_stages t u \<Longrightarrow> same_stages s u"
  by (simp add: same_stages_def)

locale healthy_engine =
  fixes E :: "('db, 'm, 's) env"
  assumes healthy: "healthy E"
begin

lemma save_ok:
  obtains d' where "save_offset (rocks E) d src off = (Ok (), d')"
proof -
  obtain d' where "db_put (rocks E) d (offset_key src) (as_bytes off) = (Ok (), d')"
    using healthy unfolding healthy_def by blast
  then show ?thesis using that by (simp add: save_offset_def)
qed

lemma deliver_passes:
  assumes "passes_through E e"
  shows "delivered E src [e] s (deliver E src now e s) \<and> same_stages s (deliver E src now e s)
    \<and> task (deliver E src now e s) = task s"
proof -
  obtain d' where d': "save_offset (rocks E) (store s) src (offset e) = (Ok (), d')" by (rule save_ok)
  have laws: "rocksdb_laws (rocks E)" using healthy by (simp add: healthy_def)
  have "get_offset (rocks E) d' src = Ok (Some (offset e))"
    using save_offset_get [OF laws d'] assms by (simp add: passes_through_def)
  moreover have "get_schema (rocks E) (schema_codec E) d' u = get_schema (rocks E) (schema_codec E) (store s) u" for u
    by (rule save_offset_frame(2) [OF laws d'])
  ultimately show ?thesis
    using assms d'
    by (simp add: deliver_def deliver_steps passes_through_def delivered_def same_stages_def Let_def
        List.map_filter_simps)
qed

lemma deliver_all_passes:
  assumes "\<forall>e \<in> set es. passes_through E e" and "task s \<noteq> Dead"
  shows "delivered E src es s (deliver_all E src clock k es s) \<and> same_stages s (deliver_all E src clock k es s)
    \<and> task (deliver_all E src clock k es s) = task s"
  using assms
proof (induction es arbitrary: s k)
  case Nil
  then show ?case by (simp add: delivered_refl same_stages_def)
next
  case (Cons e es)
  let ?t = "deliver E src (clock k) e s"
  have t: "delivered E src [e] s ?t" "same_stages s ?t" "task ?t = task s"
    using deliver_passes [of e src s "clock k"] Cons.prems by auto
  from Cons.IH [of ?t "k + 1"] Cons.prems t(3)
  have "delivered E src es ?t (deliver_all E src clock (k + 1) es ?t)"
    "same_stages ?t (deliver_all E src clock (k + 1) es ?t)"
    "task (deliver_all E src clock (k + 1) es ?t) = task s" by auto
  with t Cons.prems(2) delivered_trans [OF t(1)] same_stages_trans [OF t(2)] show ?case
    by (simp add: Let_def)
qed

end

lemma fresh_id:
  assumes "x \<notin> processed_ids f"
  shows "\<not> fst (check_and_track f x)"
    and "processed_ids (snd (check_and_track f x)) \<subseteq> insert x (processed_ids f)"
  using assms by (auto simp: check_and_track_def Let_def split: list.splits)

lemma tx_outputs: "m \<in> set (fst (tx_process b e)) \<Longrightarrow> m = e \<or> (\<exists>tx. m \<in> set (buffered b tx))"
  by (auto simp: output_step split: option.splits if_splits)

lemma tx_buffers: "m \<in> set (buffered (snd (tx_process b e)) tx) \<Longrightarrow> m = e \<or> m \<in> set (buffered b tx)"
  by (auto simp: buffered_step pend_def split: if_splits)

text \<open>Once a task has stopped, it stays stopped.\<close>

lemma stopped_task: "task s \<noteq> Running \<Longrightarrow> foldl (round_step handle) s rs = s"
  by (induction rs) (simp_all add: round_step_def)

lemma foldl_leading:
  "foldl (round_step handle) s rs = foldl (round_step handle) s (filter leading rs)"
  by (induction rs arbitrary: s) (simp_all add: round_step_def)

text \<open>The clock readings of successive rounds, at least half a second apart: both sources sleep
  that long before every event.\<close>

fun spaced :: "instant \<Rightarrow> instant list \<Rightarrow> bool" where
  "spaced t [] \<longleftrightarrow> True"
| "spaced t (now # later) \<longleftrightarrow> t + from_millis 500 \<le> now \<and> spaced now later"

lemma leading_round:
  assumes "task s = Running" and "leading r" and "item r = Inr e" and "limiter_readings r = [now]"
    and "limiter_fit (limiter s)" and "last_refill (limiter s) + from_millis 500 \<le> now"
  obtains b where "limiter_fit b" and "last_refill b = now"
    and "round_step handle s r =
      handle (clocks r) e (s\<lparr>failover := record_heartbeat (failover s) (beat_at r), limiter := b\<rparr>)"
proof -
  from half_second_acquires [OF assms(5,6), of "[]"] obtain b where
    "acquire (limiter s) 1 [now] = Acquired b" "limiter_fit b" "last_refill b = now" by blast
  then show ?thesis using that assms(1-4) by (simp add: round_step_def Let_def)
qed

section \<open>Interface\<close>

text \<open>
  What the loop of a task relies on in its event handler: in a state fit for it, a fresh event
  that it accepts delivers what the transaction buffer releases, and the state stays fit.
\<close>

locale delivery_task =
  fixes E :: "('db, 'm, 's) env"
    and src :: string
    and handle :: "(nat \<Rightarrow> int \<times> duration) \<Rightarrow> change_event \<Rightarrow> 'db pipeline \<Rightarrow> 'db pipeline"
    and accepts :: "change_event \<Rightarrow> bool"
    and fit :: "'db pipeline \<Rightarrow> bool"
  assumes handle_fresh:
    "fit s \<Longrightarrow> accepts e \<Longrightarrow> task s = Running \<Longrightarrow> ev_id e \<notin> processed_ids (dedup s) \<Longrightarrow>
       \<forall>m \<in> set (fst (tx_process (tx_buffer s) e)). passes_through E m \<Longrightarrow>
       delivered E src (fst (tx_process (tx_buffer s) e)) s (handle clock e s)
       \<and> tx_buffer (handle clock e s) = snd (tx_process (tx_buffer s) e)
       \<and> dedup (handle clock e s) = snd (check_and_track (dedup s) (ev_id e))
       \<and> limiter (handle clock e s) = limiter s \<and> task (handle clock e s) = Running
       \<and> fit (handle clock e s)"
    and fit_frame: "fit s \<Longrightarrow> fit (s\<lparr>failover := fo, limiter := b\<rparr>)"
begin

lemma run_delivers:
  assumes "fit s" and "task s = Running" and "map item rs = map Inr evs" and "\<forall>r \<in> set rs. leading r"
    and "map limiter_readings rs = map (\<lambda>n. [n]) ns"
    and "limiter_fit (limiter s)" and "spaced (last_refill (limiter s)) ns"
    and "distinct (map ev_id evs)" and "ev_id ` set evs \<inter> processed_ids (dedup s) = {}"
    and "\<forall>e \<in> set evs. accepts e \<and> passes_through E e"
    and "\<forall>tx. \<forall>m \<in> set (buffered (tx_buffer s) tx). passes_through E m"
  shows "delivered E src (concat (fst (feed tx_process (tx_buffer s) evs))) s (foldl (round_step handle) s rs)
    \<and> task (foldl (round_step handle) s rs) = Running"
  using assms
proof (induction rs arbitrary: s evs ns)
  case Nil
  then show ?case by (simp add: delivered_refl)
next
  case (Cons r rs)
  then obtain e es where evs: "evs = e # es" "item r = Inr e" "map item rs = map Inr es"
    by (cases evs) auto
  obtain now later where ns: "ns = now # later" "limiter_readings r = [now]"
      "map limiter_readings rs = map (\<lambda>n. [n]) later"
    using Cons.prems(5) by (cases ns) auto
  let ?t = "round_step handle s r"
  have lead: "leading r" using Cons.prems(4) by simp
  have "last_refill (limiter s) + from_millis 500 \<le> now" using Cons.prems(7) by (simp add: ns)
  from leading_round [OF Cons.prems(2) lead evs(2) ns(2) Cons.prems(6) this]
  obtain b where b: "limiter_fit b" "last_refill b = now"
    and t: "?t = handle (clocks r) e
        (s\<lparr>failover := record_heartbeat (failover s) (beat_at r), limiter := b\<rparr>)"
    by blast
  let ?s = "s\<lparr>failover := record_heartbeat (failover s) (beat_at r), limiter := b\<rparr>"
  have fresh: "ev_id e \<notin> processed_ids (dedup ?s)" using Cons.prems(9) by (simp add: evs)
  have out: "\<forall>m \<in> set (fst (tx_process (tx_buffer ?s) e)). passes_through E m"
  proof
    fix m
    assume "m \<in> set (fst (tx_process (tx_buffer ?s) e))"
    then have "m = e \<or> (\<exists>tx. m \<in> set (buffered (tx_buffer s) tx))" using tx_outputs by simp
    with Cons.prems(10,11) show "passes_through E m" by (auto simp: evs)
  qed
  have acc: "accepts e" and run: "task ?s = Running" using Cons.prems(2,10) by (simp_all add: evs)
  from handle_fresh [OF fit_frame [OF Cons.prems(1)] acc run fresh out, of "clocks r"]
  have h: "delivered E src (fst (tx_process (tx_buffer s) e)) s ?t"
    "tx_buffer ?t = snd (tx_process (tx_buffer s) e)"
    "dedup ?t = snd (check_and_track (dedup s) (ev_id e))" "limiter ?t = b" "task ?t = Running" "fit ?t"
    by (simp_all add: t delivered_def)
  have ids: "ev_id e \<notin> ev_id ` set es" "ev_id ` set es \<inter> processed_ids (dedup s) = {}"
    using Cons.prems(8,9) by (auto simp: evs)
  have "delivered E src (concat (fst (feed tx_process (tx_buffer ?t) es))) ?t (foldl (round_step handle) ?t rs)
      \<and> task (foldl (round_step handle) ?t rs) = Running"
  proof (rule Cons.IH [OF h(6,5) evs(3) _ ns(3)])
    show "ev_id ` set es \<inter> processed_ids (dedup ?t) = {}"
    proof -
      have "processed_ids (dedup ?t) \<subseteq> insert (ev_id e) (processed_ids (dedup s))"
        unfolding h(3) by (rule fresh_id(2)) (use fresh in simp)
      then have "ev_id ` set es \<inter> processed_ids (dedup ?t)
          \<subseteq> ev_id ` set es \<inter> insert (ev_id e) (processed_ids (dedup s))"
        by (rule Int_mono [OF subset_refl])
      then show ?thesis using ids by simp
    qed
    show "\<forall>tx. \<forall>m \<in> set (buffered (tx_buffer ?t) tx). passes_through E m"
    proof (intro allI ballI)
      fix tx m
      assume "m \<in> set (buffered (tx_buffer ?t) tx)"
      then have "m = e \<or> m \<in> set (buffered (tx_buffer s) tx)" unfolding h(2) by (rule tx_buffers)
      with Cons.prems(10,11) show "passes_through E m" by (auto simp: evs)
    qed
  qed (use Cons.prems b in \<open>auto simp: evs ns h(4)\<close>)
  with delivered_trans [OF h(1)] show ?case by (simp add: evs h(2) Let_def split_beta)
qed

end

text \<open>The two handlers.\<close>

definition pg_accepts :: "('db, 'm, 's) env \<Rightarrow> json \<Rightarrow> change_event \<Rightarrow> bool" where
  "pg_accepts E sch e \<longleftrightarrow>
     validate_against (dbg_json E) sch e = Ok () \<and> source_table_or_collection e \<noteq> watermark_table"

definition pg_fit :: "('db, 'm, 's) env \<Rightarrow> json \<Rightarrow> 'db pipeline \<Rightarrow> bool" where
  "pg_fit E sch s \<longleftrightarrow>
     get_schema (rocks E) (schema_codec E) (store s) ''postgres_users'' = Ok (Some sch)
     \<and> \<not> in_watermark_window (watermark_engine s)"

sublocale healthy_engine \<subseteq> pg: delivery_task E "''postgres_users''" "pg_event E" "pg_accepts E sch" "pg_fit E sch"
  for sch
proof
  fix s :: "'db pipeline" and e clock
  assume fit: "pg_fit E sch s" and acc: "pg_accepts E sch e" and run: "task s = Running"
    and fresh: "ev_id e \<notin> processed_ids (dedup s)"
    and out: "\<forall>m \<in> set (fst (tx_process (tx_buffer s) e)). passes_through E m"
  let ?f = "snd (check_and_track (dedup s) (ev_id e))"
  let ?s = "s\<lparr>dedup := ?f, tx_buffer := snd (tx_process (tx_buffer s) e)\<rparr>"
  have "validate_event (rocks E) (schema_codec E) (dbg_json E) (store s) ''postgres_users'' e = Ok ()"
    using fit acc by (simp add: validate_event_def pg_fit_def pg_accepts_def)
  moreover have "process_replication_event (key_text E) (watermark_engine s) e = (Some e, watermark_engine s)"
    using fit acc by (simp add: process_replication_event_def pg_fit_def pg_accepts_def)
  ultimately have eq: "pg_event E clock e s =
      deliver_all E ''postgres_users'' clock 1 (fst (tx_process (tx_buffer s) e)) ?s"
    using fresh_id(1) [OF fresh] by (simp add: pg_event_def pg_prepare_def Let_def split_beta)
  have "task ?s \<noteq> Dead" using run by simp
  from deliver_all_passes [OF out this, of "''postgres_users''" clock 1] fit
  show "delivered E ''postgres_users'' (fst (tx_process (tx_buffer s) e)) s (pg_event E clock e s)
     \<and> tx_buffer (pg_event E clock e s) = snd (tx_process (tx_buffer s) e)
     \<and> dedup (pg_event E clock e s) = ?f \<and> limiter (pg_event E clock e s) = limiter s
     \<and> task (pg_event E clock e s) = Running \<and> pg_fit E sch (pg_event E clock e s)"
    unfolding eq using run by (simp add: delivered_def same_stages_def pg_fit_def)
next
  fix s :: "'db pipeline" and fo b
  assume "pg_fit E sch s"
  then show "pg_fit E sch (s\<lparr>failover := fo, limiter := b\<rparr>)" by (simp add: pg_fit_def)
qed

sublocale healthy_engine \<subseteq> cass: delivery_task E "''cassandra_sensors''" "cass_event E" "\<lambda>e. True" "\<lambda>s. True"
proof
  fix s :: "'db pipeline" and e clock
  assume run: "task s = Running"
    and fresh: "ev_id e \<notin> processed_ids (dedup s)"
    and out: "\<forall>m \<in> set (fst (tx_process (tx_buffer s) e)). passes_through E m"
  let ?f = "snd (check_and_track (dedup s) (ev_id e))"
  let ?s = "s\<lparr>dedup := ?f, tx_buffer := snd (tx_process (tx_buffer s) e)\<rparr>"
  have eq: "cass_event E clock e s =
      deliver_all E ''cassandra_sensors'' clock 1 (fst (tx_process (tx_buffer s) e)) ?s"
    using fresh_id(1) [OF fresh] by (simp add: cass_event_def cass_prepare_def Let_def split_beta)
  have "task ?s \<noteq> Dead" using run by simp
  from deliver_all_passes [OF out this, of "''cassandra_sensors''" clock 1]
  show "delivered E ''cassandra_sensors'' (fst (tx_process (tx_buffer s) e)) s (cass_event E clock e s)
     \<and> tx_buffer (cass_event E clock e s) = snd (tx_process (tx_buffer s) e)
     \<and> dedup (cass_event E clock e s) = ?f \<and> limiter (cass_event E clock e s) = limiter s
     \<and> task (cass_event E clock e s) = Running \<and> True"
    unfolding eq using run by (simp add: delivered_def same_stages_def)
qed simp

context healthy_engine
begin

lemmas pg_run_delivers = pg.run_delivers
lemmas cass_run_delivers = cass.run_delivers

end

lemma healthy_engine_ok: "healthy E \<Longrightarrow> healthy_engine E"
  by unfold_locales

text \<open>An environment for closed examples: a store in memory, the pass-through module, and a codec
  that knows the events of a list by their offsets.\<close>

definition table_codec :: "change_event list \<Rightarrow> event_codec" where
  "table_codec es =
     \<lparr>event_to_vec = (\<lambda>e. if e \<in> set es then Ok (as_bytes (offset e)) else Err ''unknown''),
      event_from_slice = (\<lambda>bs. case find (\<lambda>e. as_bytes (offset e) = bs) es of
          Some e \<Rightarrow> Ok e | None \<Rightarrow> Err ''unknown'')\<rparr>"

definition demo_env :: "change_event list \<Rightarrow> (bytes \<Rightarrow> bytes option, unit, nat \<Rightarrow> u8) env" where
  "demo_env es =
     \<lparr>rocks = mem_rocksdb, schema_codec = demo_codec user_schema, dbg_json = (\<lambda>_. []),
      wasm = passthrough, wasm_module = (), event_json_codec = table_codec es,
      hasher = (\<lambda>_. 0), key_text = demo_to_str, simd_text = (\<lambda>e. Ok (ev_id e)),
      utf8_message = (\<lambda>_. []), access_message = [], num_milliseconds = (\<lambda>d. d div 1000000)\<rparr>"

lemma demo_env_healthy: "healthy (demo_env es)"
  by (simp add: healthy_def demo_env_def mem_rocksdb_laws) (simp add: mem_rocksdb_def)

interpretation demo: healthy_engine "demo_env es" for es
  by unfold_locales (rule demo_env_healthy)

lemma observations_new [simp]:
  "task (pipeline_new d fo b) = Running" "tx_buffer (pipeline_new d fo b) = tx_new"
  "limiter (pipeline_new d fo b) = b" "store (pipeline_new d fo b) = d"
  "processed_ids (dedup (pipeline_new d fo b)) = {}"
  "sent (pipeline_new d fo b) = []" "dead_letters (pipeline_new d fo b) = []"
  "\<not> in_watermark_window (watermark_engine (pipeline_new d fo b))"
  by (simp_all add: pipeline_new_def dedup_new_def sent_def dead_letters_def wm_new_def List.map_filter_simps)

lemma pg_run_delivered:
  assumes "healthy E"
    and "get_schema (rocks E) (schema_codec E) d ''postgres_users'' = Ok (Some sch)"
    and "map item rs = map Inr evs" and "\<forall>r \<in> set rs. leading r"
    and "map limiter_readings rs = map (\<lambda>n. [n]) ns" and "limiter_fit b" and "spaced (last_refill b) ns"
    and "distinct (map ev_id evs)"
    and "\<forall>e \<in> set evs. pg_accepts E sch e \<and> passes_through E e"
  shows "delivered E ''postgres_users'' (concat (fst (feed tx_process tx_new evs)))
       (pipeline_new d fo b) (pg_run E (pipeline_new d fo b) rs)
     \<and> task (pg_run E (pipeline_new d fo b) rs) = Running"
proof -
  let ?s = "pipeline_new d fo b"
  have fit: "pg_fit E sch ?s" using assms(2) by (simp add: pg_fit_def)
  have "\<forall>tx. \<forall>m \<in> set (buffered (tx_buffer ?s) tx). passes_through E m" by (simp add: tx_new_def)
  from healthy_engine.pg_run_delivers [OF healthy_engine_ok [OF assms(1)] fit observations_new(1)
      assms(3,4,5) _ _ assms(8) _ assms(9) this] assms(6,7)
  show ?thesis by (simp add: pg_run_def)
qed

lemma cass_run_delivered:
  assumes "healthy E" and "map item rs = map Inr evs" and "\<forall>r \<in> set rs. leading r"
    and "map limiter_readings rs = map (\<lambda>n. [n]) ns" and "limiter_fit b" and "spaced (last_refill b) ns"
    and "distinct (map ev_id evs)"
    and "\<forall>e \<in> set evs. transaction_id e = None \<and> passes_through E e"
  shows "delivered E ''cassandra_sensors'' evs (pipeline_new d fo b) (cass_run E (pipeline_new d fo b) rs)
     \<and> task (cass_run E (pipeline_new d fo b) rs) = Running"
proof -
  let ?s = "pipeline_new d fo b"
  have buf: "\<forall>tx. \<forall>m \<in> set (buffered (tx_buffer ?s) tx). passes_through E m" by (simp add: tx_new_def)
  have ok: "\<forall>e \<in> set evs. True \<and> passes_through E e" using assms(8) by simp
  have "concat (fst (feed tx_process bf evs)) = evs" for bf
    using assms(8) by (induction evs arbitrary: bf) (simp_all add: tx_process_def Let_def split_beta)
  with healthy_engine.cass_run_delivers [OF healthy_engine_ok [OF assms(1)] TrueI observations_new(1)
      assms(2,3,4) _ _ assms(7) _ ok buf] assms(5,6)
  show ?thesis by (simp add: cass_run_def)
qed

text \<open>Material for closed examples: a user row inside a transaction, and a round half a second
  after the one before.\<close>

definition demo_user :: "string \<Rightarrow> string \<Rightarrow> change_event" where
  "demo_user i tx =
     (demo_event i Create (Some tx))\<lparr>after := Some (Object [(''id'', Number (PosInt 1)), (''name'', String ''n'')])\<rparr>"

definition demo_round :: "nat \<Rightarrow> change_event \<Rightarrow> string round" where
  "demo_round k e = \<lparr>item = Inr e, leading = True, beat_at = 0, limiter_readings = [k * from_millis 500],
     clocks = (\<lambda>_. (0, 0))\<rparr>"

lemma demo_env_rocks: "rocks (demo_env es) = mem_rocksdb"
  by (simp add: demo_env_def)

lemma demo_schema_registered:
  "get_schema (rocks (demo_env es)) (schema_codec (demo_env es)) (register_user_schema (demo_env es) Map.empty)
     ''postgres_users'' = Ok (Some user_schema)"
  by (simp add: demo_env_def register_user_schema_def register_schema_def get_schema_def save_schema_def
      mem_rocksdb_def demo_codec_def)

lemma demo_passes:
  assumes "e \<in> set es" and "inj_on (\<lambda>e. as_bytes (offset e)) (set es)"
    and "\<forall>e \<in> set es. length (offset e) \<le> page \<and> (\<forall>c \<in> set (offset e). of_char c < (128 :: nat))"
  shows "passes_through (demo_env es) e"
proof -
  have len: "length (as_bytes (offset e)) < 2 ^ 31" "length (as_bytes (offset e)) \<le> page"
    using assms(1,3) by (auto simp: as_bytes_def page_def)
  obtain e' where e': "find (\<lambda>x. as_bytes (offset x) = as_bytes (offset e)) es = Some e'"
    using assms(1) by (metis (mono_tags) find_None_iff2 not_None_eq)
  then have "e' \<in> set es" "as_bytes (offset e') = as_bytes (offset e)"
    by (auto simp: find_Some_iff)
  then have "e' = e" using assms(1,2) by (meson inj_onD)
  with e' len(2) passthrough_run [OF len(1), of "table_codec es"]
  have "transform passthrough (table_codec es) () e = Some (Ok e)"
    using assms(1) by (simp add: transform_def table_codec_def passthrough_def)
  moreover have "utf8_valid (as_bytes (offset e))" by (rule utf8_ascii) (use assms(1,3) in blast)
  ultimately show ?thesis by (simp add: passes_through_def demo_env_def)
qed

lemma demo_user_accepted: "pg_accepts (demo_env es) user_schema (demo_user i tx)"
  using fl_of_int [of 1] fract_of_int [of 1]
  by (simp add: pg_accepts_def validate_against_def user_schema_def schema_fields_def watermark_table_def
      demo_user_def demo_event_def validate_field_def check_field_type_def f64_of_nat_def)

lemma demo_commit_accepted: "pg_accepts (demo_env es) user_schema (demo_event i Commit tx)"
  by (simp add: pg_accepts_def validate_against_def user_schema_def schema_fields_def watermark_table_def
      demo_event_def)

lemma engine_limiter_fit: "limiter_fit (engine_limiter now)"
  by (simp add: limiter_fit_def bucket_inv_def engine_limiter_def bucket_new_def)

section \<open>Properties\<close>

text \<open>
  C6: The PostgreSQL task delivers what the transaction buffer releases. As leader, over any
  stream of events with distinct ids that the schema accepts, the task never stalls and sends
  to the sinks exactly the mutations of committed transactions, in commit order; it writes no
  dead letter, and the checkpoint is the offset of the last event sent.
\<close>

theorem pg_task_delivers:
  assumes "healthy E"
    and "get_schema (rocks E) (schema_codec E) d ''postgres_users'' = Ok (Some sch)"
    and "map item rs = map Inr evs" and "\<forall>r \<in> set rs. leading r"
    and "map limiter_readings rs = map (\<lambda>n. [n]) ns" and "limiter_fit b" and "spaced (last_refill b) ns"
    and "distinct (map ev_id evs)"
    and "\<forall>e \<in> set evs. pg_accepts E sch e \<and> passes_through E e"
  shows "task (pg_run E (pipeline_new d fo b) rs) = Running
       \<and> sent (pg_run E (pipeline_new d fo b) rs) = concat (fst (feed tx_process tx_new evs))
       \<and> dead_letters (pg_run E (pipeline_new d fo b) rs) = []
       \<and> get_offset (rocks E) (store (pg_run E (pipeline_new d fo b) rs)) ''postgres_users'' =
           (if concat (fst (feed tx_process tx_new evs)) = [] then get_offset (rocks E) d ''postgres_users''
            else Ok (Some (offset (last (concat (fst (feed tx_process tx_new evs)))))))"
  using pg_run_delivered [OF assms, of fo] by (simp add: delivered_def)

theorem pg_task_delivers_witness:
  "let u = demo_user ''1'' ''t''; c = demo_event ''2'' Commit (Some ''t''); E = demo_env [u, c];
       s = pg_run E (pipeline_new (register_user_schema E Map.empty) (engine_failover 0) (engine_limiter 0))
             [demo_round 1 u, demo_round 2 c]
   in task s = Running \<and> sent s = [u] \<and> dead_letters s = []
      \<and> get_offset mem_rocksdb (store s) ''postgres_users'' = Ok (Some ''1'')"
proof -
  let ?u = "demo_user ''1'' ''t''" and ?c = "demo_event ''2'' Commit (Some ''t'')"
  let ?E = "demo_env [?u, ?c]"
  have off: "offset ?u = ''1''" "offset ?c = ''2''" by (simp_all add: demo_user_def demo_event_def)
  have "passes_through ?E e" if "e \<in> set [?u, ?c]" for e
    using that by (rule demo_passes) (auto simp: off as_bytes_def byte_of_char_def page_def)
  moreover have "pg_accepts ?E user_schema e" if "e \<in> set [?u, ?c]" for e
    using that demo_user_accepted [of "[?u, ?c]"] demo_commit_accepted [of "[?u, ?c]"] by auto
  ultimately have ok: "\<forall>e \<in> set [?u, ?c]. pg_accepts ?E user_schema e \<and> passes_through ?E e" by blast
  have rel: "concat (fst (feed tx_process tx_new [?u, ?c])) = [?u]"
    by (simp add: tx_process_def tx_new_def demo_user_def demo_event_def hm_insert_def)
  have ids: "distinct (map ev_id [?u, ?c])" by (simp add: demo_user_def demo_event_def)
  have rounds: "map item [demo_round 1 ?u, demo_round 2 ?c] = map Inr [?u, ?c]"
    "\<forall>r \<in> set [demo_round 1 ?u, demo_round 2 ?c]. leading r"
    "map limiter_readings [demo_round 1 ?u, demo_round 2 ?c] = map (\<lambda>n. [n]) [500000000, 1000000000]"
    by (simp_all add: demo_round_def from_millis_def)
  have sp: "spaced (last_refill (engine_limiter 0)) [500000000, 1000000000]"
    by (simp add: engine_limiter_def bucket_new_def from_millis_def)
  from pg_task_delivers [OF demo_env_healthy demo_schema_registered rounds engine_limiter_fit sp ids ok,
      of "engine_failover 0"]
  show ?thesis by (simp only: Let_def rel demo_env_rocks) (simp add: off)
qed

text \<open>
  The Cassandra task delivers every event at once: over any stream of events outside
  transactions with distinct ids it sends exactly the stream, in order.
\<close>

theorem cass_task_delivers:
  assumes "healthy E" and "map item rs = map Inr evs" and "\<forall>r \<in> set rs. leading r"
    and "map limiter_readings rs = map (\<lambda>n. [n]) ns" and "limiter_fit b" and "spaced (last_refill b) ns"
    and "distinct (map ev_id evs)"
    and "\<forall>e \<in> set evs. transaction_id e = None \<and> passes_through E e"
  shows "task (cass_run E (pipeline_new d fo b) rs) = Running
       \<and> sent (cass_run E (pipeline_new d fo b) rs) = evs
       \<and> dead_letters (cass_run E (pipeline_new d fo b) rs) = []
       \<and> get_offset (rocks E) (store (cass_run E (pipeline_new d fo b) rs)) ''cassandra_sensors'' =
           (if evs = [] then get_offset (rocks E) d ''cassandra_sensors'' else Ok (Some (offset (last evs))))"
  using cass_run_delivered [OF assms, of d fo] by (simp add: delivered_def)

theorem cass_task_delivers_witness:
  "let e = demo_event ''1'' Create None; f = demo_event ''2'' Create None; E = demo_env [e, f];
       s = cass_run E (pipeline_new Map.empty (engine_failover 0) (engine_limiter 0))
             [demo_round 1 e, demo_round 2 f]
   in task s = Running \<and> sent s = [e, f]
      \<and> get_offset mem_rocksdb (store s) ''cassandra_sensors'' = Ok (Some ''2'')"
proof -
  let ?e = "demo_event ''1'' Create None" and ?f = "demo_event ''2'' Create None"
  let ?E = "demo_env [?e, ?f]"
  have off: "offset ?e = ''1''" "offset ?f = ''2''" by (simp_all add: demo_event_def)
  have "passes_through ?E e" if "e \<in> set [?e, ?f]" for e
    using that by (rule demo_passes) (auto simp: off as_bytes_def byte_of_char_def page_def)
  then have ok: "\<forall>e \<in> set [?e, ?f]. transaction_id e = None \<and> passes_through ?E e"
    by (auto simp: demo_event_def)
  have ids: "distinct (map ev_id [?e, ?f])" by (simp add: demo_event_def)
  have rounds: "map item [demo_round 1 ?e, demo_round 2 ?f] = map Inr [?e, ?f]"
    "\<forall>r \<in> set [demo_round 1 ?e, demo_round 2 ?f]. leading r"
    "map limiter_readings [demo_round 1 ?e, demo_round 2 ?f] = map (\<lambda>n. [n]) [500000000, 1000000000]"
    by (simp_all add: demo_round_def from_millis_def)
  have sp: "spaced (last_refill (engine_limiter 0)) [500000000, 1000000000]"
    by (simp add: engine_limiter_def bucket_new_def from_millis_def)
  from cass_task_delivers [OF demo_env_healthy rounds engine_limiter_fit sp ids ok, of Map.empty "engine_failover 0"]
  show ?thesis by (simp only: Let_def demo_env_rocks) (simp add: off)
qed

text \<open>
  A follower drops events for good. Rounds without leadership leave no trace: the run of
  either task equals the run over its leading rounds only, although the stream has moved past
  the events of the others.
\<close>

theorem follower_drops_events:
  "pg_run E s rs = pg_run E s (filter leading rs) \<and> cass_run E s rs = cass_run E s (filter leading rs)"
  by (simp add: pg_run_def cass_run_def foldl_leading [of _ s rs])

text \<open>
  The checkpoint advances past an event that was not delivered: when Kafka refuses an
  event that cannot be serialized, its offset is saved all the same, so a restart skips it.
\<close>

theorem checkpoint_without_delivery:
  assumes "healthy E" and "passes_through E e" and "simd_text E e = Err msg"
  shows "\<exists>kerr. KafkaSend e (Err kerr) \<in> set (effects (deliver E src now e s))
       \<and> get_offset (rocks E) (store (deliver E src now e s)) src = Ok (Some (offset e))
       \<and> dead_letters (deliver E src now e s) = dead_letters s"
proof -
  have "delivered E src [e] s (deliver E src now e s)"
    using healthy_engine.deliver_passes [OF healthy_engine_ok [OF assms(1)] assms(2)] by blast
  moreover have "KafkaSend e (fst (kafka_send (simd_text E) engine_kafka e)) \<in> set (effects (deliver E src now e s))"
    using assms(2) by (simp add: deliver_def deliver_steps passes_through_def emit_def Let_def split_beta)
  moreover have "fst (kafka_send (simd_text E) engine_kafka e) = Err (Delivery (''simd-json serialization error: '' @ msg))"
    by (simp add: kafka_send_def serialize_event_def assms(3))
  ultimately show ?thesis unfolding delivered_def by (metis last.simps list.distinct(1))
qed

theorem checkpoint_without_delivery_witness:
  "let e = demo_event ''1'' Create None; E = (demo_env [e])\<lparr>simd_text := (\<lambda>_. Err ''bad float'')\<rparr>;
       s = deliver E ''src'' (0, 0) e (pipeline_new Map.empty (engine_failover 0) (engine_limiter 0))
   in get_offset mem_rocksdb (store s) ''src'' = Ok (Some ''1'') \<and> dead_letters s = []"
proof -
  let ?e = "demo_event ''1'' Create None"
  let ?E = "(demo_env [?e])\<lparr>simd_text := (\<lambda>_. Err ''bad float'')\<rparr>"
  have "passes_through (demo_env [?e]) ?e"
    by (rule demo_passes) (simp_all add: demo_event_def page_def)
  then have p: "passes_through ?E ?e" by (simp add: passes_through_def)
  have h: "healthy ?E" using demo_env_healthy [of "[?e]"] by (simp add: healthy_def)
  have off: "offset ?e = ''1''" by (simp add: demo_event_def)
  from checkpoint_without_delivery [OF h p, of "''bad float''" "''src''" "(0, 0)"
      "pipeline_new Map.empty (engine_failover 0) (engine_limiter 0)"]
  show ?thesis by (simp add: Let_def off demo_env_rocks)
qed

text \<open>
  Watermark rows end in the dead letter queue. The task validates every event against the
  schema of the users table before the watermark engine sees it, so a fresh watermark row that
  is not a user row is dead-lettered and never opens or closes the window.
\<close>

theorem watermark_row_dead_lettered:
  assumes "get_schema (rocks E) (schema_codec E) (store s) ''postgres_users'' = Ok (Some user_schema)"
    and "ev_id e \<notin> processed_ids (dedup s)"
    and "source_table_or_collection e = watermark_table" and "operation e = Create"
    and "after e = Some (Object row)" and "map_of row ''id'' = None"
  shows "dead_letters (pg_event E clock e s) = dead_letters s @ [e]
       \<and> watermark_engine (pg_event E clock e s) = watermark_engine s
       \<and> sent (pg_event E clock e s) = sent s"
proof -
  have "\<exists>m. validate_against (dbg_json E) user_schema e = Err m"
    using assms(4,5,6) by (simp add: validate_against_def user_schema_def schema_fields_def validate_field_def)
  then obtain m where "validate_event (rocks E) (schema_codec E) (dbg_json E) (store s) ''postgres_users'' e = Err m"
    using assms(1) by (auto simp: validate_event_def)
  then show ?thesis
    using fresh_id(1) [OF assms(2)]
    by (simp add: pg_event_def pg_prepare_def dead_letter_def dlq_record_new_def Let_def split_beta List.map_filter_simps)
qed

theorem watermark_row_dead_lettered_witness:
  "let e = (demo_row watermark_table Create ''low'' 0)\<lparr>after := Some (Object [(''mark'', String ''low'')])\<rparr>;
       E = demo_env [];
       s = pg_event E (\<lambda>_. (0, 0)) e
             (pipeline_new (register_user_schema E Map.empty) (engine_failover 0) (engine_limiter 0))
   in dead_letters s = [e] \<and> \<not> in_watermark_window (watermark_engine s)"
proof -
  let ?e = "(demo_row watermark_table Create ''low'' 0)\<lparr>after := Some (Object [(''mark'', String ''low'')])\<rparr>"
  let ?s = "pipeline_new (register_user_schema (demo_env []) Map.empty) (engine_failover 0) (engine_limiter 0)"
  have "get_schema (rocks (demo_env [])) (schema_codec (demo_env [])) (store ?s) ''postgres_users''
      = Ok (Some user_schema)"
    using demo_schema_registered [of "[]"] by simp
  from watermark_row_dead_lettered [OF this, of ?e "[(''mark'', String ''low'')]" "\<lambda>_. (0, 0)"]
  show ?thesis by (simp add: Let_def) (simp add: demo_row_def demo_event_def)
qed

end
