(* ===== verification/Delivery_Trace.thy ===== *)
theory Delivery_Trace
  imports Pipeline
begin

text \<open>
  The shape of what the replication tasks do to the outside, with no assumption on the
  environment, the events or the clocks: every effect belongs to a complete delivery or is a dead
  letter, and the metrics count exactly the deliveries.
\<close>

section \<open>Specification\<close>

text \<open>One delivery of an event, as the sinks, the store and the recorder see it.\<close>

definition delivery_block ::
    "('db, 'm, 's) env \<Rightarrow> change_event \<Rightarrow> u32 \<Rightarrow> (storage_error, unit) result \<Rightarrow> f64 \<Rightarrow> f64 \<Rightarrow> effect list" where
  "delivery_block E e part saved latency lag =
     [Assigned (ev_id e) part,
      KafkaSend e (fst (kafka_send (simd_text E) engine_kafka e)),
      ConsoleSend e,
      SaveOffset (offset e) saved,
      Metric (HistogramRecord ''caminus_processing_latency_seconds'' latency),
      Metric (CounterIncrement ''caminus_throughput'' 1),
      Metric (HistogramRecord ''caminus_replication_lag_seconds'' lag)]"

inductive delivery_trace :: "('db, 'm, 's) env \<Rightarrow> effect list \<Rightarrow> bool" for E where
  start: "delivery_trace E []"
| delivery: "delivery_trace E fx \<Longrightarrow> part < 4 \<Longrightarrow> 0 \<le> latency \<Longrightarrow>
    delivery_trace E (fx @ delivery_block E e part saved latency lag)"
| refused: "delivery_trace E fx \<Longrightarrow>
    failed_step d = ''SchemaValidation'' \<or> failed_step d = ''WasmTransform'' \<Longrightarrow>
    delivery_trace E (fx @ [DeadLetter d ls])"

fun metric_of :: "effect \<Rightarrow> recorder_call option" where
  "metric_of (Metric c) = Some c"
| "metric_of _ = None"

definition metric_calls :: "'db pipeline \<Rightarrow> recorder_call list" where
  "metric_calls s = List.map_filter metric_of (effects s)"

text \<open>The throughput counter and the two histograms agree with the events sent.\<close>

definition metrics_balanced :: "'db pipeline \<Rightarrow> bool" where
  "metrics_balanced s \<longleftrightarrow>
     counter_total ''caminus_throughput'' (metric_calls s) = length (sent s)
     \<and> length (samples ''caminus_processing_latency_seconds'' (metric_calls s)) = length (sent s)
     \<and> length (samples ''caminus_replication_lag_seconds'' (metric_calls s)) = length (sent s)"

section \<open>Lemmas\<close>

text \<open>\<open>t\<close> extends the effects of \<open>s\<close> by well-formed ones.\<close>

definition extends_trace :: "('db, 'm, 's) env \<Rightarrow> 'db pipeline \<Rightarrow> 'db pipeline \<Rightarrow> bool" where
  "extends_trace E s t \<longleftrightarrow> (\<exists>fx. effects t = effects s @ fx \<and> delivery_trace E fx)"

lemma delivery_trace_append:
  "delivery_trace E gx \<Longrightarrow> delivery_trace E fx \<Longrightarrow> delivery_trace E (fx @ gx)"
  by (induction rule: delivery_trace.induct)
    (auto simp flip: append_assoc intro: delivery_trace.intros)

lemma extends_refl [simp]: "effects t = effects s \<Longrightarrow> extends_trace E s t"
  by (simp add: extends_trace_def delivery_trace.start)

lemma extends_trans: "extends_trace E s t \<Longrightarrow> extends_trace E t u \<Longrightarrow> extends_trace E s u"
  by (auto simp: extends_trace_def intro: delivery_trace_append)

lemma extends_frame: "extends_trace E s t \<Longrightarrow> effects s = effects r \<Longrightarrow> extends_trace E r t"
  by (simp add: extends_trace_def)

lemma dead_letter_extends:
  assumes "step = ''SchemaValidation'' \<or> step = ''WasmTransform''"
  shows "extends_trace E s (dead_letter E e reason step now s)"
proof -
  have "delivery_trace E ([] @ [DeadLetter (dlq_record_new e reason step 1 now)
      (snd (route_to_dlq (simd_text E) engine_dlq (dlq_record_new e reason step 1 now)))])"
    by (rule delivery_trace.refused [OF delivery_trace.start]) (use assms in \<open>simp add: dlq_record_new_def\<close>)
  then show ?thesis by (simp add: extends_trace_def dead_letter_def emit_def Let_def)
qed

lemma deliver_extends: "extends_trace E s (deliver E src now e s)"
proof (cases "transform (wasm E) (event_json_codec E) (wasm_module E) e")
  case None
  then show ?thesis by (simp add: deliver_def)
next
  case (Some r)
  show ?thesis
  proof (cases r)
    case (Inl m)
    then show ?thesis using Some by (simp add: deliver_def dead_letter_extends)
  next
    case (Inr t)
    have "unat (resolve_partition (hasher E) (key_text E) engine_router t) < unat (num_partitions engine_router)"
      by (rule resolve_partition_lt) (simp add: engine_router_def partition_router_new_def)
    then have "resolve_partition (hasher E) (key_text E) engine_router t < 4"
      by (simp add: engine_router_def partition_router_new_def word_less_nat_alt)
    from delivery_trace.delivery [OF delivery_trace.start this as_secs_nonneg [of "snd now"], of E t]
    show ?thesis using Some Inr
      by (simp add: deliver_def deliver_steps extends_trace_def delivery_block_def emit_def Let_def split_beta
          record_processing_latency_def increment_throughput_def record_replication_lag_def)
  qed
qed

lemma deliver_all_extends: "extends_trace E s (deliver_all E src clock k es s)"
proof (induction es arbitrary: k s)
  case (Cons e es)
  show ?case
    using extends_trans [OF deliver_extends Cons.IH] by (auto simp: Let_def deliver_extends)
qed simp

lemma prepare_extends:
  "extends_trace E s (snd (pg_prepare E now e s))" "extends_trace E s (snd (cass_prepare e s))"
proof -
  show "extends_trace E s (snd (pg_prepare E now e s))"
    using extends_frame [OF dead_letter_extends [of "''SchemaValidation''" E "s\<lparr>dedup := f\<rparr>" for f]]
    by (auto simp: pg_prepare_def Let_def split_beta split: sum.split option.split)
  show "extends_trace E s (snd (cass_prepare e s))"
    by (simp add: cass_prepare_def Let_def split_beta)
qed

lemma event_extends:
  "extends_trace E s (pg_event E clock e s)" "extends_trace E s (cass_event E clock e s)"
  using extends_trans [OF prepare_extends(1) deliver_all_extends] extends_trans [OF prepare_extends(2) deliver_all_extends]
  by (simp_all add: pg_event_def cass_event_def split_beta)

lemma round_extends:
  assumes "\<And>clock e s. extends_trace E s (handle clock e s)"
  shows "extends_trace E s (round_step handle s r)"
proof -
  have "extends_trace E s (handle clock e (s\<lparr>failover := fo, limiter := b\<rparr>))" for clock e fo b
    by (rule extends_frame [OF assms]) simp
  then show ?thesis by (auto simp: round_step_def Let_def split: acquire_outcome.split sum.split)
qed

lemma run_extends:
  assumes "\<And>clock e s. extends_trace E s (handle clock e s)"
  shows "extends_trace E s (foldl (round_step handle) s rs)"
proof (induction rs arbitrary: s)
  case (Cons r rs)
  show ?case using extends_trans [OF round_extends [OF assms] Cons.IH] by simp
qed simp

lemma tasks_extend: "extends_trace E s (pg_run E s rs)" "extends_trace E s (cass_run E s rs)"
  unfolding pg_run_def cass_run_def by (rule run_extends event_extends)+

lemma trace_counts:
  assumes "delivery_trace E fx"
  shows "counter_total ''caminus_throughput'' (List.map_filter metric_of fx) = length (List.map_filter sent_event fx)
    \<and> length (samples ''caminus_processing_latency_seconds'' (List.map_filter metric_of fx))
       = length (List.map_filter sent_event fx)
    \<and> length (samples ''caminus_replication_lag_seconds'' (List.map_filter metric_of fx))
       = length (List.map_filter sent_event fx)"
  using assms by induction (simp_all add: delivery_block_def counter_total_def samples_def List.map_filter_def)

lemma extends_balanced: "extends_trace E (pipeline_new d fo b) s \<Longrightarrow> metrics_balanced s"
  using trace_counts [of E "effects s"]
  by (simp add: extends_trace_def pipeline_new_def metrics_balanced_def metric_calls_def sent_def)

section \<open>Properties\<close>

text \<open>
  C9: What a task does to the outside is well-formed. Whatever the environment, the clocks and
  the events, a run of either task appends complete deliveries and dead letters and nothing
  else: each delivery assigns one of the four partitions, sends to Kafka, echoes, saves the
  offset and records the metrics of one event, in this order.
\<close>

theorem task_effects_well_formed:
  "(\<exists>fx. effects (pg_run E s rs) = effects s @ fx \<and> delivery_trace E fx)
   \<and> (\<exists>fx. effects (cass_run E s rs) = effects s @ fx \<and> delivery_trace E fx)"
  using tasks_extend [of E s rs] by (simp add: extends_trace_def)

text \<open>
  C10: The metrics count the deliveries. From the start of a task on, the throughput counter is
  the number of events handed to the sinks, and both histograms hold one sample for each.
\<close>

theorem metrics_count_deliveries:
  "metrics_balanced (pg_run E (pipeline_new d fo b) rs) \<and> metrics_balanced (cass_run E (pipeline_new d fo b) rs)"
  using tasks_extend [of E "pipeline_new d fo b" rs] by (blast intro: extends_balanced)

end
