(* ===== verification/End_To_End.thy ===== *)
theory End_To_End
  imports Pipeline
begin

text \<open>
  The PostgreSQL source, the pipeline and the checkpoint store together: what a session of the
  replication task delivers from the position it resumes at, and what two sessions deliver with
  a crash between them.
\<close>

section \<open>Sessions\<close>

definition pg_stream :: "u64 \<Rightarrow> int list \<Rightarrow> change_event list" where
  "pg_stream p ts = fst (feed (\<lambda>p c. pg_next c p) p ts)"

definition resume_position :: "('db, 'm, 's) env \<Rightarrow> 'db \<Rightarrow> u64" where
  "resume_position E d = start_position (last_offset E d ''postgres_users'')"

text \<open>
  A session started over the store \<open>d\<close>: the stream resumes at the stored position, the node
  leads, events arrive at least half a second apart, and each passes the transformer.
\<close>

definition pg_session ::
    "('db, 'm, 's) env \<Rightarrow> 'db \<Rightarrow> token_bucket \<Rightarrow> int list \<Rightarrow> 'e round list \<Rightarrow> bool" where
  "pg_session E d b ts rs \<longleftrightarrow>
     map item rs = map Inr (pg_stream (resume_position E d) ts)
     \<and> (\<forall>r \<in> set rs. leading r)
     \<and> (\<exists>ns. map limiter_readings rs = map (\<lambda>n. [n]) ns \<and> spaced (last_refill b) ns) \<and> limiter_fit b
     \<and> (\<forall>e \<in> set (pg_stream (resume_position E d) ts). passes_through E e)"

text \<open>The offsets of the mutations between two positions; every fourth position is a commit.\<close>

definition mutation_offsets :: "nat \<Rightarrow> nat \<Rightarrow> string list" where
  "mutation_offsets lo hi = map show_nat (filter (\<lambda>i. i mod 4 \<noteq> 0) [lo..<hi])"

text \<open>Where the last transaction that is complete at a position ends.\<close>

definition committed :: "nat \<Rightarrow> nat" where
  "committed n = 4 * (n div 4)"

text \<open>
  Any number of sessions one after the other: each is cut off after some rounds, and the next one
  starts afresh over the store the last one left. The second store and the events are what the
  sessions together leave and send.
\<close>

inductive restarts :: "('db, 'm, 's) env \<Rightarrow> 'db \<Rightarrow> 'db \<Rightarrow> change_event list \<Rightarrow> bool" for E d0 where
  first_start: "restarts E d0 d0 []"
| restart: "restarts E d0 d out \<Longrightarrow> pg_session E d b ts (rs :: string round list) \<Longrightarrow>
    unat (resume_position E d) + length ts < 2 ^ 64 \<Longrightarrow> s = pg_run E (pipeline_new d fo b) rs \<Longrightarrow>
    restarts E d0 (store s) (out @ sent s)"

section \<open>Lemmas on the stream\<close>

lemma pg_stream_simps [simp]:
  "pg_stream p [] = []"
  "pg_stream p (t # ts) = fst (pg_next t p) # pg_stream (p + 1) ts"
  by (simp_all add: pg_stream_def Let_def split_beta)

lemma length_pg_stream [simp]: "length (pg_stream p ts) = length ts"
  by (simp add: pg_stream_def)

lemma pg_next_accepted: "pg_accepts E user_schema (fst (pg_next now p))"
  using f64_of_nat_Ints fract_eq_0_iff
  by (auto simp: pg_accepts_def validate_against_def user_schema_def schema_fields_def watermark_table_def
      validate_field_def check_field_type_def pg_next_def Let_def)

lemma pg_stream_accepted: "e \<in> set (pg_stream p ts) \<Longrightarrow> pg_accepts E user_schema e"
  by (induction ts arbitrary: p) (auto simp: pg_next_accepted)

lemma pg_next_nat:
  assumes "unat p + 1 < 2 ^ 64"
  shows "operation (fst (pg_next now p)) =
      (if (unat p + 1) mod 4 = 0 then Commit else if (unat p + 1) mod 4 = 1 then Create else Update)"
    and "transaction_id (fst (pg_next now p)) = Some (''tx-'' @ show_nat (unat p div 4 + 1000))"
    and "offset (fst (pg_next now p)) = show_nat (unat p + 1)"
proof -
  have n: "unat (p + 1) = unat p + 1" using assms by (subst unat_plus_if') simp
  have m: "(p + 1) mod 4 = 0 \<longleftrightarrow> (unat p + 1) mod 4 = 0" "(p + 1) mod 4 = 1 \<longleftrightarrow> (unat p + 1) mod 4 = 1"
    by (simp_all add: word_unat_eq_iff unat_mod n)
  have "unat (p div 4) = unat p div 4" by (simp add: unat_div)
  moreover have "unat p div 4 + 1000 < 2 ^ 64" using assms by simp
  ultimately have d: "unat (p div 4 + 1000) = unat p div 4 + 1000" by (subst unat_plus_if') simp
  show "operation (fst (pg_next now p)) =
      (if (unat p + 1) mod 4 = 0 then Commit else if (unat p + 1) mod 4 = 1 then Create else Update)"
    by (simp add: pg_next_def Let_def m)
  show "transaction_id (fst (pg_next now p)) = Some (''tx-'' @ show_nat (unat p div 4 + 1000))"
    by (simp add: pg_next_def Let_def d)
  show "offset (fst (pg_next now p)) = show_nat (unat p + 1)" by (simp add: n)
qed

section \<open>What the transaction buffer releases of the stream\<close>

lemma unat_next: "unat p + 1 < 2 ^ 64 \<Longrightarrow> unat (p + 1 :: u64) = unat p + 1"
  by (subst unat_plus_if') simp

lemma tx_block:
  assumes "\<forall>e \<in> {e1, e2, e3}. transaction_id e = Some tx \<and> (operation e = Create \<or> operation e = Update)"
    and "transaction_id e4 = Some tx" and "operation e4 = Commit"
  shows "feed tx_process [] (e1 # e2 # e3 # e4 # es) =
     (let (ys, b) = feed tx_process [] es in ([] # [] # [] # [e1, e2, e3] # ys, b))"
proof -
  have "tx_process [] e1 = ([], [(tx, [e1])])" "tx_process [(tx, [e1])] e2 = ([], [(tx, [e1, e2])])"
    "tx_process [(tx, [e1, e2])] e3 = ([], [(tx, [e1, e2, e3])])"
    "tx_process [(tx, [e1, e2, e3])] e4 = ([e1, e2, e3], [])"
    using assms by (auto simp: tx_process_def hm_insert_def hm_remove_def)
  then show ?thesis by (simp add: Let_def split_beta)
qed

lemma tx_open:
  assumes "\<forall>e \<in> set es. transaction_id e \<noteq> None \<and> operation e \<noteq> Commit"
  shows "concat (fst (feed tx_process b es)) = []"
  using assms
proof (induction es arbitrary: b)
  case (Cons e es)
  then have "fst (tx_process b e) = []" by (auto simp: output_step)
  with Cons show ?case by (simp add: Let_def split_beta)
qed simp

lemma mutation_offsets_block:
  assumes "k < m"
  shows "mutation_offsets (4 * k + 1) (4 * m + 1) =
     show_nat (4 * k + 1) # show_nat (4 * k + 2) # show_nat (4 * k + 3)
     # mutation_offsets (4 * Suc k + 1) (4 * m + 1)"
proof -
  have "[4 * k + 1..<4 * m + 1] =
      (4 * k + 1) # (4 * k + 2) # (4 * k + 3) # (4 * k + 4) # [4 * Suc k + 1..<4 * m + 1]"
    using assms by (simp add: upt_conv_Cons eval_nat_numeral del: upt_Suc)
  then show ?thesis by (simp add: mutation_offsets_def mod_simps del: upt_Suc) presburger
qed

lemma mutation_offsets_skip:
  assumes "m mod 4 = 0"
  shows "mutation_offsets m h = mutation_offsets (m + 1) h"
proof (cases "m < h")
  case True
  then show ?thesis using assms by (simp add: mutation_offsets_def upt_conv_Cons del: upt_Suc)
qed (simp add: mutation_offsets_def)

lemma mutation_offsets_append:
  "lo \<le> mid \<Longrightarrow> mid \<le> hi \<Longrightarrow> mutation_offsets lo mid @ mutation_offsets mid hi = mutation_offsets lo hi"
  unfolding mutation_offsets_def map_append [symmetric] filter_append [symmetric]
  by (metis le_add_diff_inverse upt_add_eq_append)

lemma short_stream:
  assumes "unat p + length ts < 2 ^ 64" and "unat p mod 4 = 0" and "length ts < 4" and "e \<in> set (pg_stream p ts)"
  shows "transaction_id e \<noteq> None \<and> operation e \<noteq> Commit"
proof -
  obtain i where i: "i < length ts" "e = fst (pg_next (ts ! i) (p + of_nat i))"
    using assms(4) pg.stream_nth [of p ts] by (auto simp: pg_stream_def)
  have "unat (p + of_nat i) = unat p + i"
  proof -
    have "unat (of_nat i :: u64) = i" using i(1) assms(3) by (simp only: unat_of_nat) simp
    then show ?thesis using i(1) assms(1) by (subst unat_plus_if') simp
  qed
  moreover have "unat p + i + 1 < 2 ^ 64" using i(1) assms(1) by linarith
  moreover have "(unat p + i + 1) mod 4 \<noteq> 0" using assms(2,3) i(1) by presburger
  ultimately show ?thesis using pg_next_nat(1,2) [of "p + of_nat i" "ts ! i"] by (simp add: i(2))
qed

lemma pg_next_in_block:
  assumes "unat p = 4 * k + r" and "r < 4" and "4 * k + r + 1 < 2 ^ 64"
  shows "operation (fst (pg_next now p)) = (if r = 3 then Commit else if r = 0 then Create else Update)
    \<and> transaction_id (fst (pg_next now p)) = Some (''tx-'' @ show_nat (k + 1000))
    \<and> offset (fst (pg_next now p)) = show_nat (4 * k + (r + 1))"
proof -
  have "(4 * k + r + 1) mod 4 = 0 \<longleftrightarrow> r = 3" "(4 * k + r + 1) mod 4 = 1 \<longleftrightarrow> r = 0" "(4 * k + r) div 4 = k"
    using assms(2) by presburger+
  then show ?thesis using pg_next_nat [of p now] assms(1,3) by (simp add: add.assoc)
qed

lemma released_aligned:
  assumes "unat p = 4 * k" and "unat p + length ts < 2 ^ 64"
  shows "map offset (concat (fst (feed tx_process [] (pg_stream p ts)))) =
     mutation_offsets (unat p + 1) (committed (unat p + length ts) + 1)"
  using assms
proof (induction "length ts" arbitrary: p k ts rule: less_induct)
  case less
  show ?case
  proof (cases "length ts < 4")
    case True
    then have "concat (fst (feed tx_process [] (pg_stream p ts))) = []"
      using less.prems by (intro tx_open) (auto dest!: short_stream [rotated 3])
    moreover have "committed (unat p + length ts) = unat p"
      using True less.prems(1) by (simp add: committed_def)
    ultimately show ?thesis by (simp add: mutation_offsets_def)
  next
    case False
    then obtain a b c d us where ts: "ts = a # b # c # d # us"
    proof -
      have "Suc (Suc (Suc (Suc 0))) \<le> length ts" using False by simp
      then show ?thesis using that by (auto simp: Suc_le_length_iff)
    qed
    let ?p1 = "p + 1" let ?p2 = "?p1 + 1" let ?p3 = "?p2 + 1" let ?p4 = "?p3 + 1"
    have "unat ?p1 = unat p + 1" by (rule unat_next) (use less.prems in \<open>simp add: ts\<close>)
    moreover from this have "unat ?p2 = unat ?p1 + 1"
      by (intro unat_next) (use less.prems in \<open>simp add: ts\<close>)
    moreover from calculation have "unat ?p3 = unat ?p2 + 1"
      by (intro unat_next) (use less.prems in \<open>simp add: ts\<close>)
    moreover from calculation have "unat ?p4 = unat ?p3 + 1"
      by (intro unat_next) (use less.prems in \<open>simp add: ts\<close>)
    ultimately have n: "unat ?p1 = 4 * k + 1" "unat ?p2 = 4 * k + 2" "unat ?p3 = 4 * k + 3" "unat ?p4 = 4 * k + 4"
      using less.prems(1) by linarith+
    then have n4: "unat ?p4 = 4 * Suc k" by (simp only: mult_Suc_right add.commute)
    let ?tx = "''tx-'' @ show_nat (k + 1000)"
    have bnd: "4 * k + 4 < 2 ^ 64" using less.prems by (simp add: ts)
    have ev: "operation (fst (pg_next a p)) = Create \<and> transaction_id (fst (pg_next a p)) = Some ?tx
          \<and> offset (fst (pg_next a p)) = show_nat (4 * k + 1)"
        "operation (fst (pg_next b ?p1)) = Update \<and> transaction_id (fst (pg_next b ?p1)) = Some ?tx
          \<and> offset (fst (pg_next b ?p1)) = show_nat (4 * k + 2)"
        "operation (fst (pg_next c ?p2)) = Update \<and> transaction_id (fst (pg_next c ?p2)) = Some ?tx
          \<and> offset (fst (pg_next c ?p2)) = show_nat (4 * k + 3)"
        "operation (fst (pg_next d ?p3)) = Commit \<and> transaction_id (fst (pg_next d ?p3)) = Some ?tx"
      using pg_next_in_block [of p k 0 a] pg_next_in_block [of ?p1 k 1 b, OF n(1)]
        pg_next_in_block [of ?p2 k 2 c, OF n(2)] pg_next_in_block [of ?p3 k 3 d, OF n(3)] less.prems(1) bnd
      by (simp_all del: pg_next_fields)
    have "map offset (concat (fst (feed tx_process [] (pg_stream p ts)))) =
        [show_nat (4 * k + 1), show_nat (4 * k + 2), show_nat (4 * k + 3)]
        @ map offset (concat (fst (feed tx_process [] (pg_stream ?p4 us))))"
    proof -
      have "feed tx_process [] (pg_stream p ts) =
          (let (ys, b') = feed tx_process [] (pg_stream ?p4 us)
           in ([] # [] # [] # [fst (pg_next a p), fst (pg_next b ?p1), fst (pg_next c ?p2)] # ys, b'))"
        unfolding ts pg_stream_simps by (rule tx_block [where tx = ?tx]) (use ev in blast)+
      then show ?thesis using ev by (simp add: Let_def split_beta del: pg_next_fields)
    qed
    also have "map offset (concat (fst (feed tx_process [] (pg_stream ?p4 us)))) =
        mutation_offsets (4 * Suc k + 1) (committed (unat p + length ts) + 1)"
    proof -
      have sum: "unat p + length ts = unat ?p4 + length us" unfolding n4 using less.prems(1) by (simp add: ts)
      have "length us < length ts" by (simp add: ts)
      moreover have "unat ?p4 + length us < 2 ^ 64" using less.prems(2) sum by linarith
      ultimately show ?thesis using less.hyps [OF _ n4, of us] unfolding sum n4 by blast
    qed
    also have "[show_nat (4 * k + 1), show_nat (4 * k + 2), show_nat (4 * k + 3)]
        @ mutation_offsets (4 * Suc k + 1) (committed (unat p + length ts) + 1) =
        mutation_offsets (unat p + 1) (committed (unat p + length ts) + 1)"
      using mutation_offsets_block [of k "(unat p + length ts) div 4"] less.prems(1)
      by (simp add: committed_def ts)
    finally show ?thesis .
  qed
qed

text \<open>The same from the position a checkpoint leaves behind, one before a commit.\<close>

lemma released:
  assumes "unat p mod 4 = 0 \<or> unat p mod 4 = 3" and "unat p + length ts < 2 ^ 64"
  shows "map offset (concat (fst (feed tx_process [] (pg_stream p ts)))) =
     mutation_offsets (unat p + 1) (committed (unat p + length ts) + 1)"
proof (cases "unat p mod 4 = 0")
  case True
  then obtain k where "unat p = 4 * k" by (metis mod_0_imp_dvd dvdE)
  from released_aligned [OF this assms(2)] show ?thesis .
next
  case False
  then have "unat p mod 4 = 3" using assms(1) by simp
  then obtain k where p: "unat p = 4 * k + 3" by (metis div_mult_mod_eq mult.commute)
  show ?thesis
  proof (cases ts)
    case Nil
    then show ?thesis by (simp add: mutation_offsets_def committed_def p)
  next
    case (Cons t us)
    have n: "unat (p + 1) = unat p + 1" by (rule unat_next) (use assms(2) Cons in simp)
    have "operation (fst (pg_next t p)) = Commit \<and> transaction_id (fst (pg_next t p)) = Some (''tx-'' @ show_nat (k + 1000))"
      using pg_next_in_block [OF p, of t] assms(2) Cons p by simp
    then have "tx_process [] (fst (pg_next t p)) = ([], [])" by (simp add: tx_process_def)
    then have "concat (fst (feed tx_process [] (pg_stream p ts))) = concat (fst (feed tx_process [] (pg_stream (p + 1) us)))"
      by (simp add: Cons Let_def split_beta)
    also have "map offset \<dots> = mutation_offsets (unat (p + 1) + 1) (committed (unat (p + 1) + length us) + 1)"
      by (rule released_aligned [where k = "Suc k"]) (use n p assms(2) Cons in simp_all)
    also have "\<dots> = mutation_offsets (unat p + 1) (committed (unat p + length ts) + 1)"
    proof -
      have "unat (p + 1) + length us = unat p + length ts" unfolding n by (simp add: Cons)
      moreover have "(unat p + 1) mod 4 = 0" by (simp add: p)
      ultimately show ?thesis unfolding n using mutation_offsets_skip [of "unat p + 1"] by metis
    qed
    finally show ?thesis .
  qed
qed

section \<open>One session\<close>

lemma mutation_offsets_last:
  assumes "1 \<le> m" and "lo < 4 * m"
  shows "mutation_offsets lo (4 * m + 1) \<noteq> [] \<and> last (mutation_offsets lo (4 * m + 1)) = show_nat (4 * m - 1)"
proof -
  obtain n where n: "4 * m = Suc n" using assms(1) by (cases "4 * m") auto
  have "[lo..<4 * m + 1] = [lo..<4 * m - 1] @ [4 * m - 1, 4 * m]"
    using assms(2) unfolding n by simp
  moreover have "(4 * m - 1) mod 4 \<noteq> 0" using assms(1) by presburger
  ultimately show ?thesis by (simp add: mutation_offsets_def del: upt_Suc)
qed

lemma last_offset_get:
  "last_offset E d src = (case get_offset (rocks E) d src of Inr r \<Rightarrow> r | Inl _ \<Rightarrow> None)"
  by (simp add: last_offset_def resume_checkpoint_offset_def split: sum.split option.split)

lemma session_result:
  assumes "healthy E" and "get_schema (rocks E) (schema_codec E) d ''postgres_users'' = Ok (Some user_schema)"
    and "pg_session E d b ts rs"
    and "unat (resume_position E d) mod 4 = 0 \<or> unat (resume_position E d) mod 4 = 3"
    and "unat (resume_position E d) + length ts < 2 ^ 64"
    and p_def: "p = unat (resume_position E d)" and s_def: "s = pg_run E (pipeline_new d fo b) rs"
  shows "task s = Running" and "dead_letters s = []"
    and "map offset (sent s) = mutation_offsets (p + 1) (committed (p + length ts) + 1)"
    and "get_schema (rocks E) (schema_codec E) (store s) ''postgres_users'' = Ok (Some user_schema)"
    and "unat (resume_position E (store s)) = (if committed (p + length ts) \<le> p then p else committed (p + length ts) - 1)"
proof -
  let ?evs = "pg_stream (resume_position E d) ts"
  let ?out = "concat (fst (feed tx_process tx_new ?evs))"
  obtain ns where ns: "map limiter_readings rs = map (\<lambda>n. [n]) ns" "spaced (last_refill b) ns"
    and ses: "map item rs = map Inr ?evs" "\<forall>r \<in> set rs. leading r" "limiter_fit b"
      "\<forall>e \<in> set ?evs. pg_accepts E user_schema e \<and> passes_through E e"
    using assms(3) pg_stream_accepted unfolding pg_session_def by blast
  have "distinct (map ev_id ?evs)"
    unfolding pg_stream_def by (rule pg.stream_distinct) (use assms(5) in simp)
  from pg_run_delivered [OF assms(1,2) ses(1,2) ns(1) ses(3) ns(2) this ses(4), of fo]
  have d: "delivered E ''postgres_users'' ?out (pipeline_new d fo b) s" and run: "task s = Running"
    by (simp_all add: s_def)
  show "task s = Running" by (rule run)
  show "dead_letters s = []" "get_schema (rocks E) (schema_codec E) (store s) ''postgres_users'' = Ok (Some user_schema)"
    using d assms(2) by (simp_all add: delivered_def)
  have sent: "sent s = ?out" using d by (simp add: delivered_def)
  show offs: "map offset (sent s) = mutation_offsets (p + 1) (committed (p + length ts) + 1)"
    unfolding sent p_def tx_new_def by (rule released [OF assms(4,5)])
  obtain m where m: "committed (p + length ts) = 4 * m" by (simp add: committed_def)
  show "unat (resume_position E (store s)) = (if committed (p + length ts) \<le> p then p else committed (p + length ts) - 1)"
  proof (cases "mutation_offsets (p + 1) (4 * m + 1) = []")
    case True
    then have "?out = []" using offs sent m by simp
    then have "resume_position E (store s) = resume_position E d"
      using d by (simp add: delivered_def resume_position_def last_offset_get)
    moreover have "4 * m \<le> p \<or> 4 * m - 1 = p"
      using True mutation_offsets_last [of m "p + 1"] by linarith
    ultimately show ?thesis by (simp add: m p_def [symmetric]) linarith
  next
    case False
    then obtain i where "p + 1 \<le> i" "i < 4 * m + 1" "i mod 4 \<noteq> 0"
      by (auto simp: mutation_offsets_def filter_empty_conv simp del: upt_Suc)
    moreover from this have "i \<noteq> 4 * m" by auto
    ultimately have "p + 1 < 4 * m" "1 \<le> m" by linarith+
    then have "last (mutation_offsets (p + 1) (4 * m + 1)) = show_nat (4 * m - 1)"
      using mutation_offsets_last by blast
    moreover have "?out \<noteq> []" using False offs sent m by (metis list.map_disc_iff)
    ultimately have "offset (last ?out) = show_nat (4 * m - 1)"
      using offs sent m by (metis last_map)
    then have "get_offset (rocks E) (store s) ''postgres_users'' = Ok (Some (show_nat (4 * m - 1)))"
      using d \<open>?out \<noteq> []\<close> unfolding delivered_def by (simp del: concat_eq_Nil_conv)
    moreover have "unat (of_nat (4 * m - 1) :: u64) = 4 * m - 1"
    proof -
      have "4 * m - 1 < 2 ^ 64" using m assms(5) unfolding committed_def p_def by linarith
      then show ?thesis by (simp only: unat_of_nat) simp
    qed
    ultimately have "resume_position E (store s) = of_nat (4 * m - 1)"
      using parse_u64_show [of "of_nat (4 * m - 1)"]
      by (simp add: resume_position_def last_offset_get start_position_def)
    then show ?thesis
      using \<open>unat (of_nat (4 * m - 1) :: u64) = 4 * m - 1\<close> \<open>p + 1 < 4 * m\<close> by (simp add: m)
  qed
qed

section \<open>Any number of sessions\<close>

lemma restarts_transactions:
  assumes "restarts E d0 d out" and "healthy E"
    and "get_schema (rocks E) (schema_codec E) d0 ''postgres_users'' = Ok (Some user_schema)"
    and "get_offset (rocks E) d0 ''postgres_users'' = Ok None"
  shows "get_schema (rocks E) (schema_codec E) d ''postgres_users'' = Ok (Some user_schema)
    \<and> (\<exists>m. map offset out = mutation_offsets 1 (4 * m + 1) \<and> unat (resume_position E d) = 4 * m - 1)"
  using assms(1)
proof induction
  case first_start
  have "resume_position E d0 = 0"
    by (simp add: resume_position_def last_offset_get start_position_def assms(4))
  then show ?case using assms(3) by (auto simp: mutation_offsets_def intro: exI [of _ 0])
next
  case (restart d out b ts rs s fo)
  then obtain m where sch: "get_schema (rocks E) (schema_codec E) d ''postgres_users'' = Ok (Some user_schema)"
    and m: "map offset out = mutation_offsets 1 (4 * m + 1)" "unat (resume_position E d) = 4 * m - 1" by blast
  have "(4 * m - 1) mod 4 = 0 \<or> (4 * m - 1) mod 4 = 3"
  proof (cases m)
    case (Suc k)
    then have "4 * m - 1 = 4 * k + 3" by simp
    then show ?thesis by simp
  qed simp
  then have al: "unat (resume_position E d) mod 4 = 0 \<or> unat (resume_position E d) mod 4 = 3" by (simp add: m(2))
  note res = session_result [OF assms(2) sch restart.hyps(2) al restart.hyps(3) refl restart.hyps(4)]
  obtain n where n: "committed (4 * m - 1 + length ts) = 4 * n" by (simp add: committed_def)
  show ?case
  proof (cases "4 * n \<le> 4 * m - 1")
    case True
    then have "mutation_offsets (4 * m - 1 + 1) (4 * n + 1) = []"
      using True by (cases m) (simp_all add: mutation_offsets_def)
    then have "map offset (out @ sent s) = mutation_offsets 1 (4 * m + 1)"
      using res(3) m n by simp
    moreover have "unat (resume_position E (store s)) = 4 * m - 1" using res(5) m(2) n True by simp
    ultimately show ?thesis using res(4) by blast
  next
    case False
    then have le: "m \<le> n" "1 \<le> n" by linarith+
    have "mutation_offsets (4 * m - 1 + 1) (4 * n + 1) = mutation_offsets (4 * m + 1) (4 * n + 1)"
      using mutation_offsets_skip [of "4 * m" "4 * n + 1"] by (cases m) simp_all
    then have "map offset (out @ sent s) = mutation_offsets 1 (4 * n + 1)"
      using res(3) m n mutation_offsets_append [of 1 "4 * m + 1" "4 * n + 1"] le(1) by simp
    moreover have "unat (resume_position E (store s)) = 4 * n - 1" using res(5) m(2) n False by simp
    ultimately show ?thesis using res(4) by blast
  qed
qed

text \<open>A session over a new store, one transaction long, for closed examples.\<close>

definition demo_ts :: "int list" where
  "demo_ts = [0, 0, 0, 0]"

definition demo_pg_env :: "(bytes \<Rightarrow> bytes option, unit, nat \<Rightarrow> u8) env" where
  "demo_pg_env = demo_env (pg_stream 0 demo_ts)"

definition demo_store :: "bytes \<Rightarrow> bytes option" where
  "demo_store = register_user_schema demo_pg_env Map.empty"

definition demo_rounds :: "string round list" where
  "demo_rounds = map2 demo_round [1, 2, 3, 4] (pg_stream 0 demo_ts)"

lemma demo_offsets: "map offset (pg_stream 0 demo_ts) = [''1'', ''2'', ''3'', ''4'']"
  unfolding demo_ts_def by code_simp

lemma demo_store_facts:
  "get_schema (rocks demo_pg_env) (schema_codec demo_pg_env) demo_store ''postgres_users'' = Ok (Some user_schema)"
  "get_offset (rocks demo_pg_env) demo_store ''postgres_users'' = Ok None"
  "resume_position demo_pg_env demo_store = 0"
proof -
  show "get_schema (rocks demo_pg_env) (schema_codec demo_pg_env) demo_store ''postgres_users'' = Ok (Some user_schema)"
    unfolding demo_store_def demo_pg_env_def by (rule demo_schema_registered)
  show no: "get_offset (rocks demo_pg_env) demo_store ''postgres_users'' = Ok None"
    by (simp add: demo_store_def demo_pg_env_def demo_env_def register_user_schema_def register_schema_def
        get_schema_def save_schema_def mem_rocksdb_def demo_codec_def get_offset_def)
  show "resume_position demo_pg_env demo_store = 0"
    by (simp add: resume_position_def last_offset_get start_position_def no)
qed

lemma demo_session: "pg_session demo_pg_env demo_store (engine_limiter 0) demo_ts demo_rounds"
proof -
  let ?es = "pg_stream 0 demo_ts"
  have len: "length ?es = 4" by (simp add: demo_ts_def)
  have "distinct (map as_bytes (map offset ?es))"
    unfolding demo_offsets by (simp add: as_bytes_def byte_of_char_def)
  then have inj: "inj_on (\<lambda>e. as_bytes (offset e)) (set ?es)" by (simp add: distinct_map comp_def)
  have "offset e \<in> {''1'', ''2'', ''3'', ''4''}" if "e \<in> set ?es" for e
  proof -
    have "offset e \<in> set (map offset ?es)" using that by simp
    then show ?thesis unfolding demo_offsets by simp
  qed
  then have "\<forall>e \<in> set ?es. length (offset e) \<le> page \<and> (\<forall>c \<in> set (offset e). of_char c < (128 :: nat))"
    by (force simp: page_def)
  then have "\<forall>e \<in> set ?es. passes_through demo_pg_env e"
    using demo_passes [OF _ inj] unfolding demo_pg_env_def by blast
  moreover have "map item demo_rounds = map Inr ?es" "\<forall>r \<in> set demo_rounds. leading r"
    "map limiter_readings demo_rounds = map (\<lambda>n. [n]) [500000000, 1000000000, 1500000000, 2000000000]"
    by (simp_all add: demo_rounds_def demo_ts_def demo_round_def from_millis_def)
  moreover have "spaced (last_refill (engine_limiter 0)) [500000000, 1000000000, 1500000000, 2000000000]"
    by (simp add: engine_limiter_def bucket_new_def from_millis_def)
  ultimately show ?thesis
    unfolding pg_session_def demo_store_facts(3) using engine_limiter_fit by blast
qed

section \<open>Properties\<close>

text \<open>
  A session of the PostgreSQL task. Started over a store whose checkpoint lies at a
  transaction boundary or one before a commit, after \<open>n\<close> events the task runs, has sent
  exactly the mutations of the transactions complete by then, in order, none twice, has written
  no dead letter, and a restart would resume right after the last mutation sent.
\<close>

theorem pg_session_end_to_end:
  assumes "healthy E" and "get_schema (rocks E) (schema_codec E) d ''postgres_users'' = Ok (Some user_schema)"
    and "pg_session E d b ts rs"
    and "unat (resume_position E d) mod 4 = 0 \<or> unat (resume_position E d) mod 4 = 3"
    and "unat (resume_position E d) + length ts < 2 ^ 64"
  shows "let p = unat (resume_position E d); s = pg_run E (pipeline_new d fo b) rs;
             c = committed (p + length ts)
         in task s = Running \<and> dead_letters s = []
            \<and> map offset (sent s) = mutation_offsets (p + 1) (c + 1)
            \<and> unat (resume_position E (store s)) = (if c \<le> p then p else c - 1)"
  using session_result [OF assms refl refl] by (simp add: Let_def)

theorem pg_session_end_to_end_witness:
  "let s = pg_run demo_pg_env (pipeline_new demo_store (engine_failover 0) (engine_limiter 0)) demo_rounds
   in task s = Running \<and> map offset (sent s) = map show_nat [1, 2, 3]
      \<and> unat (resume_position demo_pg_env (store s)) = 3"
proof -
  have h: "healthy demo_pg_env" unfolding demo_pg_env_def by (rule demo_env_healthy)
  have c: "committed (0 + length demo_ts) = 4" by (simp add: committed_def demo_ts_def)
  have "[1..<5] = [1, 2, 3, 4 :: nat]" by code_simp
  then have m: "mutation_offsets 1 5 = map show_nat [1, 2, 3]" by (simp add: mutation_offsets_def)
  from pg_session_end_to_end [OF h demo_store_facts(1) demo_session, of "engine_failover 0"]
  show ?thesis using c m by (simp add: demo_store_facts(3) Let_def demo_ts_def)
qed



end
