(* ===== verification/Engine.thy ===== *)
theory Engine
  imports Delivery_Trace End_To_End
begin

text \<open>
  \<^verbatim>\<open>src/src/main.rs\<close> as a whole: the two replication tasks interleaved over the state store,
  the limiter and the failover controller they share, and crashes at any point. A task is a
  machine that stops at every point where it awaits or touches shared state; an action names the
  next step and carries what the task reads from a clock or from the leader flag. A schedule is a
  list of actions, so the theorems range over all interleavings and all crash points.
\<close>

section \<open>One task, step by step\<close>

text \<open>Where a task is: awaiting the stream, holding an item before the leader check, the
  heartbeat, the limiter and the match, or somewhere in the loop over the mutations.\<close>

datatype 'e pc =
    Idle
  | Received "('e, change_event) result"
  | Leading "('e, change_event) result"
  | Limiting "('e, change_event) result"
  | Admitted "('e, change_event) result"
  | Delivering "change_event list"
  | Echoing change_event "change_event list"
  | Saving change_event "change_event list"
  | Recording change_event "change_event list"

datatype 'c action =
    Next 'c
  | Check bool
  | Beat instant
  | Acquire instant
  | Handle int
  | Send int
  | Echo
  | Save
  | Record int duration

record ('db, 'e) machine =
  pipe :: "'db pipeline"
  pc :: "'e pc"
  pos :: u64

definition continue :: "change_event list \<Rightarrow> 'e pc" where
  "continue mutations = (if mutations = [] then Idle else Delivering mutations)"

definition machine_step ::
    "('db, 'm, 's) env \<Rightarrow> string \<Rightarrow> ('c \<Rightarrow> u64 \<Rightarrow> ('e, change_event) result \<times> u64)
     \<Rightarrow> (int \<Rightarrow> change_event \<Rightarrow> 'db pipeline \<Rightarrow> change_event list \<times> 'db pipeline)
     \<Rightarrow> 'c action \<Rightarrow> ('db, 'e) machine \<Rightarrow> ('db, 'e) machine option" where
  "machine_step E src next_item prepare a m =
     (if task (pipe m) \<noteq> Running then None
      else case a of
        Next c \<Rightarrow>
          (case pc m of
             Idle \<Rightarrow> (let (r, p) = next_item c (pos m) in Some (m\<lparr>pc := Received r, pos := p\<rparr>))
           | _ \<Rightarrow> None)
      | Check leader \<Rightarrow>
          (case pc m of
             Received r \<Rightarrow> Some (m\<lparr>pc := (if leader then Leading r else Idle)\<rparr>)
           | _ \<Rightarrow> None)
      | Beat t \<Rightarrow>
          (case pc m of
             Leading r \<Rightarrow>
               Some (m\<lparr>pc := Limiting r, pipe := (pipe m)\<lparr>failover := record_heartbeat (failover (pipe m)) t\<rparr>\<rparr>)
           | _ \<Rightarrow> None)
      | Acquire t \<Rightarrow>
          (case pc m of
             Limiting r \<Rightarrow>
               Some (case acquire (limiter (pipe m)) 1 [t] of
                       Acquired b \<Rightarrow> m\<lparr>pc := Admitted r, pipe := (pipe m)\<lparr>limiter := b\<rparr>\<rparr>
                     | Waiting b \<Rightarrow> m\<lparr>pipe := (pipe m)\<lparr>limiter := b\<rparr>\<rparr>
                     | Panicked b \<Rightarrow> m\<lparr>pipe := (pipe m)\<lparr>limiter := b, task := Dead\<rparr>\<rparr>)
           | _ \<Rightarrow> None)
      | Handle now \<Rightarrow>
          (case pc m of
             Admitted (Inr event) \<Rightarrow>
               (let (mutations, s) = prepare now event (pipe m)
                in Some (m\<lparr>pc := continue mutations, pipe := s\<rparr>))
           | Admitted (Inl _) \<Rightarrow> Some (m\<lparr>pipe := (pipe m)\<lparr>task := Ended\<rparr>\<rparr>)
           | _ \<Rightarrow> None)
      | Send now \<Rightarrow>
          (case pc m of
             Delivering (e # es) \<Rightarrow>
               Some (case transform (wasm E) (event_json_codec E) (wasm_module E) e of
                       None \<Rightarrow> m\<lparr>pipe := (pipe m)\<lparr>task := Dead\<rparr>\<rparr>
                     | Some (Inr transformed) \<Rightarrow>
                         m\<lparr>pc := Echoing transformed es, pipe := send_event E transformed (pipe m)\<rparr>
                     | Some (Inl err) \<Rightarrow>
                         m\<lparr>pc := continue es,
                           pipe := dead_letter E e (transform_message (access_message E) err) ''WasmTransform''
                             now (pipe m)\<rparr>)
           | _ \<Rightarrow> None)
      | Echo \<Rightarrow>
          (case pc m of
             Echoing t es \<Rightarrow> Some (m\<lparr>pc := Saving t es, pipe := echo_event t (pipe m)\<rparr>)
           | _ \<Rightarrow> None)
      | Save \<Rightarrow>
          (case pc m of
             Saving t es \<Rightarrow> Some (m\<lparr>pc := Recording t es, pipe := save_checkpoint E src t (pipe m)\<rparr>)
           | _ \<Rightarrow> None)
      | Record now elapsed \<Rightarrow>
          (case pc m of
             Recording t es \<Rightarrow>
               Some (m\<lparr>pc := continue es, pipe := record_delivery E (now, elapsed) t (pipe m)\<rparr>)
           | _ \<Rightarrow> None))"

definition pg_item :: "int \<Rightarrow> u64 \<Rightarrow> (postgres_error, change_event) result \<times> u64" where
  "pg_item now seq = (let (event, next_seq) = pg_next now seq in (Ok event, next_seq))"

definition cass_item ::
    "(int \<Rightarrow> string) \<Rightarrow> int \<times> int \<Rightarrow> u64 \<Rightarrow> (cassandra_error, change_event) result \<times> u64" where
  "cass_item to_rfc3339 now p = (let (event, next_pos) = cas_next to_rfc3339 now p in (Ok event, next_pos))"

section \<open>Both tasks\<close>

text \<open>\<open>pg_past\<close> and \<open>cass_past\<close> are the events sent before the last start.\<close>

record 'db engine =
  pg_task :: "('db, postgres_error) machine"
  cass_task :: "('db, cassandra_error) machine"
  pg_past :: "change_event list"
  cass_past :: "change_event list"

text \<open>What the process reads when it starts: the clock of the heartbeat and of the limiter, and
  the seeds of the two retry loops.\<close>

record boot_readings =
  boot_beat :: instant
  boot_limiter :: instant
  boot_seeds :: "nat \<Rightarrow> u64"

datatype engine_action = Pg "int action" | Cass "(int \<times> int) action" | Crash boot_readings

definition boot_task ::
    "(('e, u64) retry_outcome \<times> 'x) \<Rightarrow> 'db \<Rightarrow> failover_controller \<Rightarrow> token_bucket \<Rightarrow> ('db, 'e) machine" where
  "boot_task started d fo b =
     (case fst started of
        retry_outcome.Returned (Inr p) \<Rightarrow> \<lparr>pipe = pipeline_new d fo b, pc = Idle, pos = p\<rparr>
      | retry_outcome.Returned (Inl e) \<Rightarrow> \<lparr>pipe = (pipeline_new d fo b)\<lparr>task := Ended\<rparr>, pc = Idle, pos = 0\<rparr>
      | Overflow \<Rightarrow> \<lparr>pipe = (pipeline_new d fo b)\<lparr>task := Dead\<rparr>, pc = Idle, pos = 0\<rparr>)"

definition boot ::
    "('db, 'm, 's) env \<Rightarrow> boot_readings \<Rightarrow> 'db \<Rightarrow> change_event list \<Rightarrow> change_event list \<Rightarrow> 'db engine" where
  "boot E rd d pgs cas =
     (let d = register_user_schema E d; fo = engine_failover (boot_beat rd); b = engine_limiter (boot_limiter rd) in
      \<lparr>pg_task = boot_task (pg_start_stream (boot_seeds rd) (last_offset E d ''postgres_users'') 0) d fo b,
       cass_task = boot_task (cas_start_stream (boot_seeds rd) (last_offset E d ''cassandra_sensors'') 0) d fo b,
       pg_past = pgs, cass_past = cas\<rparr>)"

text \<open>
  The start of \<open>main\<close>: a metrics exporter that fails is only reported, a store or a module that
  fails ends the process. The second component is what it prints of the exporter.
\<close>

datatype start_error = StoreFailed storage_error | ModuleFailed transform_error

definition main_start ::
    "('db, 'm, 's) env \<Rightarrow> (string \<Rightarrow> (string, unit) result) \<Rightarrow> (string \<Rightarrow> (string, 'db) result) \<Rightarrow> bytes \<Rightarrow> boot_readings
     \<Rightarrow> (start_error, 'db engine) result \<times> string list" where
  "main_start E install db_open wat rd =
     (let lines = snd (init_metrics install 9000) in
      case state_store_new db_open ''./data/caminus_state'' of
        Inl e \<Rightarrow> (Err (StoreFailed e), lines)
      | Inr d \<Rightarrow>
          (case transformer_new (wasm E) wat of
             Inl e \<Rightarrow> (Err (ModuleFailed e), lines)
           | Inr m \<Rightarrow> (Ok (boot (E\<lparr>wasm_module := m\<rparr>) rd d [] []), lines)))"

text \<open>Both tasks hold the same store, failover controller and limiter.\<close>

definition share :: "'db pipeline \<Rightarrow> ('db, 'e) machine \<Rightarrow> ('db, 'e) machine" where
  "share s m = m\<lparr>pipe := (pipe m)\<lparr>store := store s, failover := failover s, limiter := limiter s\<rparr>\<rparr>"

definition all_pg_sent :: "'db engine \<Rightarrow> change_event list" where
  "all_pg_sent g = pg_past g @ sent (pipe (pg_task g))"

definition all_cass_sent :: "'db engine \<Rightarrow> change_event list" where
  "all_cass_sent g = cass_past g @ sent (pipe (cass_task g))"

fun engine_step ::
    "('db, 'm, 's) env \<Rightarrow> (int \<Rightarrow> string) \<Rightarrow> engine_action \<Rightarrow> 'db engine \<Rightarrow> 'db engine option" where
  "engine_step E fmt (Pg a) g =
     map_option (\<lambda>m. g\<lparr>pg_task := m, cass_task := share (pipe m) (cass_task g)\<rparr>)
       (machine_step E ''postgres_users'' pg_item (pg_prepare E) a (pg_task g))"
| "engine_step E fmt (Cass a) g =
     map_option (\<lambda>m. g\<lparr>cass_task := m, pg_task := share (pipe m) (pg_task g)\<rparr>)
       (machine_step E ''cassandra_sensors'' (cass_item fmt) (\<lambda>now. cass_prepare) a (cass_task g))"
| "engine_step E fmt (Crash rd) g =
     Some (boot E rd (store (pipe (pg_task g))) (all_pg_sent g) (all_cass_sent g))"

fun engine_run ::
    "('db, 'm, 's) env \<Rightarrow> (int \<Rightarrow> string) \<Rightarrow> engine_action list \<Rightarrow> 'db engine \<Rightarrow> 'db engine option" where
  "engine_run E fmt [] g = Some g"
| "engine_run E fmt (a # as) g = Option.bind (engine_step E fmt a g) (engine_run E fmt as)"

lemma main_start_ok:
  "fst (main_start E install db_open wat rd) = Ok g \<longleftrightarrow>
     (\<exists>d m. db_open ''./data/caminus_state'' = Ok d \<and> module_new (wasm E) wat = Ok m
        \<and> g = boot (E\<lparr>wasm_module := m\<rparr>) rd d [] [])"
  by (auto simp: main_start_def state_store_new_def transformer_new_def Let_def try_map_def split: sum.split)

end
