(* ===== verification/Task_Machine.thy ===== *)
theory Task_Machine
  imports Engine
begin

text \<open>
  One task of the engine, whatever the other does. The locale \<open>resumable_task\<close> states what a
  task's source and stages promise; inside it, what every step does to the position, the stages and
  the store is shown once for both tasks, which are its instances.
\<close>

section \<open>Positions\<close>

definition checkpoint_of :: "('db, 'm, 's) env \<Rightarrow> string \<Rightarrow> 'db \<Rightarrow> nat" where
  "checkpoint_of E src d = unat (start_position (last_offset E d src))"

text \<open>The offsets due between two positions.\<close>

definition kept :: "(nat \<Rightarrow> bool) \<Rightarrow> nat \<Rightarrow> nat \<Rightarrow> string list" where
  "kept keeps lo hi = map show_nat (filter keeps [lo..<hi])"

text \<open>Of the positions of the PostgreSQL stream every fourth is a commit.\<close>

definition mutation_position :: "nat \<Rightarrow> bool" where
  "mutation_position i \<longleftrightarrow> i mod 4 \<noteq> 0"

text \<open>A schedule in which the node leads, over the clock readings of a set.\<close>

fun admissible :: "'c set \<Rightarrow> 'c action \<Rightarrow> bool" where
  "admissible C (Next c) \<longleftrightarrow> c \<in> C"
| "admissible C (Check leader) \<longleftrightarrow> leader"
| "admissible C _ \<longleftrightarrow> True"

text \<open>The mutations a task still has to check off, whether one of them is sent and not yet saved,
  and the item it holds.\<close>

fun todo :: "'e pc \<Rightarrow> change_event list" where
  "todo (Delivering es) = es"
| "todo (Echoing t es) = t # es"
| "todo (Saving t es) = t # es"
| "todo (Recording t es) = es"
| "todo _ = []"

fun in_flight :: "'e pc \<Rightarrow> bool" where
  "in_flight (Echoing t es) \<longleftrightarrow> True"
| "in_flight (Saving t es) \<longleftrightarrow> True"
| "in_flight _ \<longleftrightarrow> False"

text \<open>The event sent and not yet saved, and the mutations not sent yet.\<close>

fun flight :: "'e pc \<Rightarrow> change_event option" where
  "flight (Echoing t es) = Some t"
| "flight (Saving t es) = Some t"
| "flight _ = None"

fun unsent :: "'e pc \<Rightarrow> change_event list" where
  "unsent (Delivering es) = es"
| "unsent (Echoing t es) = es"
| "unsent (Saving t es) = es"
| "unsent (Recording t es) = es"
| "unsent _ = []"

fun in_hand :: "'e pc \<Rightarrow> ('e, change_event) result option" where
  "in_hand (Received r) = Some r"
| "in_hand (Leading r) = Some r"
| "in_hand (Limiting r) = Some r"
| "in_hand (Admitted r) = Some r"
| "in_hand _ = None"

section \<open>Lemmas\<close>

lemma continue_simps [simp]:
  "todo (continue es) = es" "\<not> in_flight (continue es)" "in_hand (continue es) = None"
  "flight (continue es) = None" "unsent (continue es) = es"
  by (simp_all add: continue_def)

lemma todo_split: "todo p = (case flight p of None \<Rightarrow> unsent p | Some t \<Rightarrow> t # unsent p)"
  by (cases p) simp_all

lemma todo_cong: "flight p = flight q \<Longrightarrow> unsent p = unsent q \<Longrightarrow> todo p = todo q"
  by (simp add: todo_split split: option.split)

lemma in_flight_iff: "in_flight p \<longleftrightarrow> flight p \<noteq> None"
  by (cases p) simp_all

text \<open>Where the task is when a step is taken.\<close>

lemma step_at:
  assumes "machine_step E src next_item prepare a m = Some m'"
  shows "case a of
       Next c \<Rightarrow> pc m = Idle
     | Check l \<Rightarrow> \<exists>r. pc m = Received r
     | Beat t \<Rightarrow> \<exists>r. pc m = Leading r
     | Acquire t \<Rightarrow> \<exists>r. pc m = Limiting r
     | Handle now \<Rightarrow> \<exists>r. pc m = Admitted r
     | Send now \<Rightarrow> \<exists>e es. pc m = Delivering (e # es)
     | Echo \<Rightarrow> \<exists>t es. pc m = Echoing t es
     | Save \<Rightarrow> \<exists>t es. pc m = Saving t es
     | Record now elapsed \<Rightarrow> \<exists>t es. pc m = Recording t es"
  using assms by (cases a) (auto simp: machine_step_def split: pc.splits if_splits list.splits)

lemma show_nat_inject:
  assumes "i < 2 ^ 64" and "j < 2 ^ 64"
  shows "show_nat i = show_nat j \<longleftrightarrow> i = j"
proof -
  have "unat (of_nat i :: u64) = i" "unat (of_nat j :: u64) = j"
    using assms by (simp_all only: unat_of_nat) simp_all
  then show ?thesis using show_u64_inject [of "of_nat i" "of_nat j"] by metis
qed

lemma start_position_show:
  assumes "i < 2 ^ 64"
  shows "unat (start_position (Some (show_nat i))) = i"
proof -
  have "unat (of_nat i :: u64) = i" using assms by (simp only: unat_of_nat) simp
  then show ?thesis using parse_u64_show [of "of_nat i"] by (simp add: start_position_def)
qed

lemma kept_append: "lo \<le> mid \<Longrightarrow> mid \<le> hi \<Longrightarrow> kept keeps lo mid @ kept keeps mid hi = kept keeps lo hi"
  unfolding kept_def map_append [symmetric] filter_append [symmetric]
  by (metis le_add_diff_inverse upt_add_eq_append)

lemma kept_empty [simp]: "hi \<le> lo \<Longrightarrow> kept keeps lo hi = []"
  by (simp add: kept_def)

lemma kept_snoc: "lo \<le> hi \<Longrightarrow> kept keeps lo (Suc hi) = kept keeps lo hi @ (if keeps hi then [show_nat hi] else [])"
  by (simp add: kept_def)

lemma kept_Nil_iff: "kept keeps lo hi = [] \<longleftrightarrow> (\<forall>i. lo \<le> i \<and> i < hi \<longrightarrow> \<not> keeps i)"
  by (auto simp: kept_def filter_empty_conv)

section \<open>Interface\<close>

text \<open>
  What the engine relies on in a task. The source yields the event of the next position; the
  stages, in a state fit for position \<open>h\<close>, add the event of position \<open>h + 1\<close> to what they
  hold if it is due, and either release all they hold or nothing.
\<close>

definition same_schemas :: "('db, 'm, 's) env \<Rightarrow> 'db \<Rightarrow> 'db \<Rightarrow> bool" where
  "same_schemas E d d' \<longleftrightarrow> (\<forall>u. get_schema (rocks E) (schema_codec E) d' u = get_schema (rocks E) (schema_codec E) d u)"

locale resumable_task =
  fixes E :: "('db, 'm, 's) env"
    and src :: string
    and next_item :: "'c \<Rightarrow> u64 \<Rightarrow> ('e, change_event) result \<times> u64"
    and prepare :: "int \<Rightarrow> change_event \<Rightarrow> 'db pipeline \<Rightarrow> change_event list \<times> 'db pipeline"
    and C :: "'c set"
    and keeps :: "nat \<Rightarrow> bool"
    and fit :: "nat \<Rightarrow> 'db pipeline \<Rightarrow> bool"
    and held :: "'db pipeline \<Rightarrow> change_event list"
  assumes healthy: "healthy E"
    and next_due: "c \<in> C \<Longrightarrow> unat p + 1 < 2 ^ 64 \<Longrightarrow>
      \<exists>e. next_item c p = (Ok e, p + 1) \<and> offset e = show_nat (unat p + 1) \<and> passes_through E e"
    and prepare_due: "c \<in> C \<Longrightarrow> unat p + 1 < 2 ^ 64 \<Longrightarrow> next_item c p = (Ok e, p + 1) \<Longrightarrow> fit (unat p) s \<Longrightarrow>
      \<exists>ms s'. prepare now e s = (ms, s') \<and> fit (unat p + 1) s'
        \<and> ms @ held s' = held s @ (if keeps (unat p + 1) then [e] else []) \<and> (ms = [] \<or> held s' = [])
        \<and> store s' = store s \<and> limiter s' = limiter s \<and> task s' = task s \<and> sent s' = sent s"
    and fit_frame: "fit h s \<Longrightarrow> same_stages s (t\<lparr>limiter := limiter s\<rparr>) \<Longrightarrow> same_schemas E (store s) (store t) \<Longrightarrow>
      fit h t \<and> held t = held s"
    and fit_new: "get_schema (rocks E) (schema_codec E) d ''postgres_users'' = Ok (Some user_schema) \<Longrightarrow>
      fit h (pipeline_new d fo b) \<and> held (pipeline_new d fo b) = []"
begin

definition located :: "nat \<Rightarrow> ('db, 'e) machine \<Rightarrow> bool" where
  "located h m \<longleftrightarrow>
     (case in_hand (pc m) of
        None \<Rightarrow> unat (pos m) = h
      | Some r \<Rightarrow> (\<exists>c \<in> C. \<exists>p. unat p = h \<and> h + 1 < 2 ^ 64 \<and> next_item c p = (r, pos m)))"

text \<open>The task runs, its stages fit the position, and what it holds passes through.\<close>

definition stands :: "nat \<Rightarrow> ('db, 'e) machine \<Rightarrow> bool" where
  "stands h m \<longleftrightarrow>
     task (pipe m) = Running \<and> limiter_fit (limiter (pipe m)) \<and> fit h (pipe m) \<and> located h m
     \<and> (todo (pc m) = [] \<or> held (pipe m) = [])
     \<and> (\<forall>e \<in> set (todo (pc m) @ held (pipe m)). passes_through E e)"

lemma stands_frame:
  assumes "stands h m" and "task (pipe m') = Running" and "limiter_fit (limiter (pipe m'))"
    and "same_stages (pipe m) ((pipe m')\<lparr>limiter := limiter (pipe m)\<rparr>)"
    and "same_schemas E (store (pipe m)) (store (pipe m'))" and "located h m'"
    and "set (todo (pc m')) \<subseteq> set (todo (pc m))"
  shows "stands h m'" and "held (pipe m') = held (pipe m)"
proof -
  have "fit h (pipe m') \<and> held (pipe m') = held (pipe m)"
    by (rule fit_frame) (use assms in \<open>simp_all add: stands_def\<close>)
  then show "stands h m'" and "held (pipe m') = held (pipe m)"
    using assms unfolding stands_def by auto
qed

lemma schemas_refl [simp]: "same_schemas E d d"
  by (simp add: same_schemas_def)

text \<open>What most steps leave alone.\<close>

definition quiet :: "('db, 'e) machine \<Rightarrow> ('db, 'e) machine \<Rightarrow> bool" where
  "quiet m m' \<longleftrightarrow> flight (pc m') = flight (pc m) \<and> unsent (pc m') = unsent (pc m)
     \<and> store (pipe m') = store (pipe m) \<and> sent (pipe m') = sent (pipe m)
     \<and> same_stages (pipe m) ((pipe m')\<lparr>limiter := limiter (pipe m)\<rparr>)"

lemma quiet_stands:
  assumes "stands h m" and "quiet m m'" and "located h m'"
    and "task (pipe m') = Running" and "limiter_fit (limiter (pipe m'))"
  shows "stands h m' \<and> quiet m m' \<and> held (pipe m') = held (pipe m)"
proof -
  have t: "todo (pc m') = todo (pc m)" using assms(2) by (intro todo_cong) (simp_all add: quiet_def)
  have "stands h m'" "held (pipe m') = held (pipe m)"
    by (rule stands_frame [OF assms(1) assms(4,5)]; use assms t in \<open>simp add: quiet_def\<close>)+
  with assms(2) show ?thesis by simp
qed

lemma quiet_step:
  assumes at: "stands h m" and lt: "Suc h < 2 ^ 64" and ok: "admissible C a"
    and step: "machine_step E src next_item prepare a m = Some m'"
    and kind: "case a of Handle _ \<Rightarrow> False | Send _ \<Rightarrow> False | Save \<Rightarrow> False | _ \<Rightarrow> True"
  shows "stands h m' \<and> quiet m m' \<and> held (pipe m') = held (pipe m)"
proof -
  have run: "task (pipe m) = Running" and lim: "limiter_fit (limiter (pipe m))" and loc: "located h m"
    using at by (simp_all add: stands_def)
  show ?thesis
  proof (cases a)
    case (Next c)
    then have pc: "pc m = Idle" using step_at [OF step] by auto
    then have p: "unat (pos m) = h" using loc by (simp add: located_def)
    have c: "c \<in> C" using ok Next by simp
    obtain e where e: "next_item c (pos m) = (Ok e, pos m + 1)" using next_due [OF c] p lt by force
    then have m': "m' = m\<lparr>pc := Received (Ok e), pos := pos m + 1\<rparr>"
      using step Next pc run by (simp add: machine_step_def)
    have "located h m'" using c e p lt by (auto simp: located_def m')
    then show ?thesis by (intro quiet_stands [OF at]) (simp_all add: m' pc run lim quiet_def same_stages_def)
  next
    case (Check leader)
    then obtain r where pc: "pc m = Received r"
      using step_at [OF step] by auto
    then have m': "m' = m\<lparr>pc := Leading r\<rparr>" using step Check ok run by (simp add: machine_step_def)
    have "located h m'" using loc pc by (simp add: located_def m')
    then show ?thesis by (intro quiet_stands [OF at]) (simp_all add: m' pc run lim quiet_def same_stages_def)
  next
    case (Beat t)
    then obtain r where pc: "pc m = Leading r"
      using step_at [OF step] by auto
    then have m': "m' = m\<lparr>pc := Limiting r, pipe := (pipe m)\<lparr>failover := record_heartbeat (failover (pipe m)) t\<rparr>\<rparr>"
      using step Beat run by (simp add: machine_step_def)
    have "located h m'" using loc pc by (simp add: located_def m')
    then show ?thesis by (intro quiet_stands [OF at]) (simp_all add: m' pc run lim quiet_def same_stages_def)
  next
    case (Acquire t)
    then obtain r where pc: "pc m = Limiting r"
      using step_at [OF step] by auto
    obtain b where b: "limiter_fit b"
        "acquire (limiter (pipe m)) 1 [t] = Acquired b \<or> acquire (limiter (pipe m)) 1 [t] = Waiting b"
      by (rule acquire_fit [OF lim])
    then have m': "m' = m\<lparr>pipe := (pipe m)\<lparr>limiter := b\<rparr>, pc := Admitted r\<rparr>
        \<or> m' = m\<lparr>pipe := (pipe m)\<lparr>limiter := b\<rparr>\<rparr>"
      using step Acquire run pc by (auto simp: machine_step_def simp del: acquire.simps)
    then have "located h m'" by (elim disjE) (use loc pc in \<open>simp_all add: located_def\<close>)
    then show ?thesis using m' by (intro quiet_stands [OF at]) (auto simp: pc run b quiet_def same_stages_def)
  next
    case Echo
    then obtain t es where pc: "pc m = Echoing t es"
      using step_at [OF step] by auto
    then have m': "m' = m\<lparr>pc := Saving t es, pipe := echo_event t (pipe m)\<rparr>"
      using step Echo run by (simp add: machine_step_def)
    have "located h m'" using loc pc by (simp add: located_def m')
    then show ?thesis
      by (intro quiet_stands [OF at])
        (simp_all add: m' pc run lim quiet_def same_stages_def echo_event_def List.map_filter_simps)
  next
    case (Record now elapsed)
    then obtain t es where pc: "pc m = Recording t es"
      using step_at [OF step] by auto
    then have m': "m' = m\<lparr>pc := continue es, pipe := record_delivery E (now, elapsed) t (pipe m)\<rparr>"
      using step Record run by (simp add: machine_step_def)
    have "located h m'" using loc pc by (simp add: located_def m')
    then show ?thesis
      by (intro quiet_stands [OF at])
        (simp_all add: m' pc run lim quiet_def same_stages_def record_delivery_def Let_def List.map_filter_simps)
  qed (use kind in simp_all)
qed

lemma handled:
  assumes at: "stands h m"
    and step: "machine_step E src next_item prepare (Handle now) m = Some m'"
  obtains e ms s' where "m' = m\<lparr>pc := continue ms, pipe := s'\<rparr>" and "todo (pc m) = []" and "\<not> in_flight (pc m)"
    and "unsent (pc m) = []" and "stands (Suc h) m'" and "offset e = show_nat (Suc h)" and "passes_through E e"
    and "ms @ held s' = held (pipe m) @ (if keeps (Suc h) then [e] else [])"
    and "store s' = store (pipe m)" and "limiter s' = limiter (pipe m)" and "sent s' = sent (pipe m)"
proof -
  have run: "task (pipe m) = Running" using at by (simp add: stands_def)
  obtain r where pc: "pc m = Admitted r"
    using step_at [OF step] by auto
  then obtain c p where p: "c \<in> C" "unat p = h" "h + 1 < 2 ^ 64" "next_item c p = (r, pos m)"
    using at by (auto simp: stands_def located_def)
  then obtain e where e: "r = Ok e" "pos m = p + 1" "next_item c p = (Ok e, p + 1)"
      "offset e = show_nat (Suc h)" "passes_through E e"
    using next_due [of c p] by auto
  have "fit (unat p) (pipe m)" using at p(2) by (simp add: stands_def)
  from prepare_due [OF p(1) _ e(3) this, of now] p(2,3) obtain ms s' where
    prep: "prepare now e (pipe m) = (ms, s')" and
    s': "fit (Suc h) s'" "ms @ held s' = held (pipe m) @ (if keeps (Suc h) then [e] else [])" "ms = [] \<or> held s' = []"
      "store s' = store (pipe m)" "limiter s' = limiter (pipe m)" "task s' = Running" "sent s' = sent (pipe m)"
    using run by auto
  have m': "m' = m\<lparr>pc := continue ms, pipe := s'\<rparr>"
    using step run pc e(1) prep by (simp add: machine_step_def)
  have "unat (pos m) = Suc h" using e(2) p(2,3) unat_next by simp
  then have "located (Suc h) m'" by (simp add: located_def m')
  moreover have "set (ms @ held s') \<subseteq> insert e (set (held (pipe m)))" unfolding s'(2) by auto
  then have "\<forall>x \<in> set (ms @ held s'). passes_through E x" using at e(5) by (auto simp: stands_def)
  ultimately have "stands (Suc h) m'" using s' at by (simp add: stands_def m')
  then show ?thesis using that [OF m'] pc e(4,5) s' by simp
qed

lemma sent_one:
  assumes at: "stands h m"
    and step: "machine_step E src next_item prepare (Send now) m = Some m'"
  obtains e es where "pc m = Delivering (e # es)" and "pc m' = Echoing e es" and "stands h m'"
    and "sent (pipe m') = sent (pipe m) @ [e]" and "store (pipe m') = store (pipe m)" and "held (pipe m') = held (pipe m)"
    and "same_stages (pipe m) (pipe m')"
proof -
  obtain e es where pc: "pc m = Delivering (e # es)"
    using step_at [OF step] by auto
  then have "passes_through E e" using at by (simp add: stands_def)
  then have m': "m' = m\<lparr>pc := Echoing e es, pipe := send_event E e (pipe m)\<rparr>"
    using step pc at by (simp add: machine_step_def passes_through_def stands_def)
  have sent: "sent (pipe m') = sent (pipe m) @ [e]" and frame: "store (pipe m') = store (pipe m)"
      "limiter (pipe m') = limiter (pipe m)" "task (pipe m') = task (pipe m)" "same_stages (pipe m) (pipe m')"
    by (simp_all add: m' send_event_def Let_def same_stages_def List.map_filter_simps)
  have "located h m'" using at pc by (simp add: stands_def located_def m')
  then have "stands h m'" "held (pipe m') = held (pipe m)"
    by - (rule stands_frame [OF at]; use at frame pc in \<open>simp add: stands_def same_stages_def m'\<close>)+
  then show ?thesis using that [OF pc] sent frame by (simp add: m')
qed

lemma checkpoint_saved:
  assumes "save_offset (rocks E) d src (show_nat i) = (Ok (), d')" and "i < 2 ^ 64"
  shows "checkpoint_of E src d' = i"
proof -
  have "utf8_valid (as_bytes (show_nat i))" by (rule utf8_ascii) (use show_nat_ascii in blast)
  then have "get_offset (rocks E) d' src = Ok (Some (show_nat i))"
    using save_offset_get [OF _ assms(1)] healthy by (simp add: healthy_def)
  then show ?thesis using start_position_show [OF assms(2)] by (simp add: checkpoint_of_def last_offset_get)
qed

lemma save_result:
  obtains d' where "save_checkpoint E src e s = emit [SaveOffset (offset e) (Ok ())] (s\<lparr>store := d'\<rparr>)"
    and "save_offset (rocks E) (store s) src (offset e) = (Ok (), d')" and "same_schemas E (store s) d'"
    and "\<And>t. t \<noteq> src \<Longrightarrow> checkpoint_of E t d' = checkpoint_of E t (store s)"
proof -
  have laws: "rocksdb_laws (rocks E)" using healthy by (simp add: healthy_def)
  obtain d' where d': "save_offset (rocks E) (store s) src (offset e) = (Ok (), d')"
    using healthy_engine.save_ok [OF healthy_engine_ok [OF healthy]] by blast
  show ?thesis
  proof (rule that [OF _ d'])
    show "save_checkpoint E src e s = emit [SaveOffset (offset e) (Ok ())] (s\<lparr>store := d'\<rparr>)"
      by (simp add: save_checkpoint_def d')
    show "same_schemas E (store s) d'" using save_offset_frame(2) [OF laws d'] by (simp add: same_schemas_def)
    show "checkpoint_of E t d' = checkpoint_of E t (store s)" if "t \<noteq> src" for t
      using save_offset_frame(1) [OF laws d' that] by (simp add: checkpoint_of_def last_offset_get)
  qed
qed

lemma saved_one:
  assumes at: "stands h m"
    and step: "machine_step E src next_item prepare Save m = Some m'"
  obtains t es d' where "pc m = Saving t es" and "pc m' = Recording t es" and "stands h m'"
    and "save_offset (rocks E) (store (pipe m)) src (offset t) = (Ok (), d')" and "store (pipe m') = d'"
    and "same_schemas E (store (pipe m)) d'" and "sent (pipe m') = sent (pipe m)" and "held (pipe m') = held (pipe m)"
    and "same_stages (pipe m) (pipe m')"
proof -
  have run: "task (pipe m) = Running" using at by (simp add: stands_def)
  obtain t es where pc: "pc m = Saving t es"
    using step_at [OF step] by auto
  then have m': "m' = m\<lparr>pc := Recording t es, pipe := save_checkpoint E src t (pipe m)\<rparr>"
    using step run by (simp add: machine_step_def)
  obtain d' where d': "save_checkpoint E src t (pipe m) = emit [SaveOffset (offset t) (Ok ())] ((pipe m)\<lparr>store := d'\<rparr>)"
      "save_offset (rocks E) (store (pipe m)) src (offset t) = (Ok (), d')" "same_schemas E (store (pipe m)) d'"
    by (rule save_result [of t "pipe m"])
  have "located h m'" using at pc by (simp add: stands_def located_def m')
  then have "stands h m'" "held (pipe m') = held (pipe m)"
    by - (rule stands_frame [OF at]; use at d' pc in \<open>auto simp: stands_def same_stages_def m'\<close>)+
  then show ?thesis using that [OF pc] d' by (simp add: m' same_stages_def List.map_filter_simps)
qed

text \<open>What a step promises to the other task, and what it relies on from it.\<close>

lemma step_store:
  assumes "stands h m" and "machine_step E src next_item prepare a m = Some m'" and "t \<noteq> src"
  shows "same_schemas E (store (pipe m)) (store (pipe m'))
    \<and> checkpoint_of E t (store (pipe m')) = checkpoint_of E t (store (pipe m))"
proof -
  have "store (pipe m') = store (pipe m) \<or> (\<exists>e. store (pipe m') = store (save_checkpoint E src e (pipe m)))"
  proof (cases a)
    case (Handle now)
    with assms(2) have "machine_step E src next_item prepare (Handle now) m = Some m'" by simp
    from handled [OF assms(1) this] show ?thesis
      by (metis machine.select_convs(1) machine.surjective machine.update_convs(1))
  qed (use assms(2) in \<open>auto simp: machine_step_def dead_letter_def send_event_def echo_event_def record_delivery_def
      Let_def split_beta split: pc.splits if_splits acquire_outcome.splits option.splits sum.splits list.splits\<close>)
  moreover have "same_schemas E (store (pipe m)) (store (save_checkpoint E src e (pipe m)))
      \<and> checkpoint_of E t (store (save_checkpoint E src e (pipe m))) = checkpoint_of E t (store (pipe m))" for e
    by (rule save_result [of e "pipe m"]) (use assms(3) in simp)
  ultimately show ?thesis by auto
qed

lemma share_stands:
  assumes "stands h m" and "same_schemas E (store (pipe m)) (store s)" and "limiter_fit (limiter s)"
  shows "stands h (share s m)" and "held (pipe (share s m)) = held (pipe m)"
  by (rule stands_frame [OF assms(1)];
      use assms in \<open>simp add: stands_def share_def same_stages_def located_def split: option.splits\<close>)+

lemma new_stands:
  assumes "get_schema (rocks E) (schema_codec E) d ''postgres_users'' = Ok (Some user_schema)" and "limiter_fit b"
    and "unat p = h"
  shows "stands h \<lparr>pipe = pipeline_new d fo b, pc = Idle, pos = p\<rparr>" and "held (pipeline_new d fo b) = []"
  using assms fit_new [OF assms(1)] by (simp_all add: stands_def located_def)

end

section \<open>The two tasks\<close>

definition held_tx :: "'db pipeline \<Rightarrow> change_event list" where
  "held_tx s = concat (map snd (tx_buffer s))"

definition seen_upto :: "string \<Rightarrow> nat \<Rightarrow> 'db pipeline \<Rightarrow> bool" where
  "seen_upto tag h s \<longleftrightarrow> processed_ids (dedup s) \<subseteq> (\<lambda>i. tag @ show_nat i) ` {..h}"

definition pg_at :: "('db, 'm, 's) env \<Rightarrow> nat \<Rightarrow> 'db pipeline \<Rightarrow> bool" where
  "pg_at E h s \<longleftrightarrow> pg_fit E user_schema s \<and> seen_upto ''pg-evt-'' h s
     \<and> (tx_buffer s = [] \<or> (\<exists>es. tx_buffer s = [(''tx-'' @ show_nat (h div 4 + 1000), es)] \<and> length es \<le> h mod 4 \<and> h mod 4 \<noteq> 0))"

definition cass_at :: "nat \<Rightarrow> 'db pipeline \<Rightarrow> bool" where
  "cass_at h s \<longleftrightarrow> seen_upto ''cas-evt-'' h s \<and> tx_buffer s = []"

text \<open>The assumptions on the environment, for the clock readings of \<open>T\<close> and \<open>U\<close>.\<close>

definition engine_env :: "('db, 'm, 's) env \<Rightarrow> (int \<Rightarrow> string) \<Rightarrow> int set \<Rightarrow> (int \<times> int) set \<Rightarrow> bool" where
  "engine_env E fmt T U \<longleftrightarrow> healthy E \<and> codec_roundtrips (schema_codec E) user_schema
     \<and> (\<forall>t \<in> T. \<forall>p. passes_through E (fst (pg_next t p)))
     \<and> (\<forall>t \<in> U. \<forall>p. passes_through E (fst (cas_next fmt t p)))"

lemma seen_fresh:
  assumes "seen_upto tag h s" and "h + 1 < 2 ^ 64"
  shows "tag @ show_nat (h + 1) \<notin> processed_ids (dedup s)"
proof
  assume "tag @ show_nat (h + 1) \<in> processed_ids (dedup s)"
  then obtain i where "i \<le> h" "show_nat (h + 1) = show_nat i" using assms(1) by (auto simp: seen_upto_def)
  then show False using assms(2) show_nat_inject [of "h + 1" i] by simp
qed

lemma seen_track:
  assumes "seen_upto tag h s" and "h + 1 < 2 ^ 64"
    and "dedup s' = snd (check_and_track (dedup s) (tag @ show_nat (h + 1)))"
  shows "seen_upto tag (h + 1) s'"
proof -
  have "processed_ids (dedup s') \<subseteq> insert (tag @ show_nat (h + 1)) (processed_ids (dedup s))"
    unfolding assms(3) by (rule fresh_id(2) [OF seen_fresh [OF assms(1,2)]])
  then show ?thesis using assms(1) by (fastforce simp: seen_upto_def)
qed

lemma pg_prepare_accepted:
  assumes "pg_fit E user_schema s" and "pg_accepts E user_schema e" and "ev_id e \<notin> processed_ids (dedup s)"
  shows "pg_prepare E now e s =
    (fst (tx_process (tx_buffer s) e),
     s\<lparr>dedup := snd (check_and_track (dedup s) (ev_id e)), tx_buffer := snd (tx_process (tx_buffer s) e)\<rparr>)"
proof -
  have "validate_event (rocks E) (schema_codec E) (dbg_json E) (store s) ''postgres_users'' e = Ok ()"
    using assms(1,2) by (simp add: validate_event_def pg_fit_def pg_accepts_def)
  moreover have "process_replication_event (key_text E) (watermark_engine s) e = (Some e, watermark_engine s)"
    using assms(1,2) by (simp add: process_replication_event_def pg_fit_def pg_accepts_def)
  ultimately show ?thesis using fresh_id(1) [OF assms(3)] by (simp add: pg_prepare_def Let_def split_beta)
qed

text \<open>The transaction buffer at a position of the stream.\<close>

lemma pg_buffer_step:
  assumes "h + 1 < 2 ^ 64" and "unat p = h" and "e = fst (pg_next t p)"
    and "b = [] \<or> (\<exists>es. b = [(''tx-'' @ show_nat (h div 4 + 1000), es)] \<and> length es \<le> h mod 4 \<and> h mod 4 \<noteq> 0)"
    and "tx_process b e = (ms, b')"
  shows "ms @ concat (map snd b') = concat (map snd b) @ (if (h + 1) mod 4 \<noteq> 0 then [e] else [])"
    and "ms = [] \<or> b' = []"
    and "b' = [] \<or> (\<exists>es. b' = [(''tx-'' @ show_nat ((h + 1) div 4 + 1000), es)] \<and> length es \<le> (h + 1) mod 4 \<and> (h + 1) mod 4 \<noteq> 0)"
proof -
  let ?tx = "''tx-'' @ show_nat (h div 4 + 1000)"
  have e: "operation e = (if (h + 1) mod 4 = 0 then Commit else if (h + 1) mod 4 = 1 then Create else Update)"
      "transaction_id e = Some ?tx"
    using pg_next_nat [of p t] assms(1-3) by simp_all
  obtain es where b: "b = [] \<or> b = [(?tx, es)] \<and> length es \<le> h mod 4" using assms(4) by blast
  have d: "(h + 1) mod 4 \<noteq> 0 \<Longrightarrow> (h + 1) div 4 = h div 4 \<and> (h + 1) mod 4 = h mod 4 + 1" by presburger
  show "ms @ concat (map snd b') = concat (map snd b) @ (if (h + 1) mod 4 \<noteq> 0 then [e] else [])"
    "ms = [] \<or> b' = []"
    "b' = [] \<or> (\<exists>es. b' = [(''tx-'' @ show_nat ((h + 1) div 4 + 1000), es)] \<and> length es \<le> (h + 1) mod 4 \<and> (h + 1) mod 4 \<noteq> 0)"
    using b assms(5) e d by (auto simp: tx_process_def hm_insert_def hm_remove_def split: if_splits)
qed

locale faithful_engine =
  fixes E :: "('db, 'm, 's) env"
    and fmt :: "int \<Rightarrow> string"
    and T :: "int set"
    and U :: "(int \<times> int) set"
  assumes env: "engine_env E fmt T U"

sublocale faithful_engine \<subseteq> pgt: resumable_task E "''postgres_users''" pg_item "pg_prepare E" T mutation_position
    "pg_at E" held_tx
proof
  show "healthy E" using env by (simp add: engine_env_def)
next
  fix c and p :: u64
  assume "c \<in> T" and "unat p + 1 < 2 ^ 64"
  then show "\<exists>e. pg_item c p = (Ok e, p + 1) \<and> offset e = show_nat (unat p + 1) \<and> passes_through E e"
    using env pg_next_nat(3) [of p c] by (simp add: engine_env_def pg_item_def split_beta)
next
  fix c e now and p :: u64 and s :: "'db pipeline"
  assume lt: "unat p + 1 < 2 ^ 64" and e: "pg_item c p = (Ok e, p + 1)" and fit: "pg_at E (unat p) s"
  have e: "e = fst (pg_next c p)" using e by (simp add: pg_item_def split_beta)
  have id: "ev_id e = ''pg-evt-'' @ show_nat (unat p + 1)" using lt unat_next by (simp add: e)
  have fresh: "ev_id e \<notin> processed_ids (dedup s)"
    unfolding id by (rule seen_fresh) (use fit lt in \<open>simp_all add: pg_at_def\<close>)
  obtain ms b' where tx: "tx_process (tx_buffer s) e = (ms, b')" by fastforce
  let ?s = "s\<lparr>dedup := snd (check_and_track (dedup s) (ev_id e)), tx_buffer := b'\<rparr>"
  have prep: "pg_prepare E now e s = (ms, ?s)"
    using pg_prepare_accepted [OF _ pg_next_accepted, of E s c p now] fresh fit tx by (simp add: e pg_at_def)
  have "tx_buffer s = [] \<or> (\<exists>es. tx_buffer s = [(''tx-'' @ show_nat (unat p div 4 + 1000), es)]
      \<and> length es \<le> unat p mod 4 \<and> unat p mod 4 \<noteq> 0)"
    using fit by (simp add: pg_at_def)
  note step = pg_buffer_step [OF lt refl e this tx]
  have "pg_at E (unat p + 1) ?s"
    unfolding pg_at_def
  proof (intro conjI)
    show "pg_fit E user_schema ?s" using fit by (simp add: pg_at_def pg_fit_def)
    show "seen_upto ''pg-evt-'' (unat p + 1) ?s"
      by (rule seen_track [of _ _ s]) (use fit lt id in \<open>simp_all add: pg_at_def\<close>)
  qed (use step(3) in simp)
  then show "\<exists>ms s'. pg_prepare E now e s = (ms, s') \<and> pg_at E (unat p + 1) s'
      \<and> ms @ held_tx s' = held_tx s @ (if mutation_position (unat p + 1) then [e] else []) \<and> (ms = [] \<or> held_tx s' = [])
      \<and> store s' = store s \<and> limiter s' = limiter s \<and> task s' = task s \<and> sent s' = sent s"
    using prep step(1,2) by (auto simp: held_tx_def mutation_position_def)
next
  fix h and s t :: "'db pipeline"
  assume "pg_at E h s" and "same_stages s (t\<lparr>limiter := limiter s\<rparr>)" and "same_schemas E (store s) (store t)"
  then show "pg_at E h t \<and> held_tx t = held_tx s"
    by (simp add: pg_at_def held_tx_def seen_upto_def pg_fit_def same_stages_def same_schemas_def)
next
  fix d :: 'db and h fo b
  assume "get_schema (rocks E) (schema_codec E) d ''postgres_users'' = Ok (Some user_schema)"
  then show "pg_at E h (pipeline_new d fo b) \<and> held_tx (pipeline_new d fo b) = []"
    by (simp add: pg_at_def held_tx_def seen_upto_def pg_fit_def tx_new_def)
qed

sublocale faithful_engine \<subseteq> cat: resumable_task E "''cassandra_sensors''" "cass_item fmt" "\<lambda>now. cass_prepare" U "\<lambda>i. True"
    cass_at held_tx
proof
  show "healthy E" using env by (simp add: engine_env_def)
next
  fix c and p :: u64
  assume "c \<in> U" and "unat p + 1 < 2 ^ 64"
  then show "\<exists>e. cass_item fmt c p = (Ok e, p + 1) \<and> offset e = show_nat (unat p + 1) \<and> passes_through E e"
    using env unat_next [of p] by (simp add: engine_env_def cass_item_def split_beta)
next
  fix c e now and p :: u64 and s :: "'db pipeline"
  assume lt: "unat p + 1 < 2 ^ 64" and e: "cass_item fmt c p = (Ok e, p + 1)" and fit: "cass_at (unat p) s"
  have e: "e = fst (cas_next fmt c p)" using e by (simp add: cass_item_def split_beta)
  have id: "ev_id e = ''cas-evt-'' @ show_nat (unat p + 1)" using lt unat_next by (simp add: e)
  have fresh: "ev_id e \<notin> processed_ids (dedup s)"
    unfolding id by (rule seen_fresh) (use fit lt in \<open>simp_all add: cass_at_def\<close>)
  have "transaction_id e = None" by (simp add: e cas_next_def Let_def)
  then have tx: "tx_process (tx_buffer s) e = ([e], tx_buffer s)" by (simp add: tx_process_def)
  let ?s = "s\<lparr>dedup := snd (check_and_track (dedup s) (ev_id e))\<rparr>"
  have prep: "cass_prepare e s = ([e], ?s)"
    using fresh_id(1) [OF fresh] tx by (simp add: cass_prepare_def Let_def split_beta)
  have "seen_upto ''cas-evt-'' (unat p + 1) ?s"
    by (rule seen_track [of _ _ s]) (use fit lt id in \<open>simp_all add: cass_at_def\<close>)
  then show "\<exists>ms s'. cass_prepare e s = (ms, s') \<and> cass_at (unat p + 1) s'
      \<and> ms @ held_tx s' = held_tx s @ (if True then [e] else []) \<and> (ms = [] \<or> held_tx s' = [])
      \<and> store s' = store s \<and> limiter s' = limiter s \<and> task s' = task s \<and> sent s' = sent s"
    using prep fit by (simp add: held_tx_def cass_at_def)
next
  fix h and s t :: "'db pipeline"
  assume "cass_at h s" and "same_stages s (t\<lparr>limiter := limiter s\<rparr>)" and "same_schemas E (store s) (store t)"
  then show "cass_at h t \<and> held_tx t = held_tx s"
    by (simp add: cass_at_def held_tx_def seen_upto_def same_stages_def)
next
  fix d :: 'db and h fo b
  show "cass_at h (pipeline_new d fo b) \<and> held_tx (pipeline_new d fo b) = []"
    by (simp add: cass_at_def held_tx_def seen_upto_def tx_new_def)
qed

section \<open>Starting\<close>

definition fresh_store :: "('db, 'm, 's) env \<Rightarrow> 'db \<Rightarrow> bool" where
  "fresh_store E d \<longleftrightarrow>
     get_schema (rocks E) (schema_codec E) d ''postgres_users'' \<in> {Ok None, Ok (Some user_schema)}
     \<and> get_offset (rocks E) d ''postgres_users'' = Ok None \<and> get_offset (rocks E) d ''cassandra_sensors'' = Ok None"

lemma schema_registered:
  assumes "healthy E" and "codec_roundtrips (schema_codec E) user_schema"
    and "get_schema (rocks E) (schema_codec E) d ''postgres_users'' \<in> {Ok None, Ok (Some user_schema)}"
  shows "get_schema (rocks E) (schema_codec E) (register_user_schema E d) ''postgres_users'' = Ok (Some user_schema)"
    and "get_offset (rocks E) (register_user_schema E d) t = get_offset (rocks E) d t"
proof -
  let ?r = "register_schema (rocks E) (schema_codec E) (dbg_json E) d ''postgres_users'' user_schema Backward"
  have laws: "rocksdb_laws (rocks E)" using assms(1) by (simp add: healthy_def)
  have compat: "check_compatibility (dbg_json E) user_schema user_schema Backward = Ok ()"
    by (simp add: check_compatibility_def user_schema_def schema_fields_def check_types_def check_present_def)
  obtain v where v: "to_vec (schema_codec E) user_schema = Ok v" using assms(2) by (auto simp: codec_roundtrips_def split: sum.splits)
  obtain d' where "db_put (rocks E) d (schema_key ''postgres_users'') v = (Ok (), d')"
    using assms(1) unfolding healthy_def by blast
  with v have "fst ?r = Ok ()"
    using assms(3) compat by (auto simp: register_schema_def save_schema_def)
  then have "?r = (Ok (), register_user_schema E d)" by (simp add: register_user_schema_def prod_eq_iff)
  from register_schema_effect [OF laws assms(2) this]
  show "get_schema (rocks E) (schema_codec E) (register_user_schema E d) ''postgres_users'' = Ok (Some user_schema)"
    "get_offset (rocks E) (register_user_schema E d) t = get_offset (rocks E) d t"
    by simp_all
qed

lemma boot_tasks:
  "pg_task (boot E rd d xs ys) =
     \<lparr>pipe = pipeline_new (register_user_schema E d) (engine_failover (boot_beat rd)) (engine_limiter (boot_limiter rd)),
      pc = Idle, pos = start_position (last_offset E (register_user_schema E d) ''postgres_users'')\<rparr>"
  "cass_task (boot E rd d xs ys) =
     \<lparr>pipe = pipeline_new (register_user_schema E d) (engine_failover (boot_beat rd)) (engine_limiter (boot_limiter rd)),
      pc = Idle, pos = start_position (last_offset E (register_user_schema E d) ''cassandra_sensors'')\<rparr>"
  "pg_past (boot E rd d xs ys) = xs" "cass_past (boot E rd d xs ys) = ys"
proof -
  have "\<exists>ds a. pg_start_stream seeds off 0 = (retry_outcome.Returned (Ok (start_position off)), ds, a)"
    "\<exists>ds a. cas_start_stream seeds off 0 = (retry_outcome.Returned (Ok (start_position off)), ds, a)" for seeds off
    using sources_connect [of seeds off 0] by blast+
  then have s: "fst (pg_start_stream seeds off 0) = retry_outcome.Returned (Ok (start_position off))"
    "fst (cas_start_stream seeds off 0) = retry_outcome.Returned (Ok (start_position off))" for seeds off
    by (metis fst_conv)+
  show "pg_task (boot E rd d xs ys) =
     \<lparr>pipe = pipeline_new (register_user_schema E d) (engine_failover (boot_beat rd)) (engine_limiter (boot_limiter rd)),
      pc = Idle, pos = start_position (last_offset E (register_user_schema E d) ''postgres_users'')\<rparr>"
    "cass_task (boot E rd d xs ys) =
     \<lparr>pipe = pipeline_new (register_user_schema E d) (engine_failover (boot_beat rd)) (engine_limiter (boot_limiter rd)),
      pc = Idle, pos = start_position (last_offset E (register_user_schema E d) ''cassandra_sensors'')\<rparr>"
    "pg_past (boot E rd d xs ys) = xs" "cass_past (boot E rd d xs ys) = ys"
    by (simp_all add: boot_def boot_task_def s Let_def)
qed

context faithful_engine
begin

lemma registered:
  assumes "pgt.stands h m"
  shows "get_schema (rocks E) (schema_codec E) (register_user_schema E (store (pipe m))) ''postgres_users'' = Ok (Some user_schema)"
    and "checkpoint_of E t (register_user_schema E (store (pipe m))) = checkpoint_of E t (store (pipe m))"
proof -
  have env: "healthy E" "codec_roundtrips (schema_codec E) user_schema" using env by (simp_all add: engine_env_def)
  have "get_schema (rocks E) (schema_codec E) (store (pipe m)) ''postgres_users'' \<in> {Ok None, Ok (Some user_schema)}"
    using assms by (simp add: pgt.stands_def pg_at_def pg_fit_def)
  note schema_registered [OF env this]
  then show "get_schema (rocks E) (schema_codec E) (register_user_schema E (store (pipe m))) ''postgres_users'' = Ok (Some user_schema)"
    "checkpoint_of E t (register_user_schema E (store (pipe m))) = checkpoint_of E t (store (pipe m))"
    by (simp_all add: checkpoint_of_def last_offset_get)
qed

end

end
