(* ===== verification/At_Least_Once.thy ===== *)
theory At_Least_Once
  imports Task_Machine
begin

text \<open>
  What a task of the engine delivers while the node leads: whatever the other task does and
  wherever the process crashes, the offsets sent are the ones due, in order, and only the last
  one before a crash can be sent again.
\<close>

section \<open>Specification\<close>

text \<open>
  The offsets sent are the ones due up to a position, in order; only repetitions next to each
  other occur, at most one per crash; and the checkpoint is that position or the one due before it.
\<close>

definition at_least_once :: "(nat \<Rightarrow> bool) \<Rightarrow> change_event list \<Rightarrow> nat \<Rightarrow> nat \<Rightarrow> bool" where
  "at_least_once keeps out checkpoint n \<longleftrightarrow>
     (\<exists>w. remdups_adj (map offset out) = map show_nat (filter keeps [1..<Suc w])
        \<and> length out \<le> length (filter keeps [1..<Suc w]) + n
        \<and> (w = checkpoint \<or> checkpoint < w \<and> keeps w \<and> (\<forall>i. checkpoint < i \<and> i < w \<longrightarrow> \<not> keeps i)))"

section \<open>Lemmas\<close>

text \<open>\<open>w\<close> is the first position due after \<open>c\<close>.\<close>

definition first_due :: "(nat \<Rightarrow> bool) \<Rightarrow> nat \<Rightarrow> nat \<Rightarrow> bool" where
  "first_due keeps c w \<longleftrightarrow> c < w \<and> keeps w \<and> kept keeps (Suc c) w = []"

lemma first_due_unique: "first_due keeps c v \<Longrightarrow> first_due keeps c w \<Longrightarrow> v = w"
  unfolding first_due_def kept_Nil_iff by (metis Suc_leI linorder_neqE_nat)

lemma first_due_kept:
  assumes "first_due keeps c w" and "lo \<le> Suc c"
  shows "kept keeps lo (Suc w) = kept keeps lo (Suc c) @ [show_nat w]"
proof -
  have "kept keeps lo w = kept keeps lo (Suc c) @ kept keeps (Suc c) w"
    by (rule kept_append [symmetric]) (use assms in \<open>simp_all add: first_due_def\<close>)
  then show ?thesis using assms kept_snoc [of lo w keeps] by (simp add: first_due_def)
qed

lemma kept_Cons:
  assumes "kept keeps (Suc c) (Suc h) = x # xs"
  obtains w where "first_due keeps c w" and "w \<le> h" and "x = show_nat w" and "xs = kept keeps (Suc w) (Suc h)"
proof -
  let ?P = "\<lambda>i. Suc c \<le> i \<and> i < Suc h \<and> keeps i"
  have "\<exists>i. ?P i" using assms kept_Nil_iff [of keeps "Suc c" "Suc h"] by auto
  then have w: "?P (LEAST i. ?P i)" by (rule LeastI_ex)
  let ?w = "LEAST i. ?P i"
  have first: "first_due keeps c ?w"
    unfolding first_due_def kept_Nil_iff
  proof (intro conjI allI impI)
    fix i
    assume i: "Suc c \<le> i \<and> i < ?w"
    then have "\<not> ?P i" by (intro not_less_Least) simp
    then show "\<not> keeps i" using i w by linarith
  qed (use w in simp_all)
  have "kept keeps (Suc c) (Suc h) = kept keeps (Suc c) (Suc ?w) @ kept keeps (Suc ?w) (Suc h)"
    by (rule kept_append [symmetric]) (use w in auto)
  also have "kept keeps (Suc c) (Suc ?w) = [show_nat ?w]"
    using first_due_kept [OF first] by simp
  finally show ?thesis using that [OF first] w assms by auto
qed

lemma remdups_adj_snoc:
  "remdups_adj (xs @ [x]) = (if xs \<noteq> [] \<and> last xs = x then remdups_adj xs else remdups_adj xs @ [x])"
  by (cases xs rule: rev_cases) (simp_all add: remdups_adj_append_two)

lemma kept_last:
  assumes "kept keeps lo (Suc c) \<noteq> []" and "c < w" and "w < 2 ^ 64"
  shows "last (kept keeps lo (Suc c)) \<noteq> show_nat w"
proof -
  have "last (kept keeps lo (Suc c)) \<in> show_nat ` {..c}"
    using last_in_set [OF assms(1)] by (auto simp: kept_def)
  then obtain i where "last (kept keeps lo (Suc c)) = show_nat i" "i \<le> c" by auto
  then show ?thesis using assms(2,3) show_nat_inject [of i w] by auto
qed

section \<open>The invariant of a task\<close>

context resumable_task
begin

text \<open>
  The invariant after \<open>k\<close> steps and \<open>n\<close> crashes: the task is at position \<open>h\<close>; what is
  left to check off and what the stages hold is what is due after the checkpoint; and all that was
  ever sent is, up to repetitions next to each other, what is due up to \<open>w\<close>, which is the
  checkpoint or the first position due after it.
\<close>

definition inv :: "nat \<Rightarrow> nat \<Rightarrow> change_event list \<Rightarrow> nat \<Rightarrow> nat \<Rightarrow> ('db, 'e) machine \<Rightarrow> bool" where
  "inv k n out h w m \<longleftrightarrow>
     stands h m \<and> h \<le> k
     \<and> checkpoint_of E src (store (pipe m)) \<le> h
     \<and> map offset (todo (pc m) @ held (pipe m)) = kept keeps (Suc (checkpoint_of E src (store (pipe m)))) (Suc h)
     \<and> remdups_adj (map offset (out @ sent (pipe m))) = kept keeps 1 (Suc w)
     \<and> (w = checkpoint_of E src (store (pipe m)) \<or> first_due keeps (checkpoint_of E src (store (pipe m))) w)
     \<and> (in_flight (pc m) \<longrightarrow> first_due keeps (checkpoint_of E src (store (pipe m))) w)
     \<and> length (out @ sent (pipe m))
         + (if first_due keeps (checkpoint_of E src (store (pipe m))) w \<and> \<not> in_flight (pc m) then 1 else 0)
         \<le> length (kept keeps 1 (Suc w)) + n"

lemma inv_frame:
  assumes "inv k n out h w m" and "stands h m'" and "held (pipe m') = held (pipe m)" and "k \<le> k'"
    and "flight (pc m') = flight (pc m)" and "unsent (pc m') = unsent (pc m)" and "sent (pipe m') = sent (pipe m)"
    and "checkpoint_of E src (store (pipe m')) = checkpoint_of E src (store (pipe m))"
  shows "inv k' n out h w m'"
proof -
  have "todo (pc m') = todo (pc m)" by (rule todo_cong [OF assms(5,6)])
  moreover have "in_flight (pc m') = in_flight (pc m)" using assms(5) by (simp add: in_flight_iff)
  ultimately show ?thesis using assms(1-4,7,8) unfolding inv_def by simp
qed

lemma handle_step:
  assumes inv: "inv k n out h w m"
    and step: "machine_step E src next_item prepare (Handle now) m = Some m'"
  shows "inv (Suc k) n out (Suc h) w m'"
proof -
  have at: "stands h m" using inv by (simp add: inv_def)
  show ?thesis
  proof (rule handled [OF at step])
    fix e ms s'
    let ?c = "checkpoint_of E src (store (pipe m))"
    assume m': "m' = m\<lparr>pc := continue ms, pipe := s'\<rparr>" and e: "offset e = show_nat (Suc h)"
      and rel: "ms @ held s' = held (pipe m) @ (if keeps (Suc h) then [e] else [])" and none: "todo (pc m) = []"
      and rest: "stands (Suc h) m'" "store s' = store (pipe m)" "sent s' = sent (pipe m)" "\<not> in_flight (pc m)"
    have "map offset (ms @ held s') = kept keeps (Suc ?c) (Suc (Suc h))"
      unfolding rel using inv none e kept_snoc [of "Suc ?c" "Suc h" keeps] by (auto simp: inv_def)
    then show ?thesis using rest inv by (simp add: inv_def m')
  qed
qed

lemma send_step:
  assumes inv: "inv k n out h w m" and k: "Suc k < 2 ^ 64"
    and step: "machine_step E src next_item prepare (Send now) m = Some m'"
  obtains w' where "inv (Suc k) n out h w' m'"
proof -
  let ?c = "checkpoint_of E src (store (pipe m))"
  have at: "stands h m" using inv by (simp add: inv_def)
  obtain e es where pc: "pc m = Delivering (e # es)" "pc m' = Echoing e es" "stands h m'"
    and sent: "sent (pipe m') = sent (pipe m) @ [e]"
    and frame: "store (pipe m') = store (pipe m)" "held (pipe m') = held (pipe m)"
    by (rule sent_one [OF at step])
  have due: "kept keeps (Suc ?c) (Suc h) = offset e # map offset es" using inv pc at by (auto simp: inv_def stands_def)
  then obtain v where v: "first_due keeps ?c v" "v \<le> h" "offset e = show_nat v" by (rule kept_Cons)
  have lt: "v < 2 ^ 64" using v(2) inv k by (simp add: inv_def)
  have cv: "?c < v" using v(1) by (simp add: first_due_def)
  have "remdups_adj (map offset (out @ sent (pipe m'))) = kept keeps 1 (Suc v)
      \<and> length (out @ sent (pipe m')) \<le> length (kept keeps 1 (Suc v)) + n"
  proof (cases "first_due keeps ?c w")
    case True
    then have w: "w = v" using first_due_unique v(1) by blast
    have "kept keeps 1 (Suc v) = kept keeps 1 (Suc ?c) @ [show_nat v]" by (rule first_due_kept [OF v(1)]) simp
    then have "map offset (out @ sent (pipe m)) \<noteq> []" "last (map offset (out @ sent (pipe m))) = offset e"
      using inv w v(3) last_remdups_adj [of "map offset (out @ sent (pipe m))"] by (auto simp: inv_def)
    then have "remdups_adj (map offset (out @ sent (pipe m'))) = kept keeps 1 (Suc v)"
      using inv w sent remdups_adj_snoc [of "map offset (out @ sent (pipe m))" "offset e"] by (simp add: inv_def)
    then show ?thesis using inv w v(1) sent pc by (simp add: inv_def)
  next
    case False
    then have w: "w = ?c" using inv by (simp add: inv_def)
    have due: "kept keeps 1 (Suc v) = kept keeps 1 (Suc ?c) @ [offset e]"
      unfolding v(3) by (rule first_due_kept [OF v(1)]) simp
    have rd: "remdups_adj (map offset (out @ sent (pipe m))) = kept keeps 1 (Suc ?c)" using inv w by (simp add: inv_def)
    then have "map offset (out @ sent (pipe m)) \<noteq> [] \<Longrightarrow> last (map offset (out @ sent (pipe m))) \<noteq> offset e"
      using kept_last [OF _ cv lt, of keeps 1] v(3) last_remdups_adj [of "map offset (out @ sent (pipe m))"]
      by (metis remdups_adj_Nil_iff)
    then have "remdups_adj (map offset (out @ sent (pipe m'))) = kept keeps 1 (Suc v)"
      using rd due sent remdups_adj_snoc [of "map offset (out @ sent (pipe m))" "offset e"] by auto
    then show ?thesis using inv w v(1) sent pc due by (simp add: inv_def)
  qed
  then have "inv (Suc k) n out h v m'"
    using inv v(1) frame pc due unfolding inv_def by simp
  then show ?thesis by (rule that)
qed

lemma save_step:
  assumes inv: "inv k n out h w m" and k: "Suc k < 2 ^ 64"
    and step: "machine_step E src next_item prepare Save m = Some m'"
  shows "inv (Suc k) n out h w m'"
proof -
  let ?c = "checkpoint_of E src (store (pipe m))"
  have at: "stands h m" using inv by (simp add: inv_def)
  obtain t es d' where pc: "pc m = Saving t es" "pc m' = Recording t es" "stands h m'"
    and d': "save_offset (rocks E) (store (pipe m)) src (offset t) = (Ok (), d')" "store (pipe m') = d'"
    and frame: "sent (pipe m') = sent (pipe m)" "held (pipe m') = held (pipe m)"
    by (rule saved_one [OF at step])
  have "kept keeps (Suc ?c) (Suc h) = offset t # map offset es" using inv pc at by (auto simp: inv_def stands_def)
  then obtain v where v: "first_due keeps ?c v" "v \<le> h" "offset t = show_nat v"
      "map offset es = kept keeps (Suc v) (Suc h)" by (rule kept_Cons)
  have "first_due keeps ?c w" using inv pc by (simp add: inv_def)
  then have w: "w = v" using first_due_unique v(1) by blast
  have "v < 2 ^ 64" using v(2) inv k by (simp add: inv_def)
  then have c: "checkpoint_of E src d' = v" using checkpoint_saved d'(1) v(3) by simp
  have "held (pipe m) = []" using at pc by (simp add: stands_def)
  moreover have "\<not> first_due keeps v v" by (simp add: first_due_def)
  ultimately show ?thesis using inv frame pc v w c d'(2) unfolding inv_def by auto
qed

lemma own_step:
  assumes inv: "inv k n out h w m" and k: "Suc k < 2 ^ 64" and ok: "admissible C a"
    and step: "machine_step E src next_item prepare a m = Some m'"
  shows "\<exists>h w. inv (Suc k) n out h w m'"
proof -
  have at: "stands h m" "Suc h < 2 ^ 64" using inv k by (simp_all add: inv_def)
  show ?thesis
  proof (cases a)
    case (Handle now)
    with handle_step [OF inv] step show ?thesis by blast
  next
    case (Send now)
    with send_step [OF inv k] step show ?thesis by blast
  next
    case Save
    with save_step [OF inv k] step show ?thesis by blast
  qed (use quiet_step [OF at ok step] inv_frame [OF inv, of m' "Suc k"] in \<open>force simp: quiet_def\<close>)+
qed

lemma step_guarantee:
  assumes "inv k n out h w m" and "machine_step E src next_item prepare a m = Some m'"
    and "inv k' n out h' w' m'" and "t \<noteq> src"
  shows "same_schemas E (store (pipe m)) (store (pipe m')) \<and> limiter_fit (limiter (pipe m'))
    \<and> checkpoint_of E t (store (pipe m')) = checkpoint_of E t (store (pipe m))"
  using step_store [OF _ assms(2,4)] assms(1,3) by (auto simp: inv_def stands_def)

lemma other_step:
  assumes "inv k n out h w m" and "same_schemas E (store (pipe m)) (store s)" and "limiter_fit (limiter s)"
    and "checkpoint_of E src (store s) = checkpoint_of E src (store (pipe m))"
  shows "inv (Suc k) n out h w (share s m)"
proof -
  have "stands h m" using assms(1) by (simp add: inv_def)
  note share_stands [OF this assms(2,3)]
  then show ?thesis by (rule inv_frame [OF assms(1)]) (simp_all add: share_def assms(4))
qed

lemma inv_delivers:
  "inv k n out h w m \<Longrightarrow> task (pipe m) = Running
     \<and> at_least_once keeps (out @ sent (pipe m)) (checkpoint_of E src (store (pipe m))) n"
  unfolding at_least_once_def
  by (rule conjI, simp add: inv_def stands_def, rule exI [of _ w])
    (auto simp: inv_def first_due_def kept_def filter_empty_conv)

lemma boot_inv:
  assumes "inv k n out h w m" and "checkpoint_of E src d = checkpoint_of E src (store (pipe m))"
    and "get_schema (rocks E) (schema_codec E) d ''postgres_users'' = Ok (Some user_schema)"
    and "limiter_fit b"
  shows "inv (Suc k) (Suc n) (out @ sent (pipe m)) (checkpoint_of E src d) w
     \<lparr>pipe = pipeline_new d fo b, pc = Idle, pos = start_position (last_offset E d src)\<rparr>"
  using assms new_stands [OF assms(3,4)] by (auto simp: inv_def checkpoint_of_def)

lemma first_boot_inv:
  assumes "checkpoint_of E src d = 0"
    and "get_schema (rocks E) (schema_codec E) d ''postgres_users'' = Ok (Some user_schema)"
    and "limiter_fit b"
  shows "inv 0 0 [] 0 0 \<lparr>pipe = pipeline_new d fo b, pc = Idle, pos = start_position (last_offset E d src)\<rparr>"
  using assms new_stands [OF assms(2,3)] by (auto simp: inv_def checkpoint_of_def first_due_def)

end

end
