(* ===== verification/Engine_Correct.thy ===== *)
theory Engine_Correct
  imports At_Least_Once
begin

text \<open>
  The engine as a whole: any schedule of the two tasks, with crashes and restarts anywhere. Both
  tasks keep running; each delivers what is due from its source, in order; and a crash makes at
  most one event per task be sent twice.
\<close>

section \<open>Specification\<close>

fun engine_admissible :: "int set \<Rightarrow> (int \<times> int) set \<Rightarrow> engine_action \<Rightarrow> bool" where
  "engine_admissible T U (Pg a) \<longleftrightarrow> admissible T a"
| "engine_admissible T U (Cass a) \<longleftrightarrow> admissible U a"
| "engine_admissible T U (Crash rd) \<longleftrightarrow> True"

fun is_crash :: "engine_action \<Rightarrow> bool" where
  "is_crash (Crash rd) \<longleftrightarrow> True"
| "is_crash _ \<longleftrightarrow> False"

definition crashes :: "engine_action list \<Rightarrow> nat" where
  "crashes acts = length (filter is_crash acts)"

section \<open>Lemmas\<close>

context faithful_engine
begin

definition engine_inv :: "nat \<Rightarrow> nat \<Rightarrow> 'db engine \<Rightarrow> bool" where
  "engine_inv k n g \<longleftrightarrow>
     (\<exists>h w. pgt.inv k n (pg_past g) h w (pg_task g)) \<and> (\<exists>h w. cat.inv k n (cass_past g) h w (cass_task g))
     \<and> store (pipe (cass_task g)) = store (pipe (pg_task g))"

lemma engine_inv_step:
  assumes inv: "engine_inv k n g" and k: "Suc k < 2 ^ 64" and ok: "engine_admissible T U a"
    and step: "engine_step E fmt a g = Some g'"
  shows "engine_inv (Suc k) (if is_crash a then Suc n else n) g'"
proof -
  obtain h w where pg: "pgt.inv k n (pg_past g) h w (pg_task g)" using inv by (auto simp: engine_inv_def)
  obtain h' w' where ca: "cat.inv k n (cass_past g) h' w' (cass_task g)" using inv by (auto simp: engine_inv_def)
  have st: "store (pipe (cass_task g)) = store (pipe (pg_task g))" using inv by (simp add: engine_inv_def)
  show ?thesis
  proof (cases a)
    case (Pg b)
    then obtain m where m: "machine_step E ''postgres_users'' pg_item (pg_prepare E) b (pg_task g) = Some m"
      and g': "g' = g\<lparr>pg_task := m, cass_task := share (pipe m) (cass_task g)\<rparr>"
      using step by auto
    from pgt.own_step [OF pg k _ m] ok Pg obtain i v where i: "pgt.inv (Suc k) n (pg_past g) i v m" by auto
    from pgt.step_guarantee [OF pg m i, of "''cassandra_sensors''"] st
    have "cat.inv (Suc k) n (cass_past g) h' w' (share (pipe m) (cass_task g))"
      by (intro cat.other_step [OF ca]) simp_all
    with i show ?thesis by (auto simp: engine_inv_def g' Pg share_def)
  next
    case (Cass b)
    then obtain m where m: "machine_step E ''cassandra_sensors'' (cass_item fmt) (\<lambda>now. cass_prepare) b (cass_task g) = Some m"
      and g': "g' = g\<lparr>cass_task := m, pg_task := share (pipe m) (pg_task g)\<rparr>"
      using step by auto
    from cat.own_step [OF ca k _ m] ok Cass obtain i v where i: "cat.inv (Suc k) n (cass_past g) i v m" by auto
    from cat.step_guarantee [OF ca m i, of "''postgres_users''"] st
    have "pgt.inv (Suc k) n (pg_past g) h w (share (pipe m) (pg_task g))"
      by (intro pgt.other_step [OF pg]) simp_all
    with i show ?thesis by (auto simp: engine_inv_def g' Cass share_def)
  next
    case (Crash rd)
    let ?d = "register_user_schema E (store (pipe (pg_task g)))"
    have g': "g' = boot E rd (store (pipe (pg_task g))) (all_pg_sent g) (all_cass_sent g)" using step Crash by simp
    have "pgt.stands h (pg_task g)" using pg by (simp add: pgt.inv_def)
    note reg = registered [OF this]
    from pgt.boot_inv [OF pg reg(2) reg(1) engine_limiter_fit, of "engine_failover (boot_beat rd)" "boot_limiter rd"]
      cat.boot_inv [OF ca _ reg(1) engine_limiter_fit, of "engine_failover (boot_beat rd)" "boot_limiter rd"] reg(2)
    show ?thesis
      unfolding engine_inv_def g' by (auto simp: Crash boot_tasks all_pg_sent_def all_cass_sent_def st)
  qed
qed

lemma engine_inv_run:
  assumes "engine_run E fmt acts g = Some g'" and "engine_inv k n g" and "k + length acts < 2 ^ 64"
    and "\<forall>a \<in> set acts. engine_admissible T U a"
  shows "engine_inv (k + length acts) (n + crashes acts) g'"
  using assms
proof (induction acts arbitrary: g k n)
  case (Cons a acts)
  then obtain g1 where g1: "engine_step E fmt a g = Some g1" "engine_run E fmt acts g1 = Some g'"
    by (auto split: Option.bind_splits)
  have "engine_inv (Suc k) (if is_crash a then Suc n else n) g1"
    by (rule engine_inv_step [OF Cons.prems(2) _ _ g1(1)]) (use Cons.prems in auto)
  from Cons.IH [OF g1(2) this] Cons.prems(3,4) show ?case by (auto simp: crashes_def split: if_splits)
qed (simp add: crashes_def)

lemma engine_inv_start:
  assumes "fresh_store E d"
  shows "engine_inv 0 0 (boot E rd d [] [])"
proof -
  have env: "healthy E" "codec_roundtrips (schema_codec E) user_schema" using env by (simp_all add: engine_env_def)
  note reg = schema_registered [OF env]
  have sch: "get_schema (rocks E) (schema_codec E) (register_user_schema E d) ''postgres_users'' = Ok (Some user_schema)"
    by (rule reg(1)) (use assms in \<open>simp add: fresh_store_def\<close>)
  have c: "checkpoint_of E ''postgres_users'' (register_user_schema E d) = 0"
    "checkpoint_of E ''cassandra_sensors'' (register_user_schema E d) = 0"
    using assms reg(2) [of d] by (simp_all add: checkpoint_of_def last_offset_get start_position_def fresh_store_def)
  show ?thesis
    unfolding engine_inv_def boot_tasks machine.select_convs
    using pgt.first_boot_inv [OF c(1) sch engine_limiter_fit] cat.first_boot_inv [OF c(2) sch engine_limiter_fit]
    by blast
qed

lemma engine_inv_delivers:
  assumes "engine_inv k n g"
  shows "task (pipe (pg_task g)) = Running \<and> task (pipe (cass_task g)) = Running
     \<and> at_least_once mutation_position (all_pg_sent g)
         (checkpoint_of E ''postgres_users'' (store (pipe (pg_task g)))) n
     \<and> at_least_once (\<lambda>i. True) (all_cass_sent g)
         (checkpoint_of E ''cassandra_sensors'' (store (pipe (cass_task g)))) n"
  using assms pgt.inv_delivers cat.inv_delivers
  unfolding engine_inv_def all_pg_sent_def all_cass_sent_def by blast

end

lemma engine_run_inv:
  assumes "engine_env E fmt T U" and "fresh_store E d"
    and "engine_run E fmt acts (boot E rd d [] []) = Some g" and "length acts < 2 ^ 64"
    and "\<forall>a \<in> set acts. engine_admissible T U a"
  shows "faithful_engine.engine_inv E fmt T U (length acts) (crashes acts) g"
proof -
  have f: "faithful_engine E fmt T U" using assms(1) by unfold_locales
  from faithful_engine.engine_inv_run [OF f assms(3) faithful_engine.engine_inv_start [OF f assms(2)] _ assms(5)]
  show ?thesis using assms(4) by simp
qed

section \<open>Closed examples\<close>

text \<open>An environment for closed examples: the pass-through module with a codec that sends the id of
  an event through and rebuilds the event of either source from it.\<close>

definition stream_codec :: event_codec where
  "stream_codec =
     \<lparr>event_to_vec = (\<lambda>e. Ok (as_bytes (ev_id e))),
      event_from_slice = (\<lambda>bs. case from_utf8 bs of
          Some s \<Rightarrow>
            (if take 7 s = ''pg-evt-''
             then (case parse_u64 (drop 7 s) of Some n \<Rightarrow> Ok (fst (pg_next 0 (n - 1))) | None \<Rightarrow> Err ''offset'')
             else case parse_u64 (drop 8 s) of Some n \<Rightarrow> Ok (fst (cas_next (\<lambda>_. []) (0, 0) (n - 1))) | None \<Rightarrow> Err ''offset'')
        | None \<Rightarrow> Err ''utf8'')\<rparr>"

definition stream_env :: "(bytes \<Rightarrow> bytes option, unit, nat \<Rightarrow> u8) env" where
  "stream_env = (demo_env [])\<lparr>event_json_codec := stream_codec\<rparr>"

definition demo_boot :: boot_readings where
  "demo_boot = \<lparr>boot_beat = 0, boot_limiter = 0, boot_seeds = (\<lambda>_. 0)\<rparr>"

definition demo_cass_round :: "engine_action list" where
  "demo_cass_round = map Cass [Next (0, 0), Check True, Beat 0, Acquire (from_millis 500), Handle 0, Send 0]"

lemma tagged_bytes:
  assumes "length tag \<le> 10" and "\<forall>c \<in> set tag. of_char c < (128 :: nat)"
  shows "length (as_bytes (tag @ show_nat (unat (w :: u64)))) \<le> 30"
    and "from_utf8 (as_bytes (tag @ show_nat (unat w))) = Some (tag @ show_nat (unat w))"
proof -
  have "unat w < 10 ^ 20" using unsigned_less [of w, where 'a = nat] by simp
  then have "length (show_nat (unat w)) \<le> 20" by (rule length_show_nat) simp
  then show "length (as_bytes (tag @ show_nat (unat w))) \<le> 30" using assms(1) by (simp add: as_bytes_def)
  have "utf8_valid (as_bytes (tag @ show_nat (unat w)))"
    by (rule utf8_ascii) (use assms(2) show_nat_ascii in auto)
  then show "from_utf8 (as_bytes (tag @ show_nat (unat w))) = Some (tag @ show_nat (unat w))"
    by (simp add: from_utf8_as_bytes)
qed

lemma stream_passes:
  assumes "event_from_slice stream_codec (as_bytes (ev_id e)) = Ok e" and "length (as_bytes (ev_id e)) \<le> 30"
    and "offset e = show_nat n"
  shows "passes_through stream_env e"
proof -
  have l: "length (as_bytes (ev_id e)) < 2 ^ 31" "length (as_bytes (ev_id e)) \<le> page"
    using assms(2) by (simp_all add: page_def)
  have vec: "event_to_vec stream_codec e = Ok (as_bytes (ev_id e))" by (simp add: stream_codec_def)
  have "transform passthrough stream_codec () e = Some (Ok e)"
    using passthrough_run [OF l(1), of stream_codec] l(2) assms(1) vec
    by (simp add: transform_def passthrough_def)
  moreover have "utf8_valid (as_bytes (offset e))"
    unfolding assms(3) by (rule utf8_ascii) (use show_nat_ascii in blast)
  ultimately show ?thesis by (simp add: passes_through_def stream_env_def demo_env_def)
qed

lemma stream_engine_env: "engine_env stream_env (\<lambda>_. []) {0} {(0, 0)}"
proof -
  have "healthy stream_env" using demo_env_healthy [of "[]"] by (simp add: healthy_def stream_env_def)
  moreover have "codec_roundtrips (schema_codec stream_env) user_schema"
    by (simp add: stream_env_def demo_env_def codec_roundtrips_def demo_codec_def)
  moreover have "passes_through stream_env (fst (pg_next 0 p))" for p
    using tagged_bytes [of "''pg-evt-''" "p + 1"]
    by (intro stream_passes [where n = "unat (p + 1)"]) (simp_all add: stream_codec_def)
  moreover have "passes_through stream_env (fst (cas_next (\<lambda>_. []) (0, 0) p))" for p
    using tagged_bytes [of "''cas-evt-''" "p + 1"]
    by (intro stream_passes [where n = "unat (p + 1)"]) (simp_all add: stream_codec_def)
  ultimately show ?thesis by (simp add: engine_env_def)
qed

interpretation stream: faithful_engine stream_env "\<lambda>_. []" "{0}" "{(0, 0)}"
  by unfold_locales (rule stream_engine_env)

lemma stream_fresh_store: "fresh_store stream_env Map.empty"
  by (simp add: fresh_store_def stream_env_def demo_env_def mem_rocksdb_def get_schema_def get_offset_def)

text \<open>A Cassandra event, taken by a task that has processed nothing yet.\<close>

lemma demo_cass_item:
  assumes "p + 1 = q" and "unat q = n"
  obtains e b f where "cas_next (\<lambda>_. []) (0, 0) p = (e, q)" and "offset e = show_nat n"
    and "acquire (engine_limiter 0) 1 [from_millis 500] = Acquired b"
    and "\<And>s :: (bytes \<Rightarrow> bytes option) pipeline. dedup s = dedup_new 1000 \<Longrightarrow> tx_buffer s = tx_new \<Longrightarrow>
      cass_prepare e s = ([e], s\<lparr>dedup := f, tx_buffer := tx_new\<rparr>)"
    and "transform (wasm stream_env) (event_json_codec stream_env) () e = Some (Ok e)"
proof -
  obtain e where e: "cas_next (\<lambda>_. []) (0, 0) p = (e, q)" "e = fst (cas_next (\<lambda>_. []) (0, 0) p)"
    using cas_next_fields(1) [of "\<lambda>_. []" "(0, 0)" p] assms(1) by (cases "cas_next (\<lambda>_. []) (0, 0) p") auto
  obtain b where b: "acquire (engine_limiter 0) 1 [from_millis 500] = Acquired b"
    using half_second_acquires [OF engine_limiter_fit [of 0], of "from_millis 500" "[]"]
    by (auto simp: engine_limiter_def bucket_new_def)
  have tx: "tx_process tx_new e = ([e], tx_new)" by (simp add: e(2) tx_process_def cas_next_def Let_def)
  obtain f where f: "check_and_track (dedup_new 1000) (ev_id e) = (False, f)"
    by (simp add: check_and_track_def dedup_new_def Let_def)
  have "cass_prepare e s = ([e], s\<lparr>dedup := f, tx_buffer := tx_new\<rparr>)"
    if "dedup s = dedup_new 1000" "tx_buffer s = tx_new" for s :: "(bytes \<Rightarrow> bytes option) pipeline"
    using that by (simp add: cass_prepare_def f tx)
  moreover have "transform (wasm stream_env) (event_json_codec stream_env) () e = Some (Ok e)"
    using stream_engine_env e(2) by (simp add: engine_env_def passes_through_def)
  moreover have "offset e = show_nat n" using assms by (simp add: e(2))
  ultimately show ?thesis using that [OF e(1) _ b] by blast
qed

text \<open>The first Cassandra event after a start, up to the send.\<close>

lemma demo_cass_round_runs:
  assumes "get_offset mem_rocksdb d ''cassandra_sensors'' = Ok None"
    and "get_schema mem_rocksdb (demo_codec user_schema) d ''postgres_users'' \<in> {Ok None, Ok (Some user_schema)}"
  obtains g where "engine_run stream_env (\<lambda>_. []) demo_cass_round (boot stream_env demo_boot d xs ys) = Some g"
    and "map offset (all_cass_sent g) = map offset ys @ [''1'']" 
    and "store (pipe (pg_task g)) = register_user_schema stream_env d"
proof -
  let ?d = "register_user_schema stream_env d"
  obtain e b f where e: "cas_next (\<lambda>_. []) (0, 0) 0 = (e, 1)" and off: "offset e = show_nat 1"
    and b: "acquire (engine_limiter 0) 1 [from_millis 500] = Acquired b"
    and prep: "\<And>s :: (bytes \<Rightarrow> bytes option) pipeline. dedup s = dedup_new 1000 \<Longrightarrow> tx_buffer s = tx_new \<Longrightarrow>
      cass_prepare e s = ([e], s\<lparr>dedup := f, tx_buffer := tx_new\<rparr>)"
    and pass: "transform (wasm stream_env) (event_json_codec stream_env) () e = Some (Ok e)"
    by (rule demo_cass_item [of 0 1 1]) (simp, simp, rule that)
  have pos: "start_position (last_offset stream_env ?d ''cassandra_sensors'') = 0"
  proof -
    have env: "healthy stream_env" "codec_roundtrips (schema_codec stream_env) user_schema"
      using stream_engine_env by (simp_all add: engine_env_def)
    have "get_schema (rocks stream_env) (schema_codec stream_env) d ''postgres_users'' \<in> {Ok None, Ok (Some user_schema)}"
      using assms(2) by (simp add: stream_env_def demo_env_def)
    from schema_registered(2) [OF env this] assms(1) show ?thesis
      by (simp add: last_offset_get start_position_def stream_env_def demo_env_def)
  qed
  have "\<exists>g. engine_run stream_env (\<lambda>_. []) demo_cass_round (boot stream_env demo_boot d xs ys) = Some g
      \<and> all_cass_sent g = ys @ [e] \<and> store (pipe (pg_task g)) = ?d"
    by (simp add: demo_cass_round_def boot_tasks demo_boot_def machine_step_def cass_item_def e pos b prep pass
        pipeline_new_def Let_def continue_def all_cass_sent_def send_event_def share_def emit_def sent_def
        List.map_filter_simps del: acquire.simps)
  moreover have "show_nat 1 = ''1''" by code_simp
  then have "offset e = ''1''" by (simp only: off)
  ultimately show ?thesis using that by auto
qed

lemma engine_run_append:
  "engine_run E fmt (as @ bs) g = Option.bind (engine_run E fmt as g) (engine_run E fmt bs)"
proof (induction as arbitrary: g)
  case (Cons a as)
  then show ?case by (cases "engine_step E fmt a g") simp_all
qed simp

section \<open>Properties\<close>



end
