(* ===== verification/Sessions.thy ===== *)
theory Sessions
  imports Engine_Correct Node
begin

text \<open>
  The tasks under the flag of the election loop: a session is the time between two starts of the
  process. What a task takes off its stream before the node leads is dropped, and everything due
  after that is delivered, in order and once in the session.
\<close>

section \<open>Specification\<close>

text \<open>
  A session that started at \<open>base\<close> and dropped \<open>drops\<close> items: the offsets sent are the ones due
  after those, in order; nothing is sent before the node leads; and the checkpoint is the one of the
  start or an offset the session sent.
\<close>

definition session :: "(nat \<Rightarrow> bool) \<Rightarrow> nat \<Rightarrow> nat \<Rightarrow> bool \<Rightarrow> change_event list \<Rightarrow> nat \<Rightarrow> bool" where
  "session keeps base drops leader out checkpoint \<longleftrightarrow>
     (\<exists>w. map offset out = map show_nat (filter keeps [Suc (base + drops)..<Suc w]))
     \<and> (leader \<or> out = []) \<and> (checkpoint = base \<or> show_nat checkpoint \<in> set (map offset out))"

fun clocked :: "'c set \<Rightarrow> 'c action \<Rightarrow> bool" where
  "clocked C (Next c) \<longleftrightarrow> c \<in> C"
| "clocked C _ \<longleftrightarrow> True"

fun node_clocked :: "int set \<Rightarrow> (int \<times> int) set \<Rightarrow> node_action \<Rightarrow> bool" where
  "node_clocked T U (Step (Pg a)) \<longleftrightarrow> clocked T a"
| "node_clocked T U (Step (Cass a)) \<longleftrightarrow> clocked U a"
| "node_clocked T U _ \<longleftrightarrow> True"

text \<open>Whether the task has passed the leader check with the item it holds.\<close>

fun led :: "'e pc \<Rightarrow> bool" where
  "led Idle \<longleftrightarrow> False"
| "led (Received r) \<longleftrightarrow> False"
| "led _ \<longleftrightarrow> True"

section \<open>Lemmas\<close>

lemma admissible_iff: "admissible C a \<longleftrightarrow> clocked C a \<and> a \<noteq> Check False"
  by (cases a) auto

lemma unled_step:
  assumes "machine_step E src next_item prepare a m = Some m'" and "\<not> led (pc m)" and "admissible C a"
  shows "(\<exists>c. a = Next c) \<and> \<not> led (pc m') \<or> a = Check True"
  using assms(2,3) step_at [OF assms(1)] assms(1) by (cases a) (auto simp: machine_step_def split_beta split: if_splits)

definition untouched :: "'db pipeline \<Rightarrow> bool" where
  "untouched s \<longleftrightarrow> tx_buffer s = tx_new \<and> watermark_engine s = wm_new \<and> dedup s = dedup_new 1000"

lemma same_stages_untouched: "same_stages s (t\<lparr>limiter := limiter s\<rparr>) \<Longrightarrow> untouched t = untouched s"
  by (simp add: same_stages_def untouched_def)

lemma untouched_new [simp]: "untouched (pipeline_new d fo b)"
  by (simp add: untouched_def pipeline_new_def)

lemma kept_in:
  assumes "x \<in> set (kept keeps lo (Suc h))"
  obtains i where "i \<le> h" and "x = show_nat i"
proof -
  obtain i where "i \<in> set [lo..<Suc h]" "x = show_nat i" using assms unfolding kept_def by auto
  then show ?thesis using that [of i] by (simp del: upt_Suc)
qed

lemma kept_prefix:
  "kept keeps (Suc b) hi = xs @ ys \<Longrightarrow> \<exists>w. xs = kept keeps (Suc b) (Suc w)"
proof (induction hi arbitrary: ys)
  case 0
  then show ?case by (intro exI [of _ b]) simp
next
  case (Suc hi)
  show ?case
  proof (cases ys rule: rev_cases)
    case Nil
    then show ?thesis using Suc.prems by (intro exI [of _ hi]) simp
  next
    case (snoc zs z)
    then have "Suc b \<le> hi" using Suc.prems by (cases "hi \<le> b") simp_all
    from kept_snoc [OF this, of keeps] Suc.prems snoc
    have "kept keeps (Suc b) hi = xs @ (if keeps hi then zs else ys)" by (simp split: if_splits)
    then show ?thesis by (rule Suc.IH)
  qed
qed

section \<open>The invariant of a session\<close>

context resumable_task
begin

text \<open>
  The invariant after \<open>k\<close> steps: the task is at position \<open>h\<close>; what it sent, has still to send
  and holds is what is due after the items dropped; its stages are new as long as it has processed
  nothing, which is the case while the node does not lead.
\<close>

definition sess :: "nat \<Rightarrow> nat \<Rightarrow> nat \<Rightarrow> bool \<Rightarrow> nat \<Rightarrow> ('db, 'e) machine \<Rightarrow> bool" where
  "sess k base drops leader h m \<longleftrightarrow>
     stands h m \<and> h \<le> k \<and> base + drops \<le> h
     \<and> get_schema (rocks E) (schema_codec E) (store (pipe m)) ''postgres_users'' = Ok (Some user_schema)
     \<and> map offset (sent (pipe m) @ unsent (pc m) @ held (pipe m)) = kept keeps (Suc (base + drops)) (Suc h)
     \<and> (base + drops = h \<longrightarrow> untouched (pipe m))
     \<and> (\<forall>t. flight (pc m) = Some t \<longrightarrow> offset t \<in> set (map offset (sent (pipe m))))
     \<and> (checkpoint_of E src (store (pipe m)) = base
        \<or> show_nat (checkpoint_of E src (store (pipe m))) \<in> set (map offset (sent (pipe m))))
     \<and> (\<not> leader \<longrightarrow> base + drops = h \<and> \<not> led (pc m))"

lemma untouched_fit:
  assumes "untouched s" and "get_schema (rocks E) (schema_codec E) (store s) ''postgres_users'' = Ok (Some user_schema)"
  shows "fit h s" and "held s = []"
proof -
  let ?n = "pipeline_new (store s) (failover s) (limiter s)"
  have "same_stages ?n (s\<lparr>limiter := limiter ?n\<rparr>)"
    using assms(1) by (simp add: same_stages_def untouched_def pipeline_new_def)
  from fit_frame [OF _ this] fit_new [OF assms(2)] show "fit h s" "held s = []"
    by (simp_all add: pipeline_new_def)
qed

lemma sess_frame:
  assumes "sess k base drops leader h m" and "stands h m'" and "held (pipe m') = held (pipe m)" and "k \<le> k'"
    and "flight (pc m') = flight (pc m)" and "unsent (pc m') = unsent (pc m)" and "sent (pipe m') = sent (pipe m)"
    and "same_stages (pipe m) ((pipe m')\<lparr>limiter := limiter (pipe m)\<rparr>)"
    and "same_schemas E (store (pipe m)) (store (pipe m'))"
    and "checkpoint_of E src (store (pipe m')) = checkpoint_of E src (store (pipe m))"
    and "\<not> leader \<longrightarrow> \<not> led (pc m')"
  shows "sess k' base drops leader h m'"
  using assms same_stages_untouched [OF assms(8)] unfolding sess_def same_schemas_def by auto

lemma sess_quiet:
  assumes ses: "sess k base drops leader h m" and lt: "Suc h < 2 ^ 64" and ok: "admissible C a"
    and flag: "a = Check True \<longrightarrow> leader"
    and step: "machine_step E src next_item prepare a m = Some m'"
    and kind: "case a of Handle _ \<Rightarrow> False | Send _ \<Rightarrow> False | Save \<Rightarrow> False | _ \<Rightarrow> True"
  shows "sess (Suc k) base drops leader h m'"
proof -
  have at: "stands h m" using ses by (simp add: sess_def)
  have q: "stands h m'" "quiet m m'" "held (pipe m') = held (pipe m)"
    using quiet_step [OF at lt ok step kind] by simp_all
  have "\<not> leader \<longrightarrow> \<not> led (pc m')"
    using unled_step [OF step _ ok] ses flag by (auto simp: sess_def)
  then show ?thesis
    by (intro sess_frame [OF ses q(1,3)]) (use q(2) in \<open>simp_all add: quiet_def\<close>)
qed

lemma sess_handle:
  assumes ses: "sess k base drops leader h m"
    and step: "machine_step E src next_item prepare (Handle now) m = Some m'"
  shows "sess (Suc k) base drops leader (Suc h) m'"
proof -
  have at: "stands h m" using ses by (simp add: sess_def)
  have leader: leader
    using unled_step [OF step, where C = C] ses by (auto simp: sess_def)
  show ?thesis
  proof (rule handled [OF at step])
    fix e ms s'
    assume m': "m' = m\<lparr>pc := continue ms, pipe := s'\<rparr>" and e: "offset e = show_nat (Suc h)"
      and rel: "ms @ held s' = held (pipe m) @ (if keeps (Suc h) then [e] else [])"
      and rest: "stands (Suc h) m'" "store s' = store (pipe m)" "sent s' = sent (pipe m)" "unsent (pc m) = []"
    have "map offset (sent s' @ ms @ held s') = kept keeps (Suc (base + drops)) (Suc (Suc h))"
      unfolding rel using ses e rest(3,4) kept_snoc [of "Suc (base + drops)" "Suc h" keeps] by (auto simp: sess_def)
    then show ?thesis using rest ses leader by (simp add: sess_def m')
  qed
qed

lemma sess_send:
  assumes ses: "sess k base drops leader h m"
    and step: "machine_step E src next_item prepare (Send now) m = Some m'"
  shows "sess (Suc k) base drops leader h m'"
proof -
  have at: "stands h m" using ses by (simp add: sess_def)
  have leader: leader
    using unled_step [OF step, where C = C] ses by (auto simp: sess_def)
  obtain e es where pc: "pc m = Delivering (e # es)" "pc m' = Echoing e es" "stands h m'"
    and sent: "sent (pipe m') = sent (pipe m) @ [e]"
    and frame: "store (pipe m') = store (pipe m)" "held (pipe m') = held (pipe m)" "same_stages (pipe m) (pipe m')"
    by (rule sent_one [OF at step])
  have "untouched (pipe m') = untouched (pipe m)" using frame(3) by (simp add: same_stages_def untouched_def)
  then show ?thesis using ses pc sent frame leader by (auto simp: sess_def)
qed

lemma sess_save:
  assumes ses: "sess k base drops leader h m" and k: "Suc k < 2 ^ 64"
    and step: "machine_step E src next_item prepare Save m = Some m'"
  shows "sess (Suc k) base drops leader h m'"
proof -
  have at: "stands h m" using ses by (simp add: sess_def)
  have leader: leader
    using unled_step [OF step, where C = C] ses by (auto simp: sess_def)
  obtain t es d' where pc: "pc m = Saving t es" "pc m' = Recording t es" "stands h m'"
    and d': "save_offset (rocks E) (store (pipe m)) src (offset t) = (Ok (), d')" "store (pipe m') = d'"
    and frame: "same_schemas E (store (pipe m)) d'" "sent (pipe m') = sent (pipe m)" "held (pipe m') = held (pipe m)"
      "same_stages (pipe m) (pipe m')"
    by (rule saved_one [OF at step])
  have t: "offset t \<in> set (map offset (sent (pipe m)))" using ses pc(1) by (simp add: sess_def)
  moreover have "set (map offset (sent (pipe m))) \<subseteq> set (kept keeps (Suc (base + drops)) (Suc h))"
    using ses by (metis (no_types, lifting) Un_upper1 map_append set_append sess_def)
  ultimately obtain v where v: "v \<le> h" "offset t = show_nat v" using kept_in [of _ keeps] by blast
  have "v < 2 ^ 64" using v(1) ses k by (simp add: sess_def)
  then have c: "checkpoint_of E src d' = v" using checkpoint_saved d'(1) v(2) by simp
  have "untouched (pipe m') = untouched (pipe m)" using frame(4) by (simp add: same_stages_def untouched_def)
  then show ?thesis using ses pc d' frame leader t v(2) c unfolding sess_def same_schemas_def by auto
qed

text \<open>An item dropped.\<close>

lemma sess_drop:
  assumes ses: "sess k base drops False h m"
    and step: "machine_step E src next_item prepare (Check False) m = Some m'"
  shows "sess (Suc k) base (Suc drops) False (Suc h) m'"
proof -
  have at: "stands h m" "base + drops = h" using ses by (simp_all add: sess_def)
  have run: "task (pipe m) = Running" using at by (simp add: stands_def)
  obtain r where pc: "pc m = Received r"
    using step_at [OF step] by auto
  then have m': "m' = m\<lparr>pc := Idle\<rparr>" using step run by (simp add: machine_step_def)
  obtain c p where p: "c \<in> C" "unat p = h" "h + 1 < 2 ^ 64" "next_item c p = (r, pos m)"
    using at(1) pc by (auto simp: stands_def located_def)
  then have "pos m = p + 1" using next_due [of c p] by auto
  then have "unat (pos m) = Suc h" using p(2,3) unat_next by simp
  then have "located (Suc h) m'" by (simp add: located_def m')
  moreover have new: "untouched (pipe m)"
    "get_schema (rocks E) (schema_codec E) (store (pipe m)) ''postgres_users'' = Ok (Some user_schema)"
    using ses at(2) by (simp_all add: sess_def)
  ultimately have "stands (Suc h) m'"
    using at(1) untouched_fit [OF new] by (simp add: stands_def m')
  then show ?thesis using ses untouched_fit(2) [OF new] new at(2) by (auto simp: sess_def m')
qed

lemma sess_step:
  assumes ses: "sess k base drops leader h m" and k: "Suc k < 2 ^ 64" and ok: "clocked C a"
    and flag: "\<And>l. a = Check l \<Longrightarrow> l = leader"
    and step: "machine_step E src next_item prepare a m = Some m'"
  shows "\<exists>h. sess (Suc k) base (if a = Check False then Suc drops else drops) leader h m'"
proof (cases "a = Check False")
  case True
  then show ?thesis using sess_drop [of k base drops h m m'] ses flag [of False] step by auto
next
  case False
  have lt: "Suc h < 2 ^ 64" using ses k by (simp add: sess_def)
  have ok: "admissible C a" using ok False by (simp add: admissible_iff)
  have flag: "a = Check True \<longrightarrow> leader" using flag [of True] by simp
  note quiet = sess_quiet [OF ses lt ok flag step]
  show ?thesis
  proof (cases a)
    case (Handle now)
    with sess_handle [OF ses] step show ?thesis by auto
  next
    case (Send now)
    with sess_send [OF ses] step show ?thesis by auto
  next
    case Save
    with sess_save [OF ses k] step show ?thesis by auto
  qed (use quiet False in auto)
qed

lemma sess_other:
  assumes "sess k base drops leader h m" and "same_schemas E (store (pipe m)) (store s)" and "limiter_fit (limiter s)"
    and "checkpoint_of E src (store s) = checkpoint_of E src (store (pipe m))"
  shows "sess (Suc k) base drops leader h (share s m)"
proof -
  have "stands h m" using assms(1) by (simp add: sess_def)
  note share_stands [OF this assms(2,3)]
  then show ?thesis
    by (rule sess_frame [OF assms(1)]; use assms in \<open>simp add: share_def same_stages_def sess_def\<close>)
qed

lemma sess_elect:
  assumes "sess k base drops leader h m" and "leader \<longrightarrow> leader'"
  shows "sess (Suc k) base drops leader' h m"
  using assms by (auto simp: sess_def)

lemma sess_boot:
  assumes "checkpoint_of E src d \<le> k"
    and "get_schema (rocks E) (schema_codec E) d ''postgres_users'' = Ok (Some user_schema)" and "limiter_fit b"
  shows "sess k (checkpoint_of E src d) 0 False (checkpoint_of E src d)
     \<lparr>pipe = pipeline_new d fo b, pc = Idle, pos = start_position (last_offset E d src)\<rparr>"
  using assms new_stands [OF assms(2,3)]
  by (auto simp: sess_def checkpoint_of_def)

lemma sess_session:
  assumes "sess k base drops leader h m"
  shows "task (pipe m) = Running"
    and "session keeps base drops leader (sent (pipe m)) (checkpoint_of E src (store (pipe m)))"
proof -
  have "kept keeps (Suc (base + drops)) (Suc h) = map offset (sent (pipe m)) @ map offset (unsent (pc m) @ held (pipe m))"
    using assms by (simp add: sess_def)
  then have "\<exists>w. map offset (sent (pipe m)) = kept keeps (Suc (base + drops)) (Suc w)" by (rule kept_prefix)
  moreover have "leader \<or> sent (pipe m) = []" using assms by (auto simp: sess_def)
  ultimately show "session keeps base drops leader (sent (pipe m)) (checkpoint_of E src (store (pipe m)))"
    using assms unfolding session_def kept_def sess_def by blast
qed (use assms in \<open>simp add: sess_def stands_def\<close>)

lemma sess_checkpoint:
  assumes "sess k base drops leader h m" and "h < 2 ^ 64"
  shows "checkpoint_of E src (store (pipe m)) \<le> k"
proof -
  have "checkpoint_of E src (store (pipe m)) \<le> h"
    if c: "show_nat (checkpoint_of E src (store (pipe m))) \<in> set (map offset (sent (pipe m)))"
  proof -
    have "set (map offset (sent (pipe m))) \<subseteq> set (kept keeps (Suc (base + drops)) (Suc h))"
      using assms(1) by (metis (no_types, lifting) Un_upper1 map_append set_append sess_def)
    then obtain i where "i \<le> h" "show_nat (checkpoint_of E src (store (pipe m))) = show_nat i"
      using c kept_in [of _ keeps] by blast
    moreover have "checkpoint_of E src (store (pipe m)) < 2 ^ 64"
      unfolding checkpoint_of_def using unsigned_less [where 'b = 64 and 'a = nat] by simp
    ultimately show ?thesis using assms(2) show_nat_inject by auto
  qed
  then show ?thesis using assms(1) by (auto simp: sess_def)
qed

end

section \<open>The node\<close>

context faithful_engine
begin

definition node_inv :: "nat \<Rightarrow> 'db node \<Rightarrow> bool" where
  "node_inv k x \<longleftrightarrow>
     (\<exists>h. pgt.sess k (pg_base x) (pg_drops x) (is_leader (coord x)) h (pg_task (tasks x)))
     \<and> (\<exists>h. cat.sess k (cass_base x) (cass_drops x) (is_leader (coord x)) h (cass_task (tasks x)))
     \<and> store (pipe (cass_task (tasks x))) = store (pipe (pg_task (tasks x)))"

lemma node_boot_inv:
  assumes "get_schema (rocks E) (schema_codec E) d ''postgres_users'' \<in> {Ok None, Ok (Some user_schema)}"
    and "checkpoint_of E ''postgres_users'' d \<le> k" and "checkpoint_of E ''cassandra_sensors'' d \<le> k"
  shows "node_inv k (node_boot E rd d xs ys)"
proof -
  have env: "healthy E" "codec_roundtrips (schema_codec E) user_schema" using env by (simp_all add: engine_env_def)
  note reg = schema_registered [OF env assms(1)]
  have c: "checkpoint_of E t (register_user_schema E d) = checkpoint_of E t d" for t
    using reg(2) by (simp add: checkpoint_of_def last_offset_get)
  have "checkpoint_of E ''postgres_users'' (register_user_schema E d) \<le> k"
    "checkpoint_of E ''cassandra_sensors'' (register_user_schema E d) \<le> k"
    using assms(2,3) by (simp_all add: c)
  note pg = pgt.sess_boot [OF this(1) reg(1) engine_limiter_fit] and ca = cat.sess_boot [OF this(2) reg(1) engine_limiter_fit]
  show ?thesis
    unfolding node_inv_def node_boot_def Let_def boot_tasks node.simps machine.simps coordinator_new_def coordinator.simps
      checkpoint_of_def [symmetric]
    by (intro conjI exI, rule pg, rule ca) simp
qed

lemma node_pg_step:
  assumes inv: "node_inv k x" and k: "Suc k < 2 ^ 64" and ok: "clocked T a"
    and flag: "\<And>l. a = Check l \<Longrightarrow> l = is_leader (coord x)"
    and step: "engine_step E fmt (Pg a) (tasks x) = Some g"
  shows "node_inv (Suc k) (x\<lparr>tasks := g, pg_drops := (if a = Check False then Suc (pg_drops x) else pg_drops x)\<rparr>)"
proof -
  obtain h where pg: "pgt.sess k (pg_base x) (pg_drops x) (is_leader (coord x)) h (pg_task (tasks x))"
    using inv by (auto simp: node_inv_def)
  obtain h' where ca: "cat.sess k (cass_base x) (cass_drops x) (is_leader (coord x)) h' (cass_task (tasks x))"
    using inv by (auto simp: node_inv_def)
  have st: "store (pipe (cass_task (tasks x))) = store (pipe (pg_task (tasks x)))" using inv by (simp add: node_inv_def)
  obtain m where m: "machine_step E ''postgres_users'' pg_item (pg_prepare E) a (pg_task (tasks x)) = Some m"
    and g: "g = (tasks x)\<lparr>pg_task := m, cass_task := share (pipe m) (cass_task (tasks x))\<rparr>"
    using step by auto
  obtain i where i: "pgt.sess (Suc k) (pg_base x) (if a = Check False then Suc (pg_drops x) else pg_drops x)
      (is_leader (coord x)) i m"
    using pgt.sess_step [OF pg k ok flag m] by blast
  have "limiter_fit (limiter (pipe m))" using i by (simp add: pgt.sess_def pgt.stands_def)
  moreover have "pgt.stands h (pg_task (tasks x))" using pg by (simp add: pgt.sess_def)
  note pgt.step_store [OF this m, of "''cassandra_sensors''"]
  ultimately have "cat.sess (Suc k) (cass_base x) (cass_drops x) (is_leader (coord x)) h'
      (share (pipe m) (cass_task (tasks x)))"
    by (intro cat.sess_other [OF ca]) (simp_all add: st)
  with i show ?thesis by (auto simp: node_inv_def g share_def)
qed

lemma node_cass_step:
  assumes inv: "node_inv k x" and k: "Suc k < 2 ^ 64" and ok: "clocked U a"
    and flag: "\<And>l. a = Check l \<Longrightarrow> l = is_leader (coord x)"
    and step: "engine_step E fmt (Cass a) (tasks x) = Some g"
  shows "node_inv (Suc k) (x\<lparr>tasks := g, cass_drops := (if a = Check False then Suc (cass_drops x) else cass_drops x)\<rparr>)"
proof -
  obtain h where pg: "pgt.sess k (pg_base x) (pg_drops x) (is_leader (coord x)) h (pg_task (tasks x))"
    using inv by (auto simp: node_inv_def)
  obtain h' where ca: "cat.sess k (cass_base x) (cass_drops x) (is_leader (coord x)) h' (cass_task (tasks x))"
    using inv by (auto simp: node_inv_def)
  have st: "store (pipe (cass_task (tasks x))) = store (pipe (pg_task (tasks x)))" using inv by (simp add: node_inv_def)
  obtain m where m: "machine_step E ''cassandra_sensors'' (cass_item fmt) (\<lambda>now. cass_prepare) a (cass_task (tasks x)) = Some m"
    and g: "g = (tasks x)\<lparr>cass_task := m, pg_task := share (pipe m) (pg_task (tasks x))\<rparr>"
    using step by auto
  obtain i where i: "cat.sess (Suc k) (cass_base x) (if a = Check False then Suc (cass_drops x) else cass_drops x)
      (is_leader (coord x)) i m"
    using cat.sess_step [OF ca k ok flag m] by blast
  have "limiter_fit (limiter (pipe m))" using i by (simp add: cat.sess_def cat.stands_def)
  moreover have "cat.stands h' (cass_task (tasks x))" using ca by (simp add: cat.sess_def)
  note cat.step_store [OF this m, of "''postgres_users''"]
  ultimately have "pgt.sess (Suc k) (pg_base x) (pg_drops x) (is_leader (coord x)) h
      (share (pipe m) (pg_task (tasks x)))"
    by (intro pgt.sess_other [OF pg]) (simp_all add: st [symmetric])
  with i show ?thesis by (auto simp: node_inv_def g share_def)
qed

lemma node_elect:
  assumes "node_inv k x"
  shows "node_inv (Suc k) (x\<lparr>coord := election_tick (coord x)\<rparr>)"
proof -
  obtain h h' where s: "pgt.sess k (pg_base x) (pg_drops x) (is_leader (coord x)) h (pg_task (tasks x))"
    "cat.sess k (cass_base x) (cass_drops x) (is_leader (coord x)) h' (cass_task (tasks x))"
    using assms by (auto simp: node_inv_def)
  have "is_leader (coord x) \<longrightarrow> is_leader (election_tick (coord x))" by (simp add: election_keeps_leader)
  from pgt.sess_elect [OF s(1) this] cat.sess_elect [OF s(2) this] assms show ?thesis
    by (auto simp: node_inv_def)
qed

lemma node_crash:
  assumes "node_inv k x" and "Suc k < 2 ^ 64"
  shows "node_inv (Suc k) (node_boot E rd (store (pipe (pg_task (tasks x)))) xs ys)"
proof -
  obtain h h' where s: "pgt.sess k (pg_base x) (pg_drops x) (is_leader (coord x)) h (pg_task (tasks x))"
    "cat.sess k (cass_base x) (cass_drops x) (is_leader (coord x)) h' (cass_task (tasks x))"
    using assms(1) by (auto simp: node_inv_def)
  have "h < 2 ^ 64" "h' < 2 ^ 64" using s assms(2) by (simp_all add: pgt.sess_def cat.sess_def)
  with pgt.sess_checkpoint [OF s(1)] cat.sess_checkpoint [OF s(2)] assms(1) s(1)
  show ?thesis by (intro node_boot_inv) (auto simp: node_inv_def pgt.sess_def)
qed

lemma node_inv_step:
  assumes inv: "node_inv k x" and k: "Suc k < 2 ^ 64" and ok: "node_clocked T U a"
    and step: "node_step E fmt a x = Some x'"
  shows "node_inv (Suc k) x'"
proof (cases a)
  case Elect
  with step node_elect [OF inv] show ?thesis by simp
next
  case (Step b)
  show ?thesis
  proof (cases b)
    case (Crash rd)
    then have "x' = node_boot E rd (store (pipe (pg_task (tasks x)))) (all_pg_sent (tasks x)) (all_cass_sent (tasks x))"
      using Step step by simp
    then show ?thesis using node_crash [OF inv k] by simp
  next
    case (Pg c)
    obtain g where "engine_step E fmt (Pg c) (tasks x) = Some g"
        "x' = x\<lparr>tasks := g, pg_drops := (if c = Check False then Suc (pg_drops x) else pg_drops x)\<rparr>"
        "\<And>l. c = Check l \<Longrightarrow> l = is_leader (coord x)"
      using step Step Pg by (cases c) (auto split: if_splits)
    with node_pg_step [OF inv k] ok Step Pg show ?thesis by simp
  next
    case (Cass c)
    obtain g where "engine_step E fmt (Cass c) (tasks x) = Some g"
        "x' = x\<lparr>tasks := g, cass_drops := (if c = Check False then Suc (cass_drops x) else cass_drops x)\<rparr>"
        "\<And>l. c = Check l \<Longrightarrow> l = is_leader (coord x)"
      using step Step Cass by (cases c) (auto split: if_splits)
    with node_cass_step [OF inv k] ok Step Cass show ?thesis by simp
  qed
qed

lemma node_inv_sessions:
  assumes "node_inv k x"
  shows "task (pipe (pg_task (tasks x))) = Running \<and> task (pipe (cass_task (tasks x))) = Running
    \<and> session mutation_position (pg_base x) (pg_drops x) (is_leader (coord x)) (sent (pipe (pg_task (tasks x))))
        (checkpoint_of E ''postgres_users'' (store (pipe (pg_task (tasks x)))))
    \<and> session (\<lambda>i. True) (cass_base x) (cass_drops x) (is_leader (coord x)) (sent (pipe (cass_task (tasks x))))
        (checkpoint_of E ''cassandra_sensors'' (store (pipe (cass_task (tasks x)))))"
proof -
  obtain h h' where s: "pgt.sess k (pg_base x) (pg_drops x) (is_leader (coord x)) h (pg_task (tasks x))"
    "cat.sess k (cass_base x) (cass_drops x) (is_leader (coord x)) h' (cass_task (tasks x))"
    using assms by (auto simp: node_inv_def)
  show ?thesis using pgt.sess_session [OF s(1)] cat.sess_session [OF s(2)] by simp
qed

lemma node_inv_run:
  assumes "node_run E fmt acts x = Some x'" and "node_inv k x" and "k + length acts < 2 ^ 64"
    and "\<forall>a \<in> set acts. node_clocked T U a"
  shows "node_inv (k + length acts) x'"
  using assms
proof (induction acts arbitrary: x k)
  case (Cons a acts)
  then obtain x1 where x1: "node_step E fmt a x = Some x1" "node_run E fmt acts x1 = Some x'"
    by (auto split: Option.bind_splits)
  have "node_inv (Suc k) x1" by (rule node_inv_step [OF Cons.prems(2) _ _ x1(1)]) (use Cons.prems in auto)
  from Cons.IH [OF x1(2) this] Cons.prems(3,4) show ?case by simp
qed simp

end

section \<open>Properties\<close>


text \<open>A Cassandra item that comes before the second iteration of the loop, and the one after it.\<close>

definition demo_follower :: "node_action list" where
  "demo_follower = map (Step \<circ> Cass) [Next (0, 0), Check False] @ [Elect, Elect]
     @ map (Step \<circ> Cass) [Next (0, 0), Check True, Beat 0, Acquire (from_millis 500), Handle 0, Send 0]"

lemma demo_start:
  assumes "t \<in> {''postgres_users'', ''cassandra_sensors''}"
  shows "start_position (last_offset stream_env (register_user_schema stream_env Map.empty) t) = 0"
proof -
  have env: "healthy stream_env" "codec_roundtrips (schema_codec stream_env) user_schema"
    using stream_engine_env by (simp_all add: engine_env_def)
  show ?thesis using schema_registered(2) [OF env, of Map.empty] stream_fresh_store assms
    by (auto simp: last_offset_get start_position_def fresh_store_def)
qed

lemma demo_follower_runs:
  "\<exists>x. node_run stream_env (\<lambda>_. []) demo_follower (node_boot stream_env demo_boot Map.empty [] []) = Some x
      \<and> cass_base x = 0 \<and> cass_drops x = 1 \<and> map offset (sent (pipe (cass_task (tasks x)))) = [''2'']"
proof -
  obtain e1 where e1: "cas_next (\<lambda>_. []) (0, 0) 0 = (e1, 1)"
    using cas_next_fields(1) [of "\<lambda>_. []" "(0, 0)" 0] by (cases "cas_next (\<lambda>_. []) (0, 0) 0") auto
  obtain e b f where e: "cas_next (\<lambda>_. []) (0, 0) 1 = (e, 2)" and off: "offset e = show_nat 2"
    and b: "acquire (engine_limiter 0) 1 [from_millis 500] = Acquired b"
    and prep: "\<And>s :: (bytes \<Rightarrow> bytes option) pipeline. dedup s = dedup_new 1000 \<Longrightarrow> tx_buffer s = tx_new \<Longrightarrow>
      cass_prepare e s = ([e], s\<lparr>dedup := f, tx_buffer := tx_new\<rparr>)"
    and pass: "transform (wasm stream_env) (event_json_codec stream_env) () e = Some (Ok e)"
    by (rule demo_cass_item [of 1 2 2]) (simp, simp, rule that)
  have "show_nat 2 = ''2''" by code_simp
  then have "offset e = ''2''" by (simp only: off)
  then show ?thesis
    by (simp add: demo_follower_def node_boot_def boot_tasks demo_boot_def machine_step_def cass_item_def e1 e demo_start b
        prep pass pipeline_new_def Let_def continue_def send_event_def share_def emit_def sent_def
        coordinator_new_def election_tick_def role_step_def List.map_filter_simps del: acquire.simps)
qed


end
