(* ===== verification/Leadership.thy ===== *)
theory Leadership
  imports Sessions
begin

text \<open>
  The timed node. The election loop runs every 200 ms and the node leads after its second
  iteration; the streams sleep for 500 and 600 ms before an item. If the loop is never late by 50 ms
  or more, the node leads before the first item of any start is there, so nothing is dropped and
  the guarantee of the engine holds for the node as it runs.
\<close>

section \<open>Specification\<close>

text \<open>The steps of the tasks in a timed schedule.\<close>

fun task_step :: "node_action \<Rightarrow> engine_action option" where
  "task_step (Step b) = Some b"
| "task_step Elect = None"

definition task_steps :: "(instant \<times> node_action) list \<Rightarrow> engine_action list" where
  "task_steps acts = List.map_filter (task_step \<circ> snd) acts"

section \<open>Lemmas\<close>

text \<open>Before the node leads both tasks await their streams, and the iterations left come in time.\<close>

definition early :: "duration \<Rightarrow> 'db timed_node \<Rightarrow> bool" where
  "early late y \<longleftrightarrow>
     (let x = node y; c = coord x in
      node_id c = 1 \<and> \<not> shutdown c \<and> pg_drops x = 0 \<and> cass_drops x = 0
      \<and> (is_leader c \<or>
         pc (pg_task (tasks x)) = Idle \<and> pc (cass_task (tasks x)) = Idle
         \<and> (role c = Follower \<and> wakes_at y + from_millis 300 \<le> min (pg_ready y) (cass_ready y)
            \<or> role c = Candidate \<and> wakes_at y + from_millis 100 \<le> min (pg_ready y) (cass_ready y) + late)))"

lemma election_pause_one: "node_id c = 1 \<Longrightarrow> election_pause c = from_millis 200"
  by (simp add: election_pause_def election_timeout_ms_def)

lemma early_boot: "early late (timed_boot E rd d xs ys t)"
  by (simp add: early_def timed_boot_def node_boot_def Let_def boot_tasks election_pause_one coordinator_new_def
      pg_pause_def cass_pause_def from_millis_def)

lemma early_follows:
  assumes "early late y" and "late < from_millis 50" and "t \<le> wakes_at y + late" and "\<not> is_leader (coord (node y))"
  shows "t < pg_ready y" and "t < cass_ready y"
  using assms by (auto simp: early_def Let_def from_millis_def)

lemma early_elect:
  assumes "early late y" and "t \<le> wakes_at y + late"
    and "y' = y\<lparr>node := (node y)\<lparr>coord := election_tick (coord (node y))\<rparr>, clock := t,
               wakes_at := t + election_pause (election_tick (coord (node y)))\<rparr>"
  shows "early late y'"
proof -
  have id: "node_id (election_tick (coord (node y))) = 1" "\<not> shutdown (election_tick (coord (node y)))"
    using assms(1) by (simp_all add: early_def Let_def election_tick_def)
  consider "is_leader (coord (node y))" | "role (coord (node y)) = Follower" | "role (coord (node y)) = Candidate"
    using assms(1) by (auto simp: early_def Let_def)
  then show ?thesis
  proof cases
    case 1
    with assms(1) id show ?thesis by (simp add: early_def Let_def assms(3) election_keeps_leader)
  qed (use assms(1,2) id in \<open>auto simp: early_def Let_def assms(3) election_pause_one election_tick_def role_step_def
      from_millis_def\<close>)
qed

lemma idle_next:
  assumes "machine_step E src next_item prepare a m = Some m'" and "pc m = Idle"
  shows "is_next a"
  using step_at [OF assms(1)] assms(2) by (cases a) auto

text \<open>A step of a task in a state from which the node leads in time.\<close>

lemma early_pg:
  assumes early: "early late y" and late: "late < from_millis 50"
    and step: "timed_step late E fmt (t, Step (Pg a)) y = Some y'"
  shows "early late y' \<and> engine_step E fmt (Pg a) (tasks (node y)) = Some (tasks (node y')) \<and> a \<noteq> Check False"
proof -
  let ?r = "\<lambda>x. ready_at pg_pause (a = Check False) t (pg_task (tasks x)) (pg_ready y)"
  obtain x where x: "node_step E fmt (Step (Pg a)) (node y) = Some x" "y' = y\<lparr>node := x, clock := t, pg_ready := ?r x\<rparr>"
    and t: "t \<le> wakes_at y + late" "is_next a \<Longrightarrow> pg_ready y \<le> t"
    using step by (auto split: if_splits)
  obtain g where g: "engine_step E fmt (Pg a) (tasks (node y)) = Some g"
      "x = (node y)\<lparr>tasks := g, pg_drops := (if a = Check False then pg_drops (node y) + 1 else pg_drops (node y))\<rparr>"
      "\<And>l. a = Check l \<Longrightarrow> l = is_leader (coord (node y))"
    using x(1) by (cases a) (auto split: if_splits)
  have lead: "is_leader (coord (node y))"
  proof (rule ccontr)
    assume no: "\<not> is_leader (coord (node y))"
    then have "is_next a" using early g(1) idle_next by (fastforce simp: early_def Let_def)
    then show False using t early_follows(1) [OF early late t(1) no] by simp
  qed
  then have "a \<noteq> Check False" using g(3) [of False] by auto
  then show ?thesis using early lead g(1) by (auto simp: early_def Let_def x(2) g(2))
qed

lemma early_cass:
  assumes early: "early late y" and late: "late < from_millis 50"
    and step: "timed_step late E fmt (t, Step (Cass a)) y = Some y'"
  shows "early late y' \<and> engine_step E fmt (Cass a) (tasks (node y)) = Some (tasks (node y')) \<and> a \<noteq> Check False"
proof -
  let ?r = "\<lambda>x. ready_at cass_pause (a = Check False) t (cass_task (tasks x)) (cass_ready y)"
  obtain x where x: "node_step E fmt (Step (Cass a)) (node y) = Some x" "y' = y\<lparr>node := x, clock := t, cass_ready := ?r x\<rparr>"
    and t: "t \<le> wakes_at y + late" "is_next a \<Longrightarrow> cass_ready y \<le> t"
    using step by (auto split: if_splits)
  obtain g where g: "engine_step E fmt (Cass a) (tasks (node y)) = Some g"
      "x = (node y)\<lparr>tasks := g, cass_drops := (if a = Check False then cass_drops (node y) + 1 else cass_drops (node y))\<rparr>"
      "\<And>l. a = Check l \<Longrightarrow> l = is_leader (coord (node y))"
    using x(1) by (cases a) (auto split: if_splits)
  have lead: "is_leader (coord (node y))"
  proof (rule ccontr)
    assume no: "\<not> is_leader (coord (node y))"
    then have "is_next a" using early g(1) idle_next by (fastforce simp: early_def Let_def)
    then show False using t early_follows(2) [OF early late t(1) no] by simp
  qed
  then have "a \<noteq> Check False" using g(3) [of False] by auto
  then show ?thesis using early lead g(1) by (auto simp: early_def Let_def x(2) g(2))
qed

lemma early_step:
  assumes early: "early late y" and late: "late < from_millis 50" and ok: "node_clocked T U a"
    and step: "timed_step late E fmt (t, a) y = Some y'"
  shows "early late y'
    \<and> (case task_step a of
         None \<Rightarrow> tasks (node y') = tasks (node y)
       | Some b \<Rightarrow> engine_step E fmt b (tasks (node y)) = Some (tasks (node y')) \<and> engine_admissible T U b)"
proof (cases a)
  case Elect
  then have "t \<le> wakes_at y + late" "y' = y\<lparr>node := (node y)\<lparr>coord := election_tick (coord (node y))\<rparr>, clock := t,
        wakes_at := t + election_pause (election_tick (coord (node y)))\<rparr>"
    using step by (auto split: if_splits)
  with early_elect [OF early this] Elect show ?thesis by simp
next
  case (Step b)
  show ?thesis
  proof (cases b)
    case (Pg c)
    then have "timed_step late E fmt (t, Step (Pg c)) y = Some y'" using step Step by simp
    from early_pg [OF early late this] ok Step Pg show ?thesis by (simp add: admissible_iff)
  next
    case (Cass c)
    then have "timed_step late E fmt (t, Step (Cass c)) y = Some y'" using step Step by simp
    from early_cass [OF early late this] ok Step Cass show ?thesis by (simp add: admissible_iff)
  next
    case (Crash rd)
    with step Step early_boot show ?thesis by (auto simp: timed_boot_def node_boot_def Let_def split: if_splits)
  qed
qed

text \<open>A timed run is a run of the engine in which the node leads.\<close>

lemma early_run:
  assumes "timed_run late E fmt acts y = Some y'" and "early late y" and "late < from_millis 50"
    and "\<forall>(t, a) \<in> set acts. node_clocked T U a"
  shows "early late y' \<and> engine_run E fmt (task_steps acts) (tasks (node y)) = Some (tasks (node y'))
    \<and> (\<forall>b \<in> set (task_steps acts). engine_admissible T U b)"
  using assms
proof (induction acts arbitrary: y)
  case (Cons p acts)
  obtain t a where p: "p = (t, a)" by (cases p)
  obtain y1 where y1: "timed_step late E fmt (t, a) y = Some y1" "timed_run late E fmt acts y1 = Some y'"
    using Cons.prems(1) by (auto simp: p split: Option.bind_splits simp del: timed_step.simps)
  have s: "early late y1
    \<and> (case task_step a of
         None \<Rightarrow> tasks (node y1) = tasks (node y)
       | Some b \<Rightarrow> engine_step E fmt b (tasks (node y)) = Some (tasks (node y1)) \<and> engine_admissible T U b)"
    by (rule early_step [OF Cons.prems(2,3) _ y1(1)]) (use Cons.prems(4) p in simp)
  have "early late y' \<and> engine_run E fmt (task_steps acts) (tasks (node y1)) = Some (tasks (node y'))
    \<and> (\<forall>b \<in> set (task_steps acts). engine_admissible T U b)"
    by (rule Cons.IH [OF y1(2) _ Cons.prems(3)]) (use s Cons.prems(4) in simp_all)
  with s show ?case by (cases a) (simp_all add: task_steps_def List.map_filter_simps p)
qed (simp add: task_steps_def List.map_filter_simps)

lemma task_steps_length: "length (task_steps acts) \<le> length acts"
  by (induction acts) (auto simp: task_steps_def List.map_filter_simps split: option.split)

section \<open>Properties\<close>


text \<open>Nine iterations of the loop on time, then the first Cassandra event up to the send.\<close>

definition demo_lead :: "(instant \<times> node_action) list" where
  "demo_lead = map (\<lambda>i. (from_millis (200 * i), Elect)) [1, 2, 3, 4, 5, 6, 7, 8, 9]
     @ map (\<lambda>a. (from_millis 2000, Step a)) demo_cass_round"

lemma cass_sleeps: "start_sleeps (cas_start_stream seeds off 0) \<le> from_millis 1250"
proof -
  let ?err = "DirectoryAccess ''Simulated Cassandra CommitLog folder lock error''"
  let ?r = "retry_with_backoff (flaky ?err) 5 (from_millis 50) 2 (from_millis 500) seeds 0"
  obtain ds a where r: "?r = (retry_outcome.Returned (Ok ()), ds, a)" "length ds \<le> 2"
    using retry_flaky [of ?err seeds 0] by blast
  have "\<forall>d \<in> set ds. d \<le> from_millis 625"
    using retry_loop_retried [of 2 "from_millis 500" "from_millis 50" "flaky ?err" 5 seeds 0 0] r(1)
    by (auto simp: retry_with_backoff_def retried_def from_millis_def)
  with r(2) have "sum_list ds \<le> from_millis 1250"
    by (cases ds; cases "tl ds") (auto simp: from_millis_def)
  then show ?thesis using r(1) by (simp add: start_sleeps_def cas_start_stream_def conn_flaky)
qed

lemma demo_lead_runs:
  "\<exists>y. timed_run 0 stream_env (\<lambda>_. []) demo_lead (timed_boot stream_env demo_boot Map.empty [] [] 0) = Some y
      \<and> map offset (all_cass_sent (tasks (node y))) = [''1'']"
proof -
  let ?d = "register_user_schema stream_env Map.empty"
  obtain e b f where e: "cas_next (\<lambda>_. []) (0, 0) 0 = (e, 1)" and off: "offset e = show_nat 1"
    and b: "acquire (engine_limiter 0) 1 [from_millis 500] = Acquired b"
    and prep: "\<And>s :: (bytes \<Rightarrow> bytes option) pipeline. dedup s = dedup_new 1000 \<Longrightarrow> tx_buffer s = tx_new \<Longrightarrow>
      cass_prepare e s = ([e], s\<lparr>dedup := f, tx_buffer := tx_new\<rparr>)"
    and pass: "transform (wasm stream_env) (event_json_codec stream_env) () e = Some (Ok e)"
    by (rule demo_cass_item [of 0 1 1]) (simp, simp, rule that)
  have b: "acquire (engine_limiter 0) 1 [500000000] = Acquired b" using b by (simp add: from_millis_def del: acquire.simps)
  have "show_nat 1 = ''1''" by code_simp
  then have off: "offset e = ''1''" by (simp only: off)
  obtain S where S: "start_sleeps (cas_start_stream (\<lambda>_. 0) (last_offset stream_env ?d ''cassandra_sensors'') 0) = S"
      "S \<le> 1250000000"
    using cass_sleeps [of "\<lambda>_. 0"] by (auto simp: from_millis_def)
  show ?thesis
    using S(2)
    by (simp add: demo_lead_def demo_cass_round_def timed_boot_def node_boot_def boot_tasks demo_boot_def S(1)
        machine_step_def cass_item_def e demo_start b prep pass pipeline_new_def Let_def continue_def
        send_event_def share_def emit_def sent_def coordinator_new_def election_tick_def role_step_def
        election_pause_one cass_pause_def from_millis_def ready_at_def all_cass_sent_def off List.map_filter_simps
        del: acquire.simps)
qed


end
