(* ===== verification/Engine_Progress.thy ===== *)
theory Engine_Progress
  imports Engine_Correct
begin

text \<open>
  Progress of the engine. A step of a task is a working step unless it is a round of the limiter that
  has to wait. A task can always take a working step; and in any stretch of a schedule without a
  crash the working steps of a task pay for the way its checkpoint moves, nine steps for a position
  and a constant for what is under way at both ends. Whatever the other task does, a task that is
  given steps therefore delivers.
\<close>

section \<open>Specification\<close>

text \<open>The steps of the tasks in a schedule that are not waiting rounds of the limiter.\<close>

fun working_steps ::
    "('db, 'm, 's) env \<Rightarrow> (int \<Rightarrow> string) \<Rightarrow> engine_action list \<Rightarrow> 'db engine \<Rightarrow> nat \<times> nat" where
  "working_steps E fmt [] g = (0, 0)"
| "working_steps E fmt (a # as) g =
     (case engine_step E fmt a g of
        None \<Rightarrow> (0, 0)
      | Some g' \<Rightarrow>
          (let (i, j) = working_steps E fmt as g'
           in (i + of_bool (pc (pg_task g') \<noteq> pc (pg_task g)), j + of_bool (pc (cass_task g') \<noteq> pc (cass_task g)))))"

section \<open>Lemmas\<close>

text \<open>The steps still to be taken with the item in hand, if it is due, and with the mutations.\<close>

fun stage :: "'e pc \<Rightarrow> nat" where
  "stage Idle = 0"
| "stage (Received r) = 8"
| "stage (Leading r) = 7"
| "stage (Limiting r) = 6"
| "stage (Admitted r) = 5"
| "stage (Delivering es) = 4 * length es"
| "stage (Echoing t es) = 4 * length es + 3"
| "stage (Saving t es) = 4 * length es + 2"
| "stage (Recording t es) = 4 * length es + 1"

lemma stage_continue [simp]: "stage (continue es) = 4 * length es"
  by (simp add: continue_def)

lemma stage_todo: "stage p \<le> 8 + 4 * length (todo p)"
  by (cases p) simp_all

lemma continue_busy [simp]: "continue es \<noteq> Delivering []"
  by (simp add: continue_def)

text \<open>A list of mutations under way is never empty.\<close>

lemma machine_step_busy:
  assumes "machine_step E src next_item prepare a m = Some m'" and "pc m \<noteq> Delivering []"
  shows "pc m' \<noteq> Delivering []"
  using assms
  by (auto simp: machine_step_def split_beta Let_def
      split: action.splits pc.splits if_splits acquire_outcome.splits option.splits sum.splits list.splits)

locale paced_task = resumable_task E src next_item prepare C keeps fit held
  for E :: "('db, 'm, 's) env"
    and src :: string
    and next_item :: "'c \<Rightarrow> u64 \<Rightarrow> ('e, change_event) result \<times> u64"
    and prepare :: "int \<Rightarrow> change_event \<Rightarrow> 'db pipeline \<Rightarrow> change_event list \<times> 'db pipeline"
    and C :: "'c set"
    and keeps :: "nat \<Rightarrow> bool"
    and fit :: "nat \<Rightarrow> 'db pipeline \<Rightarrow> bool"
    and held :: "'db pipeline \<Rightarrow> change_event list" +
  fixes cap :: nat
    and gap :: nat
  assumes held_cap: "fit h s \<Longrightarrow> length (held s) \<le> cap"
    and dense: "length (kept keeps (Suc c) (Suc h)) \<le> Suc cap \<Longrightarrow> h \<le> c + gap"
begin

definition left :: "('db, 'e) machine \<Rightarrow> nat" where
  "left m = stage (pc m) + 4 * length (held (pipe m))"

definition load :: "('db, 'e) machine \<Rightarrow> nat" where
  "load m = length (todo (pc m)) + length (held (pipe m))"

text \<open>A working step is paid by the item it takes or by what is left to do.\<close>

lemma step_paid:
  assumes at: "stands h m" and lt: "Suc h < 2 ^ 64" and ok: "admissible C a"
    and step: "machine_step E src next_item prepare a m = Some m'"
  shows "left m' + of_bool (pc m' \<noteq> pc m) + 9 * unat (pos m) \<le> left m + 9 * unat (pos m')"
proof -
  have run: "task (pipe m) = Running" and loc: "located h m" using at by (simp_all add: stands_def)
  show ?thesis
  proof (cases a)
    case (Handle now)
    show ?thesis
    proof (rule handled [OF at step [unfolded Handle]])
      fix e ms s'
      assume m': "m' = m\<lparr>pc := continue ms, pipe := s'\<rparr>"
        and rel: "ms @ held s' = held (pipe m) @ (if keeps (Suc h) then [e] else [])"
      obtain r where pc: "pc m = Admitted r"
        using step_at [OF step] Handle by auto
      have "length ms + length (held s') \<le> length (held (pipe m)) + 1"
        using arg_cong [OF rel, of length] by (simp split: if_splits)
      then show ?thesis by (simp add: left_def m' pc)
    qed
  next
    case (Send now)
    show ?thesis
      by (rule sent_one [OF at step [unfolded Send]])
        (use step Send in \<open>auto simp: left_def machine_step_def split: pc.splits if_splits option.splits sum.splits list.splits\<close>)
  next
    case Save
    show ?thesis
      by (rule saved_one [OF at step [unfolded Save]])
        (use step Save in \<open>auto simp: left_def machine_step_def split: pc.splits if_splits\<close>)
  next
    case (Next c)
    then have pc: "pc m = Idle" using step_at [OF step] by auto
    then have p: "unat (pos m) = h" using loc by (simp add: located_def)
    have c: "c \<in> C" using ok Next by simp
    obtain e where e: "next_item c (pos m) = (Ok e, pos m + 1)" using next_due [OF c] p lt by force
    then have m': "m' = m\<lparr>pc := Received (Ok e), pos := pos m + 1\<rparr>"
      using step Next pc run by (simp add: machine_step_def)
    have "unat (pos m + 1) = Suc h" using unat_next p lt by simp
    then show ?thesis by (simp add: left_def m' pc p)
  qed (use quiet_step [OF at lt ok step] step ok in
      \<open>auto simp: left_def machine_step_def split: pc.splits if_splits acquire_outcome.splits\<close>)
qed

lemma step_load:
  assumes at: "stands h m" and lt: "Suc h < 2 ^ 64" and ok: "admissible C a" and load: "load m \<le> Suc cap"
    and step: "machine_step E src next_item prepare a m = Some m'"
  shows "load m' \<le> Suc cap"
proof (cases a)
  case (Handle now)
  show ?thesis
  proof (rule handled [OF at step [unfolded Handle]])
    fix e ms s'
    assume m': "m' = m\<lparr>pc := continue ms, pipe := s'\<rparr>"
      and rel: "ms @ held s' = held (pipe m) @ (if keeps (Suc h) then [e] else [])"
    have "length (held (pipe m)) \<le> cap" using at held_cap [of h "pipe m"] by (simp add: stands_def)
    then show ?thesis using arg_cong [OF rel, of length] by (simp add: load_def m' split: if_splits)
  qed
next
  case (Send now)
  show ?thesis by (rule sent_one [OF at step [unfolded Send]]) (use load in \<open>simp add: load_def\<close>)
next
  case Save
  show ?thesis by (rule saved_one [OF at step [unfolded Save]]) (use load in \<open>simp add: load_def\<close>)
qed (use quiet_step [OF at lt ok step] load todo_cong [of "pc m'" "pc m"] in \<open>auto simp: load_def quiet_def\<close>)

text \<open>A working step is always possible.\<close>

lemma can_work:
  assumes at: "stands h m" and lt: "Suc h < 2 ^ 64" and busy: "pc m \<noteq> Delivering []" and c: "c \<in> C"
  shows "\<exists>a m'. admissible C a \<and> machine_step E src next_item prepare a m = Some m' \<and> pc m' \<noteq> pc m"
proof -
  have run: "task (pipe m) = Running" and loc: "located h m" and lim: "limiter_fit (limiter (pipe m))"
    using at by (simp_all add: stands_def)
  show ?thesis
  proof (cases "pc m")
    case Idle
    then show ?thesis using c run by (intro exI [of _ "Next c"]) (simp add: machine_step_def split_beta)
  next
    case (Received r)
    then show ?thesis using run by (intro exI [of _ "Check True"]) (simp add: machine_step_def)
  next
    case (Leading r)
    then show ?thesis using run by (intro exI [of _ "Beat 0"]) (simp add: machine_step_def)
  next
    case (Limiting r)
    let ?t = "last_refill (limiter (pipe m)) + from_millis 500"
    obtain b where "acquire (limiter (pipe m)) 1 [?t] = Acquired b" using half_second_acquires [OF lim order_refl] by blast
    then show ?thesis
      using run Limiting by (intro exI [of _ "Acquire ?t"]) (simp add: machine_step_def del: acquire.simps)
  next
    case (Admitted r)
    then obtain c p where p: "c \<in> C" "unat p = h" "h + 1 < 2 ^ 64" "next_item c p = (r, pos m)"
      using loc by (auto simp: located_def)
    then obtain e where "r = Ok e" using next_due [of c p] by auto
    then show ?thesis
      using run Admitted by (intro exI [of _ "Handle 0"]) (simp add: machine_step_def split_beta continue_def)
  next
    case (Delivering es)
    then obtain e es' where es: "es = e # es'" using busy by (cases es) auto
    then have "passes_through E e" using at Delivering by (simp add: stands_def)
    then show ?thesis
      using run Delivering es by (intro exI [of _ "Send 0"]) (simp add: machine_step_def passes_through_def)
  next
    case (Echoing t es)
    then show ?thesis using run by (intro exI [of _ Echo]) (simp add: machine_step_def)
  next
    case (Saving t es)
    then show ?thesis using run by (intro exI [of _ Save]) (simp add: machine_step_def)
  next
    case (Recording t es)
    then show ?thesis using run by (intro exI [of _ "Record 0 0"]) (simp add: machine_step_def continue_def)
  qed
qed

text \<open>The position is never far from the checkpoint.\<close>

lemma near_checkpoint:
  assumes "inv k n out h w m" and "load m \<le> Suc cap"
  shows "unat (pos m) \<le> checkpoint_of E src (store (pipe m)) + gap + 1" and "checkpoint_of E src (store (pipe m)) \<le> unat (pos m)"
proof -
  let ?c = "checkpoint_of E src (store (pipe m))"
  have "length (kept keeps (Suc ?c) (Suc h)) = load m"
    using assms(1) unfolding inv_def load_def by (metis length_append length_map)
  then have h: "h \<le> ?c + gap" using assms(2) dense by simp
  have "unat (pos m) = h \<or> unat (pos m) = Suc h"
  proof (cases "in_hand (pc m)")
    case None
    then show ?thesis using assms(1) by (simp add: inv_def stands_def located_def)
  next
    case (Some r)
    then obtain c p where p: "c \<in> C" "unat p = h" "h + 1 < 2 ^ 64" "next_item c p = (r, pos m)"
      using assms(1) by (auto simp: inv_def stands_def located_def)
    then have "pos m = p + 1" using next_due [of c p] by auto
    then show ?thesis using p(2,3) unat_next by simp
  qed
  moreover have "?c \<le> h" using assms(1) by (simp add: inv_def)
  ultimately show "unat (pos m) \<le> ?c + gap + 1" "?c \<le> unat (pos m)" using h by auto
qed

lemma left_load: "left m \<le> 8 + 4 * load m"
  using stage_todo [of "pc m"] by (simp add: left_def load_def)

end

section \<open>Both tasks\<close>

lemma length_held_tx: "pg_at E h s \<Longrightarrow> length (held_tx s) \<le> 3"
  using mod_less_divisor [of 4 h] by (auto simp: pg_at_def held_tx_def)

lemma mutation_count: "length (kept mutation_position (Suc c) (Suc (c + n))) + (c + n) div 4 = n + c div 4"
proof (induction n)
  case (Suc n)
  have "(c + Suc n) div 4 = (c + n) div 4 + of_bool ((c + Suc n) mod 4 = 0)" by (simp add: div_Suc)
  moreover have "mutation_position (c + Suc n) \<longleftrightarrow> (c + Suc n) mod 4 \<noteq> 0" by (rule mutation_position_def)
  ultimately show ?case using Suc kept_snoc [of "Suc c" "c + Suc n" mutation_position] by simp
qed simp

lemma mutations_dense:
  assumes "length (kept mutation_position (Suc c) (Suc h)) \<le> 4"
  shows "h \<le> c + 6"
proof (cases "c \<le> h")
  case True
  then obtain n where h: "h = c + n" using le_Suc_ex by blast
  have "n + c div 4 \<le> 4 + (c + n) div 4" using mutation_count [of c n] assms h by simp
  moreover have "c \<le> 4 * (c div 4) + 3" "4 * ((c + n) div 4) \<le> c + n" by presburger+
  ultimately show ?thesis unfolding h by linarith
qed simp

sublocale faithful_engine \<subseteq> pgp: paced_task E "''postgres_users''" pg_item "pg_prepare E" T mutation_position
    "pg_at E" held_tx 3 6
  by unfold_locales (use length_held_tx mutations_dense in auto)

sublocale faithful_engine \<subseteq> cap: paced_task E "''cassandra_sensors''" "cass_item fmt" "\<lambda>now. cass_prepare" U "\<lambda>i. True"
    cass_at held_tx 0 1
  by unfold_locales (auto simp: cass_at_def held_tx_def kept_def simp del: upt_Suc)

context faithful_engine
begin

definition paced :: "nat \<Rightarrow> nat \<Rightarrow> 'db engine \<Rightarrow> bool" where
  "paced k n g \<longleftrightarrow> engine_inv k n g \<and> pc (pg_task g) \<noteq> Delivering [] \<and> pc (cass_task g) \<noteq> Delivering []
     \<and> pgp.load (pg_task g) \<le> 4 \<and> cap.load (cass_task g) \<le> 1"

lemma share_fields [simp]:
  "pc (share s m) = pc m" "pos (share s m) = pos m" "held_tx (pipe (share s m)) = held_tx (pipe m)"
  by (simp_all add: share_def held_tx_def)

lemma shared_left [simp]:
  "pgp.left (share s m) = pgp.left m" "cap.left (share s m') = cap.left m'"
  "pgp.load (share s m) = pgp.load m" "cap.load (share s m') = cap.load m'"
  by (simp_all add: pgp.left_def cap.left_def pgp.load_def cap.load_def)

lemma boot_paced:
  assumes "engine_inv k n (boot E rd d xs ys)"
  shows "paced k n (boot E rd d xs ys)"
  using assms by (simp add: paced_def boot_tasks pgp.load_def cap.load_def held_tx_def tx_new_def)

text \<open>A step of the schedule keeps the engine paced, and without a crash it is paid for.\<close>

lemma paced_step:
  assumes p: "paced k n g" and k: "Suc k < 2 ^ 64" and ok: "engine_admissible T U a"
    and step: "engine_step E fmt a g = Some g'"
  shows "paced (Suc k) (if is_crash a then Suc n else n) g'
    \<and> (\<not> is_crash a \<longrightarrow>
        pgp.left (pg_task g') + of_bool (pc (pg_task g') \<noteq> pc (pg_task g)) + 9 * unat (pos (pg_task g))
          \<le> pgp.left (pg_task g) + 9 * unat (pos (pg_task g'))
      \<and> cap.left (cass_task g') + of_bool (pc (cass_task g') \<noteq> pc (cass_task g)) + 9 * unat (pos (cass_task g))
          \<le> cap.left (cass_task g) + 9 * unat (pos (cass_task g')))"
proof -
  have inv: "engine_inv k n g" using p by (simp add: paced_def)
  have inv': "engine_inv (Suc k) (if is_crash a then Suc n else n) g'" by (rule engine_inv_step [OF inv k ok step])
  obtain h h' where at: "pgt.stands h (pg_task g)" "cat.stands h' (cass_task g)" "Suc h < 2 ^ 64" "Suc h' < 2 ^ 64"
    using inv k unfolding engine_inv_def pgt.inv_def cat.inv_def by force
  show ?thesis
  proof (cases a)
    case (Pg b)
    then obtain m where m: "machine_step E ''postgres_users'' pg_item (pg_prepare E) b (pg_task g) = Some m"
      and g': "g' = g\<lparr>pg_task := m, cass_task := share (pipe m) (cass_task g)\<rparr>"
      using step by auto
    have b: "admissible T b" using ok Pg by simp
    have "pgp.load m \<le> 4" using pgp.step_load [OF at(1,3) b _ m] p by (simp add: paced_def)
    then show ?thesis
      using pgp.step_paid [OF at(1,3) b m] machine_step_busy [OF m] p inv' by (simp add: paced_def g' Pg)
  next
    case (Cass b)
    then obtain m where m: "machine_step E ''cassandra_sensors'' (cass_item fmt) (\<lambda>now. cass_prepare) b (cass_task g) = Some m"
      and g': "g' = g\<lparr>cass_task := m, pg_task := share (pipe m) (pg_task g)\<rparr>"
      using step by auto
    have b: "admissible U b" using ok Cass by simp
    have "cap.load m \<le> 1" using cap.step_load [OF at(2,4) b _ m] p by (simp add: paced_def)
    then show ?thesis
      using cap.step_paid [OF at(2,4) b m] machine_step_busy [OF m] p inv' by (simp add: paced_def g' Cass)
  next
    case (Crash rd)
    then show ?thesis using step inv' boot_paced by auto
  qed
qed

lemma paced_run:
  assumes "engine_run E fmt acts g = Some g'" and "paced k n g" and "k + length acts < 2 ^ 64"
    and "\<forall>a \<in> set acts. engine_admissible T U a"
  shows "paced (k + length acts) (n + crashes acts) g'"
  using assms
proof (induction acts arbitrary: g k n)
  case (Cons a acts)
  then obtain g1 where g1: "engine_step E fmt a g = Some g1" "engine_run E fmt acts g1 = Some g'"
    by (auto split: Option.bind_splits)
  have "paced (Suc k) (if is_crash a then Suc n else n) g1"
    using paced_step [OF Cons.prems(2) _ _ g1(1)] Cons.prems by auto
  from Cons.IH [OF g1(2) this] Cons.prems(3,4) show ?case by (auto simp: crashes_def split: if_splits)
qed (simp add: crashes_def)

lemma working_steps_paid:
  assumes "engine_run E fmt acts g = Some g'" and "paced k n g" and "k + length acts < 2 ^ 64"
    and "\<forall>a \<in> set acts. engine_admissible T U a \<and> \<not> is_crash a"
  shows "pgp.left (pg_task g') + fst (working_steps E fmt acts g) + 9 * unat (pos (pg_task g))
          \<le> pgp.left (pg_task g) + 9 * unat (pos (pg_task g'))
      \<and> cap.left (cass_task g') + snd (working_steps E fmt acts g) + 9 * unat (pos (cass_task g))
          \<le> cap.left (cass_task g) + 9 * unat (pos (cass_task g'))"
  using assms
proof (induction acts arbitrary: g k)
  case (Cons a acts)
  then obtain g1 where g1: "engine_step E fmt a g = Some g1" "engine_run E fmt acts g1 = Some g'"
    by (auto split: Option.bind_splits)
  note step = paced_step [OF Cons.prems(2) _ _ g1(1)]
  have "paced (Suc k) n g1" using step Cons.prems by auto
  note Cons.IH [OF g1(2) this]
  then show ?case using step Cons.prems(3,4) by (auto simp: g1(1) split_beta Let_def)
qed simp

lemma paced_steps_bound:
  assumes "paced k n g0" and "paced k' n' g"
    and "pgp.left (pg_task g) + i + 9 * unat (pos (pg_task g0)) \<le> pgp.left (pg_task g0) + 9 * unat (pos (pg_task g))"
    and "cap.left (cass_task g) + j + 9 * unat (pos (cass_task g0)) \<le> cap.left (cass_task g0) + 9 * unat (pos (cass_task g))"
  shows "i + 9 * checkpoint_of E ''postgres_users'' (store (pipe (pg_task g0)))
      \<le> 9 * checkpoint_of E ''postgres_users'' (store (pipe (pg_task g))) + 87"
    and "j + 9 * checkpoint_of E ''cassandra_sensors'' (store (pipe (cass_task g0)))
      \<le> 9 * checkpoint_of E ''cassandra_sensors'' (store (pipe (cass_task g))) + 30"
proof -
  have load: "pgp.load (pg_task g0) \<le> Suc 3" "cap.load (cass_task g0) \<le> Suc 0" "pgp.load (pg_task g) \<le> Suc 3" "cap.load (cass_task g) \<le> Suc 0"
    using assms(1,2) by (simp_all add: paced_def)
  obtain h w h' w' where g0: "pgt.inv k n (pg_past g0) h w (pg_task g0)" "cat.inv k n (cass_past g0) h' w' (cass_task g0)"
    using assms(1) by (auto simp: paced_def engine_inv_def)
  obtain h w h' w' where g: "pgt.inv k' n' (pg_past g) h w (pg_task g)" "cat.inv k' n' (cass_past g) h' w' (cass_task g)"
    using assms(2) by (auto simp: paced_def engine_inv_def)
  show "i + 9 * checkpoint_of E ''postgres_users'' (store (pipe (pg_task g0)))
      \<le> 9 * checkpoint_of E ''postgres_users'' (store (pipe (pg_task g))) + 87"
    using pgp.near_checkpoint(2) [OF g0(1) load(1)] pgp.near_checkpoint(1) [OF g(1) load(3)] pgp.left_load [of "pg_task g0"] load(1) assms(3)
    by linarith
  show "j + 9 * checkpoint_of E ''cassandra_sensors'' (store (pipe (cass_task g0)))
      \<le> 9 * checkpoint_of E ''cassandra_sensors'' (store (pipe (cass_task g))) + 30"
    using cap.near_checkpoint(2) [OF g0(2) load(2)] cap.near_checkpoint(1) [OF g(2) load(4)] cap.left_load [of "cass_task g0"] load(2) assms(4)
    by linarith
qed

lemma paced_can_work:
  assumes p: "paced k n g" and k: "Suc k < 2 ^ 64" and t: "t \<in> T" "u \<in> U"
  shows "\<exists>a g'. admissible T a \<and> engine_step E fmt (Pg a) g = Some g' \<and> pc (pg_task g') \<noteq> pc (pg_task g)"
    and "\<exists>a g'. admissible U a \<and> engine_step E fmt (Cass a) g = Some g' \<and> pc (cass_task g') \<noteq> pc (cass_task g)"
proof -
  obtain h h' where at: "pgt.stands h (pg_task g)" "cat.stands h' (cass_task g)" "Suc h < 2 ^ 64" "Suc h' < 2 ^ 64"
    using p k unfolding paced_def engine_inv_def pgt.inv_def cat.inv_def by force
  obtain a m where "admissible T a" "machine_step E ''postgres_users'' pg_item (pg_prepare E) a (pg_task g) = Some m"
      "pc m \<noteq> pc (pg_task g)"
    using pgp.can_work [OF at(1,3) _ t(1)] p by (auto simp: paced_def)
  then show "\<exists>a g'. admissible T a \<and> engine_step E fmt (Pg a) g = Some g' \<and> pc (pg_task g') \<noteq> pc (pg_task g)"
    by (intro exI [of _ a]) simp
  obtain a m where "admissible U a" "machine_step E ''cassandra_sensors'' (cass_item fmt) (\<lambda>now. cass_prepare) a (cass_task g) = Some m"
      "pc m \<noteq> pc (cass_task g)"
    using cap.can_work [OF at(2,4) _ t(2)] p by (auto simp: paced_def)
  then show "\<exists>a g'. admissible U a \<and> engine_step E fmt (Cass a) g = Some g' \<and> pc (cass_task g') \<noteq> pc (cass_task g)"
    by (intro exI [of _ a]) simp
qed

end

section \<open>Properties\<close>



end
