(* ===== verification/Round_Schedule.thy ===== *)
theory Round_Schedule
  imports Engine
begin

text \<open>
  The two models of the loop in \<^verbatim>\<open>src/src/main.rs\<close> agree: a round of \<open>Pipeline\<close>, which runs in
  one piece, is a schedule of the machine of \<open>Engine\<close> that no other task interrupts.
\<close>

section \<open>Uninterrupted runs\<close>

fun machine_run ::
    "('db, 'm, 's) env \<Rightarrow> string \<Rightarrow> ('c \<Rightarrow> u64 \<Rightarrow> ('e, change_event) result \<times> u64)
     \<Rightarrow> (int \<Rightarrow> change_event \<Rightarrow> 'db pipeline \<Rightarrow> change_event list \<times> 'db pipeline)
     \<Rightarrow> 'c action list \<Rightarrow> ('db, 'e) machine \<Rightarrow> ('db, 'e) machine option" where
  "machine_run E src next_item prepare [] m = Some m"
| "machine_run E src next_item prepare (a # as) m =
     Option.bind (machine_step E src next_item prepare a m) (machine_run E src next_item prepare as)"

definition runs_to ::
    "('db, 'm, 's) env \<Rightarrow> string \<Rightarrow> ('c \<Rightarrow> u64 \<Rightarrow> ('e, change_event) result \<times> u64)
     \<Rightarrow> (int \<Rightarrow> change_event \<Rightarrow> 'db pipeline \<Rightarrow> change_event list \<times> 'db pipeline)
     \<Rightarrow> ('db, 'e) machine \<Rightarrow> ('db, 'e) machine \<Rightarrow> bool" where
  "runs_to E src next_item prepare m m' \<longleftrightarrow> (\<exists>acts. machine_run E src next_item prepare acts m = Some m')"

lemma runs_to_refl: "runs_to E src next_item prepare m m"
  unfolding runs_to_def by (rule exI [of _ "[]"]) simp

lemma runs_to_step:
  assumes "machine_step E src next_item prepare a m = Some m1" and "runs_to E src next_item prepare m1 m'"
  shows "runs_to E src next_item prepare m m'"
proof -
  obtain acts where "machine_run E src next_item prepare acts m1 = Some m'" using assms(2) by (auto simp: runs_to_def)
  then have "machine_run E src next_item prepare (a # acts) m = Some m'" using assms(1) by simp
  then show ?thesis unfolding runs_to_def by blast
qed

lemma runs_ex_step:
  assumes "machine_step E src next_item prepare a m = Some m1" and "\<exists>m'. runs_to E src next_item prepare m1 m' \<and> Q m'"
  shows "\<exists>m'. runs_to E src next_item prepare m m' \<and> Q m'"
  using assms runs_to_step by blast

text \<open>The waiting loop of the limiter, one clock reading per step.\<close>

lemma limiting_runs:
  assumes "task (pipe m) = Running" and "pc m = Limiting r"
    and "acquire (limiter (pipe m)) 1 ts = Acquired b \<and> mid = m\<lparr>pc := Admitted r, pipe := (pipe m)\<lparr>limiter := b\<rparr>\<rparr>
       \<or> acquire (limiter (pipe m)) 1 ts = Panicked b \<and> mid = m\<lparr>pipe := (pipe m)\<lparr>limiter := b, task := Dead\<rparr>\<rparr>"
    and "runs_to E src next_item prepare mid m'"
  shows "runs_to E src next_item prepare m m'"
  using assms(1-3)
proof (induction ts arbitrary: m)
  case (Cons t ts)
  let ?b = "limiter (pipe m)"
  show ?case
  proof (cases "\<exists>b'. acquire ?b 1 [t] = Waiting b'")
    case True
    then obtain b' where w: "acquire ?b 1 [t] = Waiting b'" by blast
    then have eq: "acquire ?b 1 (t # ts) = acquire b' 1 ts"
      by (auto split: prod.splits bool.splits option.splits)
    let ?m = "m\<lparr>pipe := (pipe m)\<lparr>limiter := b'\<rparr>\<rparr>"
    have "runs_to E src next_item prepare ?m m'"
      by (rule Cons.IH) (use Cons.prems eq in auto)
    then show ?thesis
      by (rule runs_to_step [where a = "Acquire t", rotated])
        (use Cons.prems w in \<open>simp add: machine_step_def del: acquire.simps\<close>)
  next
    case False
    then have "acquire ?b 1 (t # ts) = acquire ?b 1 [t]"
      by (auto split: prod.splits bool.splits option.splits)
    then show ?thesis
      by (intro runs_to_step [where a = "Acquire t", OF _ assms(4)])
        (use Cons.prems in \<open>auto simp: machine_step_def simp del: acquire.simps\<close>)
  qed
qed simp

text \<open>The loop over the mutations.\<close>

lemma delivering_runs:
  assumes "task (pipe m) = Running" and "pc m = continue es"
    and "\<And>m1. pipe m1 = deliver_all E src clock k es (pipe m) \<Longrightarrow> pos m1 = pos m \<Longrightarrow>
       (task (pipe m1) = Running \<longrightarrow> pc m1 = Idle) \<Longrightarrow> P m1"
  shows "\<exists>m1. runs_to E src next_item prepare m m1 \<and> P m1"
  using assms
proof (induction es arbitrary: m k)
  case Nil
  then have "P m" by (simp add: continue_def)
  then show ?case using runs_to_refl by blast
next
  case (Cons e es)
  let ?now = "clock k"
  have pc: "pc m = Delivering (e # es)" using Cons.prems(2) by (simp add: continue_def)
  show ?case
  proof (cases "transform (wasm E) (event_json_codec E) (wasm_module E) e")
    case None
    let ?m = "m\<lparr>pipe := (pipe m)\<lparr>task := Dead\<rparr>\<rparr>"
    have "P ?m" by (rule Cons.prems(3)) (simp_all add: deliver_def None Let_def)
    moreover have "runs_to E src next_item prepare m ?m"
      by (rule runs_to_step [where a = "Send (fst ?now)", OF _ runs_to_refl])
        (simp add: machine_step_def Cons.prems(1) pc None)
    ultimately show ?thesis by blast
  next
    case (Some res)
    have running: "task (deliver E src ?now e (pipe m)) = Running"
      using Cons.prems(1) Some
      by (auto simp: deliver_def deliver_steps dead_letter_def Let_def split_beta split: sum.split)
    show ?thesis
    proof (cases res)
      case (Inl err)
      let ?m = "m\<lparr>pc := continue es, pipe := deliver E src ?now e (pipe m)\<rparr>"
      have "\<exists>m1. runs_to E src next_item prepare ?m m1 \<and> P m1"
        by (rule Cons.IH [where k = "k + 1"]) (use Cons.prems(3) running in \<open>simp_all add: Let_def\<close>)
      then show ?thesis
        by (rule runs_ex_step [where a = "Send (fst ?now)", rotated])
          (simp add: machine_step_def Cons.prems(1) pc Some Inl deliver_def)
    next
      case (Inr t)
      let ?s1 = "send_event E t (pipe m)" let ?s2 = "echo_event t ?s1" let ?s3 = "save_checkpoint E src t ?s2"
      let ?m1 = "m\<lparr>pc := Echoing t es, pipe := ?s1\<rparr>" and ?m2 = "m\<lparr>pc := Saving t es, pipe := ?s2\<rparr>"
      let ?m3 = "m\<lparr>pc := Recording t es, pipe := ?s3\<rparr>"
      let ?m = "m\<lparr>pc := continue es, pipe := deliver E src ?now e (pipe m)\<rparr>"
      have run: "task ?s1 = Running" "task ?s2 = Running" "task ?s3 = Running"
        using Cons.prems(1) by (simp_all add: deliver_steps Let_def split_beta)
      have steps: "machine_step E src next_item prepare (Send (fst ?now)) m = Some ?m1"
        "machine_step E src next_item prepare Echo ?m1 = Some ?m2"
        "machine_step E src next_item prepare Save ?m2 = Some ?m3"
        "machine_step E src next_item prepare (Record (fst ?now) (snd ?now)) ?m3 = Some ?m"
        using Cons.prems(1) run by (simp_all add: machine_step_def pc Some Inr deliver_def)
      have "\<exists>m1. runs_to E src next_item prepare ?m m1 \<and> P m1"
        by (rule Cons.IH [where k = "k + 1"]) (use Cons.prems(3) running in \<open>simp_all add: Let_def\<close>)
      then show ?thesis by (intro runs_ex_step [OF steps(1)] runs_ex_step [OF steps(2)] runs_ex_step [OF steps(3)]
          runs_ex_step [OF steps(4)])
    qed
  qed
qed

section \<open>A round\<close>

definition as_handler ::
    "('db, 'm, 's) env \<Rightarrow> string \<Rightarrow> (int \<Rightarrow> change_event \<Rightarrow> 'db pipeline \<Rightarrow> change_event list \<times> 'db pipeline)
     \<Rightarrow> (nat \<Rightarrow> int \<times> duration) \<Rightarrow> change_event \<Rightarrow> 'db pipeline \<Rightarrow> 'db pipeline" where
  "as_handler E src prepare clock event s =
     (let (mutations, s) = prepare (fst (clock 0)) event s in deliver_all E src clock 1 mutations s)"

lemma round_runs:
  assumes keeps: "\<And>now e s. task (snd (prepare now e s)) = task s"
    and m: "task (pipe m) = Running" "pc m = Idle" "next_item c (pos m) = (item r, p)"
    and fin: "task (round_step (as_handler E src prepare) (pipe m) r) \<noteq> Throttled"
  shows "\<exists>m'. runs_to E src next_item prepare m m' \<and> pipe m' = round_step (as_handler E src prepare) (pipe m) r
    \<and> pos m' = p \<and> (task (pipe m') = Running \<longrightarrow> pc m' = Idle)"
    (is "\<exists>m'. ?R m m' \<and> ?Q m'")
proof -
  let ?m1 = "m\<lparr>pc := Received (item r), pos := p\<rparr>"
  have next1: "machine_step E src next_item prepare (Next c) m = Some ?m1" using m by (simp add: machine_step_def)
  have "\<exists>m'. ?R ?m1 m' \<and> ?Q m'"
  proof (cases "leading r")
    case False
    let ?m2 = "?m1\<lparr>pc := Idle\<rparr>"
    have "machine_step E src next_item prepare (Check False) ?m1 = Some ?m2" using m by (simp add: machine_step_def)
    then have "?R ?m1 ?m2" by (rule runs_to_step [OF _ runs_to_refl])
    moreover have "?Q ?m2" using False m by (simp add: round_step_def)
    ultimately show ?thesis by blast
  next
    case True
    let ?s = "(pipe m)\<lparr>failover := record_heartbeat (failover (pipe m)) (beat_at r)\<rparr>"
    let ?m2 = "?m1\<lparr>pc := Leading (item r)\<rparr>" and ?m3 = "?m1\<lparr>pc := Limiting (item r), pipe := ?s\<rparr>"
    have steps: "machine_step E src next_item prepare (Check True) ?m1 = Some ?m2"
      "machine_step E src next_item prepare (Beat (beat_at r)) ?m2 = Some ?m3"
      using m by (simp_all add: machine_step_def)
    have "\<exists>m'. ?R ?m3 m' \<and> ?Q m'"
    proof (cases "acquire (limiter (pipe m)) 1 (limiter_readings r)")
      case (Waiting b)
      then show ?thesis using fin m True by (simp add: round_step_def Let_def del: acquire.simps)
    next
      case (Panicked b)
      let ?m4 = "?m3\<lparr>pipe := ?s\<lparr>limiter := b, task := Dead\<rparr>\<rparr>"
      have "?R ?m3 ?m4"
        by (rule limiting_runs [OF _ _ _ runs_to_refl, where r = "item r" and ts = "limiter_readings r" and b = b])
          (use m Panicked in simp_all)
      moreover have "?Q ?m4" using Panicked m True by (simp add: round_step_def Let_def del: acquire.simps)
      ultimately show ?thesis by blast
    next
      case (Acquired b)
      let ?t = "?s\<lparr>limiter := b\<rparr>"
      let ?m4 = "?m3\<lparr>pc := Admitted (item r), pipe := ?t\<rparr>"
      have res: "round_step (as_handler E src prepare) (pipe m) r =
          (case item r of Inr e \<Rightarrow> as_handler E src prepare (clocks r) e ?t | Inl _ \<Rightarrow> ?t\<lparr>task := Ended\<rparr>)"
        using Acquired m True by (simp add: round_step_def Let_def del: acquire.simps split: sum.split)
      have "\<exists>m'. ?R ?m4 m' \<and> ?Q m'"
      proof (cases "item r")
        case (Inl err)
        let ?m5 = "?m4\<lparr>pipe := ?t\<lparr>task := Ended\<rparr>\<rparr>"
        have "machine_step E src next_item prepare (Handle 0) ?m4 = Some ?m5"
          using m Inl by (simp add: machine_step_def)
        then have "?R ?m4 ?m5" by (rule runs_to_step [OF _ runs_to_refl])
        moreover have "?Q ?m5" by (simp add: res Inl)
        ultimately show ?thesis by blast
      next
        case (Inr e)
        obtain ms u where u: "prepare (fst (clocks r 0)) e ?t = (ms, u)" by fastforce
        let ?m5 = "?m4\<lparr>pc := continue ms, pipe := u\<rparr>"
        have run: "task u = Running" using keeps [of "fst (clocks r 0)" e ?t] u m by simp
        have handle: "machine_step E src next_item prepare (Handle (fst (clocks r 0))) ?m4 = Some ?m5"
          using m Inr u by (simp add: machine_step_def)
        have "\<exists>m'. ?R ?m5 m' \<and> ?Q m'"
          by (rule delivering_runs [where es = ms and clock = "clocks r" and k = 1])
            (use run in \<open>simp_all add: res Inr as_handler_def u\<close>)
        then show ?thesis by (rule runs_ex_step [OF handle])
      qed
      then obtain m' where r4: "?R ?m4 m'" and q: "?Q m'" by blast
      have "?R ?m3 m'"
        by (rule limiting_runs [OF _ _ _ r4, where r = "item r" and ts = "limiter_readings r" and b = b])
          (use m Acquired in simp_all)
      with q show ?thesis by blast
    qed
    then show ?thesis by (intro runs_ex_step [OF steps(1)] runs_ex_step [OF steps(2)])
  qed
  then show ?thesis by (rule runs_ex_step [OF next1])
qed

lemma handlers: "pg_event E = as_handler E ''postgres_users'' (pg_prepare E)"
  "cass_event E = as_handler E ''cassandra_sensors'' (\<lambda>now. cass_prepare)"
  by (simp_all add: fun_eq_iff pg_event_def cass_event_def as_handler_def)

lemma prepare_task [simp]: "task (snd (pg_prepare E now e s)) = task s" "task (snd (cass_prepare e s)) = task s"
  by (auto simp: pg_prepare_def cass_prepare_def dead_letter_def Let_def split_beta split: sum.split option.split)

lemma deliver_all_task: "task s = Running \<Longrightarrow> task (deliver_all E src clock k es s) \<in> {Running, Dead}"
proof (induction es arbitrary: k s)
  case (Cons e es)
  have "task (deliver E src (clock k) e s) \<in> {Running, Dead}"
    using Cons.prems
    by (auto simp: deliver_def deliver_steps dead_letter_def Let_def split_beta split: option.split sum.split)
  then show ?case using Cons.IH by (auto simp: Let_def)
qed simp

lemma handler_not_throttled:
  assumes "task s = Running"
  shows "task (pg_event E clock e s) \<noteq> Throttled"
proof -
  obtain ms u where u: "pg_prepare E (fst (clock 0)) e s = (ms, u)" by fastforce
  then have "task u = Running" using prepare_task(1) [of E "fst (clock 0)" e s] assms by simp
  from deliver_all_task [OF this, of E "''postgres_users''" clock 1 ms] show ?thesis by (auto simp: pg_event_def u)
qed

definition demo_pg_round :: "postgres_error round" where
  "demo_pg_round = \<lparr>item = Ok (fst (pg_next 0 0)), leading = True, beat_at = 0, limiter_readings = [from_millis 500],
     clocks = (\<lambda>_. (0, 0))\<rparr>"

section \<open>Properties\<close>



end
