(* ===== verification/Replace_Guest.thy ===== *)
theory Replace_Guest
  imports Transform
begin

text \<open>
  The guest module of \<open>test_wasm_inline_replace\<close> in \<^verbatim>\<open>src/src/transform/mod.rs\<close>: a loop over the
  bytes of the serialized event that overwrites the text \<open>users\<close> by \<open>audit\<close> in place. Addresses
  and the loop bound are 32-bit words, compared as signed numbers, and an access outside the one
  page of memory traps.
\<close>

section \<open>Model\<close>

definition users_bytes :: bytes where
  "users_bytes = [117, 115, 101, 114, 115]"

definition audit_bytes :: bytes where
  "audit_bytes = [97, 117, 100, 105, 116]"

text \<open>The nested conditions: byte after byte is loaded and compared. \<open>None\<close> is a trap.\<close>

fun matches_at :: "(nat \<Rightarrow> u8) \<Rightarrow> i32 \<Rightarrow> bytes \<Rightarrow> bool option" where
  "matches_at m a [] = Some True"
| "matches_at m a (c # cs) =
     (if unat a < page then (if m (unat a) = c then matches_at m (a + 1) cs else Some False) else None)"

fun store_at :: "(nat \<Rightarrow> u8) \<Rightarrow> i32 \<Rightarrow> bytes \<Rightarrow> (nat \<Rightarrow> u8) option" where
  "store_at m a [] = Some m"
| "store_at m a (c # cs) = (if unat a < page then store_at (m(unat a := c)) (a + 1) cs else None)"

lemma sint_next:
  fixes i e :: i32
  assumes "sint i < sint e"
  shows "sint (i + 1) = sint i + 1"
proof -
  have "sint e < 2 ^ 31" using sint_lt [of e] by simp
  moreover have "- (2 ^ 31) \<le> sint i" using sint_ge [of i] by simp
  ultimately have "signed_take_bit 31 (sint i + 1) = sint i + 1"
    using assms by (intro signed_take_bit_int_eq_self) simp_all
  then show ?thesis by (simp add: sint_word_ariths)
qed

function replace_loop :: "(nat \<Rightarrow> u8) \<Rightarrow> i32 \<Rightarrow> i32 \<Rightarrow> (nat \<Rightarrow> u8) option" where
  "replace_loop m i stop =
     (if sint stop \<le> sint i then Some m
      else
        (case matches_at m i users_bytes of
           None \<Rightarrow> None
         | Some False \<Rightarrow> replace_loop m (i + 1) stop
         | Some True \<Rightarrow>
             (case store_at m i audit_bytes of
                None \<Rightarrow> None
              | Some m' \<Rightarrow> replace_loop m' (i + 1) stop)))"
  by pat_completeness auto
termination
  by (relation "measure (\<lambda>(m, i, e). nat (sint e - sint i))") (auto simp: sint_next not_le)

declare replace_loop.simps [simp del]

definition replace_transform :: "(nat \<Rightarrow> u8) \<Rightarrow> i32 \<Rightarrow> i32 \<Rightarrow> (string, i32) result \<times> (nat \<Rightarrow> u8)" where
  "replace_transform m ptr len =
     (case replace_loop m ptr (ptr + len - 4) of
        None \<Rightarrow> (Err ''out of bounds memory access'', m)
      | Some m' \<Rightarrow> (Ok len, m'))"

text \<open>The rest of the module is the one of the pass-through.\<close>

definition replace_guest :: "(unit, nat \<Rightarrow> u8) wasm_host" where
  "replace_guest = passthrough\<lparr>call_transform := replace_transform\<rparr>"

section \<open>Specification\<close>

function replace_users :: "bytes \<Rightarrow> bytes" where
  "replace_users bs =
     (if bs = [] then []
      else if take 5 bs = users_bytes then audit_bytes @ replace_users (drop 5 bs)
      else hd bs # replace_users (tl bs))"
  by auto
termination
  by (relation "measure length") auto

declare replace_users.simps [simp del]

section \<open>Lemmas\<close>

lemma length_texts [simp]: "length users_bytes = 5" "length audit_bytes = 5"
  by (simp_all add: users_bytes_def audit_bytes_def)

lemma matches_at_list:
  assumes "unat a + length cs \<le> page"
  shows "matches_at m a cs = Some (map m [unat a..<unat a + length cs] = cs)"
  using assms
proof (induction cs arbitrary: a)
  case (Cons c cs)
  have nx: "unat (a + 1) = unat a + 1" using Cons.prems by (subst unat_plus_if') (simp add: page_def)
  have "[unat a..<unat a + length (c # cs)] = unat a # [unat a + 1..<unat a + 1 + length cs]"
    by (simp add: upt_conv_Cons del: upt_Suc)
  then show ?case using Cons.IH [of "a + 1"] Cons.prems by (simp add: nx del: upt_Suc)
qed simp

lemma store_at_list:
  assumes "unat a + length cs \<le> page"
  shows "store_at m a cs = Some (mem_write m (unat a) cs)"
  using assms
proof (induction cs arbitrary: a m)
  case Nil
  then show ?case by (auto simp: mem_write_def fun_eq_iff)
next
  case (Cons c cs)
  have nx: "unat (a + 1) = unat a + 1" using Cons.prems by (subst unat_plus_if') (simp add: page_def)
  have "mem_write (m(unat a := c)) (unat a + 1) cs = mem_write m (unat a) (c # cs)"
    by (rule ext) (auto simp: mem_write_def nth_Cons')
  then show ?case using Cons.IH [of "a + 1"] Cons.prems by (simp add: nx)
qed

lemma replace_users_short:
  "length bs < 5 \<Longrightarrow> replace_users bs = bs"
proof (induction bs rule: replace_users.induct)
  case (1 bs)
  show ?case
  proof (cases "bs = []")
    case False
    have "take 5 bs \<noteq> users_bytes"
    proof
      assume "take 5 bs = users_bytes"
      then have "length (take 5 bs) = 5" by (simp add: users_bytes_def)
      then show False using 1(3) by simp
    qed
    then have "replace_users bs = hd bs # replace_users (tl bs)" using False by (subst replace_users.simps) simp
    also have "replace_users (tl bs) = tl bs" using 1(2) [OF False \<open>take 5 bs \<noteq> users_bytes\<close>] 1(3) by simp
    finally show ?thesis using False by simp
  qed (simp add: replace_users.simps)
qed

lemma replace_users_miss: "take 5 (b # bs) \<noteq> users_bytes \<Longrightarrow> replace_users (b # bs) = b # replace_users bs"
  by (subst replace_users.simps) simp

lemma replace_users_hit: "replace_users (users_bytes @ bs) = audit_bytes @ replace_users bs"
  by (subst replace_users.simps) (simp add: users_bytes_def)

text \<open>The text written does not make a new match with what follows it.\<close>

lemma replace_users_tail: "replace_users (tl audit_bytes @ bs) = tl audit_bytes @ replace_users bs"
  by (simp add: audit_bytes_def replace_users_miss users_bytes_def)

lemma length_replace_users [simp]: "length (replace_users bs) = length bs"
proof (induction bs rule: replace_users.induct)
  case (1 bs)
  show ?case
  proof (cases "take 5 bs = users_bytes")
    case True
    then have bs: "bs = users_bytes @ drop 5 bs" by (metis append_take_drop_id)
    then have "bs \<noteq> []" by (auto simp: users_bytes_def)
    then have "length (replace_users (drop 5 bs)) = length (drop 5 bs)" using 1(1) True by blast
    then show ?thesis
      using replace_users_hit [of "drop 5 bs"] bs by (metis audit_bytes_def length_append length_Cons users_bytes_def)
  next
    case False
    then show ?thesis using 1(2) by (cases bs) (simp_all add: replace_users_miss replace_users.simps)
  qed
qed

lemma replace_loop_list:
  assumes "unat i = k" and "sint i = int k" and "sint stop = int n - 4" and "k \<le> n" and "n \<le> page"
  shows "\<exists>m'. replace_loop m i stop = Some m' \<and> map m' [k..<n] = replace_users (map m [k..<n])
    \<and> (\<forall>j. j < k \<or> n \<le> j \<longrightarrow> m' j = m j)"
  using assms
proof (induction "n - k" arbitrary: m i k)
  case 0
  then show ?case by (auto simp: replace_loop.simps [of m i stop] replace_users.simps)
next
  case (Suc d)
  show ?case
  proof (cases "n < k + 5")
    case True
    then have "replace_loop m i stop = Some m" using Suc.prems by (simp add: replace_loop.simps [of m i stop])
    then show ?thesis using True by (auto simp: replace_users_short)
  next
    case False
    let ?bs = "map m [k..<n]"
    have split: "[k..<n] = k # [k + 1..<n]" using False by (simp add: upt_conv_Cons)
    have five: "take 5 ?bs = map m [k..<k + 5]" using False by (simp add: take_map)
    have lt: "sint i < sint stop" using Suc.prems False by simp
    have nx: "unat (i + 1) = k + 1" "sint (i + 1) = int (k + 1)"
      using Suc.prems False sint_next [OF lt] by (simp_all add: unat_plus_if' page_def)
    have mt: "matches_at m i users_bytes = Some (take 5 ?bs = users_bytes)"
      using matches_at_list [of i users_bytes m] Suc.prems False five by simp
    have d: "d = n - (k + 1)" "k + 1 \<le> n" using Suc.hyps(2) False by simp_all
    show ?thesis
    proof (cases "take 5 ?bs = users_bytes")
      case miss: False
      have loop: "replace_loop m i stop = replace_loop m (i + 1) stop"
        using lt mt miss by (simp add: replace_loop.simps [of m i stop])
      from Suc.hyps(1) [OF d(1) nx Suc.prems(3) d(2) Suc.prems(5), of m] obtain m' where
        m': "replace_loop m (i + 1) stop = Some m'" "map m' [k + 1..<n] = replace_users (map m [k + 1..<n])"
          "\<forall>j. j < k + 1 \<or> n \<le> j \<longrightarrow> m' j = m j" by blast
      have "replace_users ?bs = m k # replace_users (map m [k + 1..<n])"
        using miss unfolding split by (simp add: replace_users_miss)
      then have "map m' [k..<n] = replace_users ?bs" using m'(2,3) unfolding split by simp
      then show ?thesis using loop m' by auto
    next
      case hit: True
      let ?m = "mem_write m k audit_bytes"
      have st: "store_at m i audit_bytes = Some ?m"
        using store_at_list [of i audit_bytes m] Suc.prems False by simp
      have loop: "replace_loop m i stop = replace_loop ?m (i + 1) stop"
        using lt mt hit st by (simp add: replace_loop.simps [of m i stop])
      from Suc.hyps(1) [OF d(1) nx Suc.prems(3) d(2) Suc.prems(5), of ?m] obtain m' where
        m': "replace_loop ?m (i + 1) stop = Some m'" "map m' [k + 1..<n] = replace_users (map ?m [k + 1..<n])"
          "\<forall>j. j < k + 1 \<or> n \<le> j \<longrightarrow> m' j = ?m j" by blast
      let ?rest = "map m [k + 5..<n]"
      have bs: "?bs = users_bytes @ ?rest" using hit False by (metis append_take_drop_id drop_map drop_upt)
      have wr: "map ?m [k + 1..<n] = tl audit_bytes @ ?rest"
      proof (rule nth_equalityI)
        show "length (map ?m [k + 1..<n]) = length (tl audit_bytes @ ?rest)" using False by (simp add: audit_bytes_def)
        show "map ?m [k + 1..<n] ! j = (tl audit_bytes @ ?rest) ! j" if "j < length (map ?m [k + 1..<n])" for j
          using that by (auto simp: mem_write_def audit_bytes_def nth_append nth_Cons eval_nat_numeral split: nat.split)
      qed
      have "map m' [k..<n] = hd audit_bytes # tl audit_bytes @ replace_users ?rest"
        using m'(2,3) unfolding split wr replace_users_tail by (simp add: mem_write_def audit_bytes_def)
      also have "\<dots> = replace_users ?bs" unfolding bs replace_users_hit by (simp add: audit_bytes_def)
      finally have "map m' [k..<n] = replace_users ?bs" .
      moreover have "\<forall>j. j < k \<or> n \<le> j \<longrightarrow> m' j = m j" using m'(3) False by (auto simp: mem_write_def audit_bytes_def)
      ultimately show ?thesis using loop m'(1) by auto
    qed
  qed
qed

lemma replace_transform_list:
  assumes "length raw \<le> page"
  shows "\<exists>m'. replace_transform (mem_write m 0 raw) 0 (of_nat (length raw)) = (Ok (of_nat (length raw)), m')
    \<and> map m' [0..<length raw] = replace_users raw"
proof -
  let ?n = "length raw" and ?m = "mem_write m 0 raw"
  have "sint (of_nat ?n :: i32) = int ?n" by (rule i32_len(1)) (use assms in \<open>simp add: page_def\<close>)
  moreover have "signed_take_bit 31 (int ?n - 4) = int ?n - 4"
    using assms by (intro signed_take_bit_int_eq_self) (simp_all add: page_def)
  ultimately have stop: "sint (0 + of_nat ?n - 4 :: i32) = int ?n - 4" by (simp add: sint_word_ariths)
  from replace_loop_list [of 0 0, OF _ _ stop _ assms, of ?m] obtain m' where
    "replace_loop ?m 0 (0 + of_nat ?n - 4) = Some m'" "map m' [0..<?n] = replace_users (map ?m [0..<?n])" by auto
  then show ?thesis using mem_read_write [of m 0 raw] by (simp add: replace_transform_def)
qed

lemma replace_guest_run:
  assumes "length raw < 2 ^ 31"
  shows "run_guest replace_guest J (\<lambda>_. 0) raw =
     (if length raw \<le> page
      then (case event_from_slice J (replace_users raw) of Inl e \<Rightarrow> Some (Err (TSerialization e)) | Inr t \<Rightarrow> Some (Ok t))
      else Some (Err MemoryAccess))"
proof (cases "length raw \<le> page")
  case True
  from replace_transform_list [OF this, of "\<lambda>_. 0"] obtain m' where
    "replace_transform (mem_write (\<lambda>_. 0) 0 raw) 0 (of_nat (length raw)) = (Ok (of_nat (length raw)), m')"
    "map m' [0..<length raw] = replace_users raw" by blast
  then show ?thesis
    using True i32_len [OF assms] by (simp add: run_guest_def replace_guest_def passthrough_def Let_def)
next
  case False
  then show ?thesis by (simp add: run_guest_def replace_guest_def passthrough_def Let_def)
qed

section \<open>Properties\<close>

text \<open>
  C38: The replacing guest does what its test expects of it, for every event: it ends without a
  trap, the event comes back as the codec reads its JSON with every \<open>users\<close> written as
  \<open>audit\<close> and no other byte changed, and an event of more than a page of JSON is refused.
\<close>

theorem replace_guest_exact:
  assumes "event_to_vec J e = Ok raw" and "length raw < 2 ^ 31"
  shows "transform replace_guest J () e =
     (if length raw \<le> page
      then (case event_from_slice J (replace_users raw) of Inl err \<Rightarrow> Some (Err (TSerialization err)) | Inr t \<Rightarrow> Some (Ok t))
      else Some (Err MemoryAccess))"
  using replace_guest_run [OF assms(2), of J] assms(1)
  by (simp add: transform_def replace_guest_def passthrough_def)

text \<open>A codec that writes and reads the table name only, for closed examples.\<close>

definition table_name_codec :: event_codec where
  "table_name_codec =
     \<lparr>event_to_vec = (\<lambda>e. Ok (as_bytes (source_table_or_collection e))),
      event_from_slice = (\<lambda>bs. case from_utf8 bs of
          Some t \<Rightarrow> Ok ((demo_event ''1'' Create None)\<lparr>source_table_or_collection := t\<rparr>) | None \<Rightarrow> Err ''utf8'')\<rparr>"

theorem replace_guest_exact_witness:
  "let e = (demo_event ''1'' Create None)\<lparr>source_table_or_collection := ''my_users''\<rparr>
   in transform replace_guest table_name_codec () e = Some (Ok (e\<lparr>source_table_or_collection := ''my_audit''\<rparr>))"
proof -
  let ?e = "(demo_event ''1'' Create None)\<lparr>source_table_or_collection := ''my_users''\<rparr>"
  have "replace_users (as_bytes ''my_users'') = as_bytes ''my_audit''" by code_simp
  moreover have "from_utf8 (as_bytes ''my_audit'') = Some ''my_audit''" by code_simp
  ultimately show ?thesis
    using replace_guest_exact [of table_name_codec ?e "as_bytes ''my_users''"]
    by (simp add: table_name_codec_def as_bytes_def page_def Let_def)
qed

end
