(* ===== verification/Component_Tests.thy ===== *)
theory Component_Tests
  imports Dedup Tx_Buffer Watermark Schema_Registry Router Consensus Source Sinks Confluent Security
    Sync Parallel_Snapshot Metrics Observability Replace_Guest
begin

text \<open>
  The unit tests of the repository (the \<open>tests\<close> modules under \<^verbatim>\<open>src/src/\<close>) as boolean
  definitions over the model: each has the literals, the calls and the assertions of its test,
  in their order, and an \<open>unwrap\<close> of an error is a failed assertion. Readings of a clock, hash
  values and text forms are parameters, so a test that holds here holds for all of them. The
  tests that open a state store are in \<open>Store_Tests\<close>.
\<close>

section \<open>Events\<close>

text \<open>A \<open>ChangeEvent\<close> literal; all of them have no \<open>before\<close> image.\<close>

definition event_of ::
    "string \<Rightarrow> string \<Rightarrow> string \<Rightarrow> operation \<Rightarrow> int \<Rightarrow> json \<Rightarrow> json option \<Rightarrow> string option \<Rightarrow> string \<Rightarrow> change_event" where
  "event_of i db tbl op now k row tx off =
     \<lparr>ev_id = i, source_database = db, source_table_or_collection = tbl, operation = op, timestamp = now,
      ev_key = k, before = None, after = row, transaction_id = tx, offset = off\<rparr>"

definition int_json :: "u64 \<Rightarrow> json" where
  "int_json n = Number (PosInt n)"

definition id_json :: "u64 \<Rightarrow> json" where
  "id_json n = Object [(''id'', int_json n)]"

section \<open>Transaction buffer\<close>

definition tx_event :: "string \<Rightarrow> operation \<Rightarrow> string option \<Rightarrow> int \<Rightarrow> change_event" where
  "tx_event i op tx now = event_of i ''db'' ''tbl'' op now (Object []) None tx i"

definition test_transaction_commit :: "(nat \<Rightarrow> int) \<Rightarrow> bool" where
  "test_transaction_commit now =
     (let tb = tx_new;
          e1 = tx_event ''1'' Create (Some ''tx-123'') (now 0);
          e2 = tx_event ''2'' Update (Some ''tx-123'') (now 1);
          commit = tx_event ''3'' Commit (Some ''tx-123'') (now 2);
          (out1, tb) = tx_process tb e1;
          (out2, tb) = tx_process tb e2;
          (out3, tb) = tx_process tb commit
      in out1 = [] \<and> out2 = [] \<and> length out3 = 2 \<and> ev_id (out3 ! 0) = ''1'' \<and> ev_id (out3 ! 1) = ''2'')"

definition test_transaction_rollback :: "(nat \<Rightarrow> int) \<Rightarrow> bool" where
  "test_transaction_rollback now =
     (let tb = tx_new;
          e1 = tx_event ''1'' Create (Some ''tx-123'') (now 0);
          rollback = tx_event ''2'' Rollback (Some ''tx-123'') (now 1);
          (out1, tb) = tx_process tb e1;
          (out2, tb) = tx_process tb rollback
      in out1 = [] \<and> out2 = [] \<and> tb = [])"

definition test_passthrough :: "int \<Rightarrow> bool" where
  "test_passthrough now =
     (let (out, tb) = tx_process tx_new (tx_event ''1'' Create None now)
      in length out = 1 \<and> ev_id (out ! 0) = ''1'')"

section \<open>Deduplication filter\<close>

definition test_dedup_filtering :: bool where
  "test_dedup_filtering =
     (let filter = dedup_new 3;
          (r1, filter) = check_and_track filter ''evt-1'';
          (r2, filter) = check_and_track filter ''evt-1'';
          (r3, filter) = check_and_track filter ''evt-2'';
          (r4, filter) = check_and_track filter ''evt-3'';
          (r5, filter) = check_and_track filter ''evt-4'';
          (r6, filter) = check_and_track filter ''evt-1''
      in \<not> r1 \<and> r2 \<and> \<not> r3 \<and> \<not> r4 \<and> \<not> r5 \<and> \<not> r6)"

section \<open>Watermark snapshotter\<close>

definition test_watermark_reconciliation :: "(json \<Rightarrow> string) \<Rightarrow> (nat \<Rightarrow> int) \<Rightarrow> bool" where
  "test_watermark_reconciliation to_str now =
     (let snapshotter = wm_new;
          chunk_event = event_of ''snap-1'' ''db'' ''users'' Snapshot (now 0) (id_json 1)
            (Some (Object [(''id'', int_json 1), (''name'', String ''John'')])) None ''0'';
          snapshotter = load_chunk to_str [chunk_event] snapshotter;
          low_watermark = event_of ''wm-low'' ''db'' ''caminus_watermarks'' Create (now 1)
            (Object [(''wm_id'', String ''low-123'')]) None (Some ''tx-watermark'') ''1'';
          (out1, snapshotter1) = process_replication_event to_str snapshotter low_watermark;
          update_event = event_of ''pg-evt-2'' ''db'' ''users'' Update (now 2) (id_json 1)
            (Some (Object [(''id'', int_json 1), (''name'', String ''John Updated'')])) (Some ''tx-user-update'') ''2'';
          (out2, snapshotter2) = process_replication_event to_str snapshotter1 update_event;
          high_watermark = event_of ''wm-high'' ''db'' ''caminus_watermarks'' Create (now 3)
            (Object [(''wm_id'', String ''high-123'')]) None (Some ''tx-watermark'') ''3'';
          (out3, snapshotter3) = process_replication_event to_str snapshotter2 high_watermark;
          (chunk_events, snapshotter4) = flush_chunk snapshotter3
      in out1 = None \<and> is_in_window snapshotter1 \<and> out2 \<noteq> None \<and> out3 = None \<and> \<not> is_in_window snapshotter3
         \<and> length chunk_events = 1
         \<and> Option.bind (after (chunk_events ! 0)) (\<lambda>v. json_get v ''name'') = Some (String ''John Updated''))"

section \<open>Schema compatibility\<close>

definition fields_json :: "(string \<times> string) list \<Rightarrow> json" where
  "fields_json fs = Object [(''fields'', Object (map (\<lambda>(f, ty). (f, String ty)) fs))]"

definition test_schema_compatibility :: "(json \<Rightarrow> string) \<Rightarrow> bool" where
  "test_schema_compatibility dbg =
     (let old_schema = fields_json [(''id'', ''integer''), (''name'', ''string'')];
          new_schema_add = fields_json [(''email'', ''string''), (''id'', ''integer''), (''name'', ''string'')];
          new_schema_del = fields_json [(''id'', ''integer'')]
      in is_ok (check_compatibility dbg old_schema new_schema_add Backward)
         \<and> \<not> is_ok (check_compatibility dbg old_schema new_schema_del Backward)
         \<and> is_ok (check_compatibility dbg old_schema new_schema_del Forward)
         \<and> \<not> is_ok (check_compatibility dbg old_schema new_schema_add Forward)
         \<and> is_ok (check_compatibility dbg old_schema old_schema Full)
         \<and> \<not> is_ok (check_compatibility dbg old_schema new_schema_add Full))"

section \<open>Router\<close>

definition test_key_hash_partitioning :: "(string \<Rightarrow> u64) \<Rightarrow> (json \<Rightarrow> string) \<Rightarrow> int \<Rightarrow> bool" where
  "test_key_hash_partitioning hash to_str now =
     (let router = partition_router_new 4 KeyHash;
          event1 = event_of ''e1'' ''db'' ''users'' Create now (Object [(''user_id'', int_json 42)])
            (Some (Object [(''tenant_id'', String ''tenant-a''), (''user_id'', int_json 42)])) None ''1'';
          p1 = resolve_partition hash to_str router event1;
          p2 = resolve_partition hash to_str router event1
      in p1 = p2 \<and> p1 < 4)"

definition test_tenant_partitioning :: "(string \<Rightarrow> u64) \<Rightarrow> (json \<Rightarrow> string) \<Rightarrow> int \<Rightarrow> bool" where
  "test_tenant_partitioning hash to_str now =
     (let router = partition_router_new 8 TenantPrefix;
          event = event_of ''e2'' ''db'' ''users'' Create now (Object [(''user_id'', int_json 100)])
            (Some (Object [(''tenant_id'', String ''tenant-alpha''), (''user_id'', int_json 100)])) None ''2'';
          p = resolve_partition hash to_str router event
      in p < 8)"

section \<open>Retry with backoff\<close>

text \<open>The closures of the tests count their calls in an atomic.\<close>

definition temporary_failure :: "u64 \<Rightarrow> (string, string) result \<times> u64" where
  "temporary_failure attempts =
     (let a = attempts + 1 in (if a < 3 then Err ''temporary error'' else Ok ''success'', a))"

definition persistent_failure :: "u64 \<Rightarrow> (string, unit) result \<times> u64" where
  "persistent_failure attempts = (Err ''persistent error'', attempts + 1)"

definition test_retry_with_backoff_success :: "(nat \<Rightarrow> u64) \<Rightarrow> bool" where
  "test_retry_with_backoff_success seeds =
     (let (result, sleeps, attempts) =
            retry_with_backoff temporary_failure 5 (from_millis 10) 2 (from_millis 50) seeds 0
      in result = retry_outcome.Returned (Ok ''success'') \<and> attempts = 3)"

definition test_retry_with_backoff_failure :: "(nat \<Rightarrow> u64) \<Rightarrow> bool" where
  "test_retry_with_backoff_failure seeds =
     (let (result, sleeps, attempts) =
            retry_with_backoff persistent_failure 3 (from_millis 10) 2 (from_millis 50) seeds 0
      in result = retry_outcome.Returned (Err ''persistent error'') \<and> attempts = 3)"

section \<open>Active-active sync\<close>

definition test_sync_coordinator_loop_suppression :: "int \<Rightarrow> bool" where
  "test_sync_coordinator_loop_suppression now =
     (let coordinator = sync_new ''us-east-1'';
          local_event = event_of ''evt-1'' ''caminus_db'' ''users'' Create now (id_json 1) (Some (id_json 1))
            (Some ''local-tx-1'') ''offset-1'';
          remote_loop_event = local_event\<lparr>transaction_id := Some ''remote-us-east-1-tx''\<rparr>
      in should_forward coordinator local_event \<and> \<not> should_forward coordinator remote_loop_event)"

definition test_lww_conflict_resolution :: "int \<Rightarrow> bool" where
  "test_lww_conflict_resolution now =
     (let earlier = now - 5 * 1000000000;
          event_old = event_of ''evt-old'' ''db'' ''users'' Update earlier (id_json 1)
            (Some (Object [(''name'', String ''Old'')])) None ''off-1'';
          event_new = event_old\<lparr>ev_id := ''evt-new'', timestamp := now,
            after := Some (Object [(''name'', String ''New'')])\<rparr>
      in ev_id (resolve_conflict event_old event_new) = ''evt-new'')"

section \<open>Metrics\<close>

definition test_metrics_rendering :: bool where
  "test_metrics_rendering =
     (let m = metrics_zero; m = increment_ingested m; m = increment_processed m; m = increment_duplicates m;
          m = record_latency 500000 m;
          rendered = render m
      in sublist ''caminus_events_ingested_total 1'' rendered
         \<and> sublist ''caminus_events_processed_total 1'' rendered
         \<and> sublist ''caminus_duplicates_filtered_total 1'' rendered
         \<and> sublist ''caminus_processing_latency_seconds_sum 0.500000'' rendered
         \<and> sublist ''caminus_processing_latency_seconds_count 1'' rendered)"

text \<open>The port is free and the connection is accepted; \<open>m\<close> are the counters at that time.\<close>

definition test_metrics_server :: "metrics \<Rightarrow> bool" where
  "test_metrics_server m =
     (case start_exporter id ''127.0.0.1:29100'' (Ok ()) [(Ok (), m)] of
        (line, [resp]) \<Rightarrow> sublist ''HTTP/1.1 200 OK'' resp \<and> sublist ''caminus_events_ingested_total'' resp
      | _ \<Rightarrow> False)"

section \<open>Keys and masking\<close>

definition test_kms_key_rotation :: bool where
  "test_kms_key_rotation =
     (let v1 = as_bytes ''secret-key-v1-32-bytes-long-key!'';
          v2 = as_bytes ''secret-key-v2-32-bytes-long-key!'';
          kms = kms_new v1;
          (ver1, key1) = get_active_key kms;
          (ver2, kms) = rotate_key kms v2;
          (ver_act, key_act) = get_active_key kms
      in ver1 = 1 \<and> key1 = v1 \<and> ver2 = 2 \<and> ver_act = 2 \<and> key_act = v2
         \<and> get_key_by_version kms 1 = Some v1)"

definition test_payload_security_redact_and_hash :: "(json \<Rightarrow> string) \<Rightarrow> int \<Rightarrow> bool" where
  "test_payload_security_redact_and_hash to_str now =
     (let engine = add_rule (add_rule engine_new ''ssn'' Redact) ''email'' Hash;
          event = event_of ''evt-sec-1'' ''db'' ''users'' Create now (id_json 1)
            (Some (Object [(''email'', String ''alice@example.com''), (''id'', int_json 1),
               (''name'', String ''Alice''), (''ssn'', String ''000-12-3456'')])) (Some ''tx-1'') ''offset-1''
      in case after (apply_security to_str engine event) of
           None \<Rightarrow> False
         | Some row \<Rightarrow>
             json_get row ''ssn'' = Some (String ''[REDACTED]'')
             \<and> json_get row ''email'' \<noteq> Some (String ''alice@example.com'')
             \<and> json_get row ''name'' = Some (String ''Alice''))"

section \<open>Wire format\<close>

definition test_confluent_wire_format_encoding_decoding :: bool where
  "test_confluent_wire_format_encoding_decoding =
     (let client = confluent_new ''http://localhost:8081'';
          (schema_id, client) = register_subject client ''postgres_users-value'' ''{\"type\":\"record\"}'';
          payload = as_bytes ''avro-binary-payload-data'';
          encoded = encode_wire_format schema_id payload
      in schema_id = 100 \<and> length encoded = 5 + length payload \<and> encoded ! 0 = 0x00
         \<and> take 4 (drop 1 encoded) = [0, 0, 0, 100]
         \<and> decode_wire_format encoded = Ok (100, payload))"

definition avro_event :: "int \<Rightarrow> change_event" where
  "avro_event now = event_of ''evt-avro-1'' ''db'' ''users'' Create now (id_json 1)
     (Some (Object [(''id'', int_json 1), (''name'', String ''Bob'')])) (Some ''tx-1'') ''offset-1''"

definition test_avro_encoder_confluent_header :: "event_codec \<Rightarrow> int \<Rightarrow> bool" where
  "test_avro_encoder_confluent_header J now =
     (let encoder = avro_encoder_new ''http://localhost:8081'' in
      case encode_event J encoder (avro_event now) of
        (Inl _, _) \<Rightarrow> False
      | (Inr encoded, encoder) \<Rightarrow>
          encoded ! 0 = 0x00
          \<and> (case decode_event J encoded of
               Inl _ \<Rightarrow> False
             | Inr (schema_id, decoded) \<Rightarrow> schema_id = 100 \<and> ev_id decoded = ''evt-avro-1''))"

section \<open>Parallel snapshotter\<close>

definition test_parallel_snapshotter_chunking :: bool where
  "test_parallel_snapshotter_chunking =
     (case snapshotter_new ''users'' 100 25 of
        None \<Rightarrow> False
      | Some snapshotter \<Rightarrow>
          (let cs = chunks snapshotter
           in length cs = 4 \<and> min_key (cs ! 0) = 1 \<and> max_key (cs ! 0) = 25
              \<and> min_key (cs ! 3) = 76 \<and> max_key (cs ! 3) = 100))"

section \<open>Sinks and dead letters\<close>

definition test_dlq_routing :: "(change_event \<Rightarrow> (string, string) result) \<Rightarrow> int \<Rightarrow> int \<Rightarrow> bool" where
  "test_dlq_routing to_string now now' =
     (let dlq = dlq_new ''caminus_dlq_topic'';
          event = event_of ''poison-1'' ''db'' ''users'' Create now (id_json 999)
            (Some (Object [(''id'', int_json 999), (''malformed'', Bool True)])) None ''100'';
          rec = dlq_record_new event (''Type mismatch on field '' @ quote_text ''id'') ''SchemaValidation'' 3 now'
      in is_ok (fst (route_to_dlq to_string dlq rec)))"

section \<open>Serialization and observability\<close>

text \<open>
  What the test relies on of \<open>simd_json\<close>: an event is written as a compact object with its
  fields in the order of the struct, and a string of printable ASCII without quotes and backslashes
  is written as it is.
\<close>

definition plain_text :: "string \<Rightarrow> bool" where
  "plain_text s \<longleftrightarrow> list_all (\<lambda>c. 32 \<le> (of_char c :: nat) \<and> (of_char c :: nat) < 127 \<and> c \<noteq> CHR 0x22 \<and> c \<noteq> CHR 0x5C) s"

definition json_quote :: "string \<Rightarrow> string" where
  "json_quote s = CHR 0x22 # s @ [CHR 0x22]"

definition writes_fields :: "(change_event \<Rightarrow> (string, string) result) \<Rightarrow> change_event \<Rightarrow> bool" where
  "writes_fields to_string e \<longleftrightarrow>
     (\<exists>text. to_string e = Ok text
        \<and> (plain_text (ev_id e) \<and> plain_text (source_database e) \<and> plain_text (source_table_or_collection e) \<longrightarrow>
           prefix (''{'' @ json_quote ''id'' @ '':'' @ json_quote (ev_id e)
             @ '','' @ json_quote ''source_database'' @ '':'' @ json_quote (source_database e)
             @ '','' @ json_quote ''source_table_or_collection'' @ '':'' @ json_quote (source_table_or_collection e) @ '','')
             text))"

definition simd_event :: "int \<Rightarrow> change_event" where
  "simd_event now = event_of ''evt-simd'' ''db'' ''users'' Create now (id_json 1)
     (Some (Object [(''id'', int_json 1), (''name'', String ''Simd'')])) None ''100''"

definition test_simd_serialization :: "(change_event \<Rightarrow> (string, string) result) \<Rightarrow> int \<Rightarrow> bool" where
  "test_simd_serialization to_string now =
     (case serialize_event to_string (simd_event now) of
        Inl _ \<Rightarrow> False
      | Inr serialized \<Rightarrow> sublist ''evt-simd'' serialized \<and> sublist ''users'' serialized)"

text \<open>This test asserts nothing; it is the list of the calls it makes.\<close>

definition test_observability_helpers :: "recorder_call list" where
  "test_observability_helpers =
     [record_processing_latency (fl (125 / 10000)), record_replication_lag (fl (450 / 1000)), increment_throughput 1]"

section \<open>Forwarder\<close>

definition forwarded_event :: "int \<Rightarrow> change_event" where
  "forwarded_event now = event_of ''evt-fwd-1'' ''db'' ''orders'' Create now (id_json 100)
     (Some (Object [(''id'', int_json 100), (''total'', Number (Float (fl (4999 / 100))))]))
     (Some ''tx-100'') ''offset-100''"

definition test_cluster_forwarder_sink :: "(change_event \<Rightarrow> (string, string) result) \<Rightarrow> int \<Rightarrow> bool" where
  "test_cluster_forwarder_sink to_string now =
     is_ok (fst (forwarder_send to_string (forwarder_new ''eu-west-1'' ''https://eu.caminus.io:9000'')
       (forwarded_event now)))"

section \<open>Leadership\<close>

text \<open>\<open>n\<close> is the number of iterations the loop made during the sleep of 800 ms. The tests run on
  one thread, so nothing comes between \<open>shutdown()\<close> and the assertion after it.\<close>

definition test_consensus_leader_election :: "nat \<Rightarrow> bool" where
  "test_consensus_leader_election n = is_leader ((election_tick ^^ n) (coordinator_new 1))"

definition test_consensus_shutdown :: "nat \<Rightarrow> bool" where
  "test_consensus_shutdown n =
     (let c = (election_tick ^^ n) (coordinator_new 2);
          c' = c\<lparr>shutdown := True, shutdown_at := FlagSet\<rparr>;
          c'' = c'\<lparr>is_leader := False, shutdown_at := Done\<rparr>
      in is_leader c \<and> \<not> is_leader c'')"

definition test_failover_controller_lease_claim :: "instant \<Rightarrow> instant \<Rightarrow> instant \<Rightarrow> bool" where
  "test_failover_controller_lease_claim created now now' =
     (let controller = failover_new 2 50 created;
          (r1, controller) = check_and_claim_lease controller now;
          (r2, controller) = check_and_claim_lease controller now'
      in \<not> r1 \<and> r2)"

section \<open>Limiters\<close>

text \<open>Both requests find their tokens at their first look at the clock, so the test never sleeps.\<close>

definition test_token_bucket_limiter :: "instant \<Rightarrow> instant \<Rightarrow> instant \<Rightarrow> instant \<Rightarrow> instant \<Rightarrow> bool" where
  "test_token_bucket_limiter created start now now' stop =
     (case acquire (bucket_new 10 100 created) 5 [now] of
        Acquired limiter \<Rightarrow>
          (case acquire limiter 5 [now'] of
             Acquired _ \<Rightarrow> stop - start < from_millis 50
           | _ \<Rightarrow> False)
      | _ \<Rightarrow> False)"

definition test_tenant_quota_limiter :: "(nat \<Rightarrow> instant) \<Rightarrow> bool" where
  "test_tenant_quota_limiter now =
     (let q0 = set_tenant_quota (quota_new 2 10) ''tenant-A'' 1 1 (now 0);
          (a1, q1) = try_allow q0 ''tenant-A'' (now 1) (now 1);
          (a2, q2) = try_allow q1 ''tenant-A'' (now 2) (now 2);
          (b1, q3) = try_allow q2 ''tenant-B'' (now 3) (now 4);
          (b2, q4) = try_allow q3 ''tenant-B'' (now 5) (now 5);
          (b3, q5) = try_allow q4 ''tenant-B'' (now 6) (now 6)
      in has_tenant_quota q0 ''tenant-A'' \<and> tenant_count q0 = 1 \<and> a1 \<and> \<not> a2 \<and> b1 \<and> b2 \<and> \<not> b3
         \<and> tenant_count q5 = 2)"

section \<open>WebAssembly\<close>

definition wasm_event :: "int \<Rightarrow> change_event" where
  "wasm_event now = event_of ''evt-123'' ''caminus_db'' ''users'' Create now (id_json 1)
     (Some (Object [(''id'', int_json 1), (''name'', String ''John'')])) None ''1''"

definition test_wasm_passthrough :: "event_codec \<Rightarrow> bytes \<Rightarrow> int \<Rightarrow> bool" where
  "test_wasm_passthrough J wat now =
     (case transformer_new passthrough wat of
        Inl _ \<Rightarrow> False
      | Inr transformer \<Rightarrow>
          (case transform passthrough J transformer (wasm_event now) of
             Some (Inr transformed) \<Rightarrow>
               ev_id transformed = ev_id (wasm_event now)
               \<and> source_table_or_collection transformed = source_table_or_collection (wasm_event now)
           | _ \<Rightarrow> False))"

definition test_wasm_inline_replace :: "event_codec \<Rightarrow> bytes \<Rightarrow> int \<Rightarrow> bool" where
  "test_wasm_inline_replace J wat now =
     (case transformer_new replace_guest wat of
        Inl _ \<Rightarrow> False
      | Inr transformer \<Rightarrow>
          (case transform replace_guest J transformer (wasm_event now) of
             Some (Inr transformed) \<Rightarrow> source_table_or_collection transformed = ''audit''
           | _ \<Rightarrow> False))"

definition test_wasm_plugin_registration_and_metadata :: "('m, 's) wasm_host \<Rightarrow> int \<Rightarrow> bool" where
  "test_wasm_plugin_registration_and_metadata H now =
     (let registry = registry_new;
          (res, registry') = register_plugin H registry ''anonymizer'' ''1.0.0'' (as_bytes ''(module)'') now
      in registry_is_empty registry \<and> is_ok res \<and> registry_len registry' = 1
         \<and> (case get_metadata registry' ''anonymizer'' of
              None \<Rightarrow> False
            | Some meta \<Rightarrow> plugin_name meta = ''anonymizer'' \<and> plugin_version meta = ''1.0.0'' \<and> enabled meta))"

section \<open>Lemmas\<close>

lemmas event_texts = event_of_def int_json_def id_json_def

lemma tx_tests: "test_transaction_commit now \<and> test_transaction_rollback now \<and> test_passthrough (now 0)"
  by (simp add: test_transaction_commit_def test_transaction_rollback_def test_passthrough_def tx_event_def event_of_def
      tx_process_def tx_new_def hm_insert_def hm_remove_def Let_def)

lemma dedup_test: "test_dedup_filtering"
  by (simp add: test_dedup_filtering_def check_and_track_def dedup_new_def Let_def)

lemma watermark_test: "test_watermark_reconciliation to_str now"
  by (simp add: test_watermark_reconciliation_def event_texts load_chunk_def process_replication_event_def flush_chunk_def
      reconcile_def wm_new_def watermark_table_def is_in_window_def hm_insert_def hm_contains_key_def Let_def)

lemma compatibility_test: "test_schema_compatibility dbg"
  by (simp add: test_schema_compatibility_def fields_json_def check_compatibility_def schema_fields_def check_types_def
      check_present_def is_ok_def Let_def)

lemma router_tests: "test_key_hash_partitioning hash to_str now \<and> test_tenant_partitioning hash to_str now"
  using resolve_partition_lt [of "partition_router_new 4 KeyHash"] resolve_partition_lt [of "partition_router_new 8 TenantPrefix"]
  by (simp add: test_key_hash_partitioning_def test_tenant_partitioning_def partition_router_new_def word_less_nat_alt
      Let_def)

lemma retry_calls:
  "\<exists>r ds s'. retry_with_backoff f n (from_millis 10) 2 (from_millis 50) seeds s = (retry_outcome.Returned r, ds, s')
     \<and> retried f (max 1 n) s r ds s'"
  using retry_loop_retried [of 2 "from_millis 50" "from_millis 10" f n seeds 0 s]
  by (simp add: retry_with_backoff_def from_millis_def)

lemmas unrolled_calls = calls_Suc Source.calls_def length_Suc_conv is_ok_def

lemma retry_success: "test_retry_with_backoff_success seeds"
proof -
  from retry_calls [of temporary_failure 5 seeds 0] obtain r ds s' where
    run: "retry_with_backoff temporary_failure 5 (from_millis 10) 2 (from_millis 50) seeds 0 = (retry_outcome.Returned r, ds, s')"
    and ret: "retried temporary_failure 5 0 r ds s'"
    by auto
  from ret obtain errs where c: "Source.calls temporary_failure 0 (Suc (length ds)) = (map Inl errs @ [r], s')"
      "length errs = length ds" "is_ok r \<or> length ds = 4" "length ds < 5"
    unfolding retried_def by auto
  from c(4) consider "length ds = 0" | "length ds = Suc 0" | "length ds = Suc (Suc 0)" | "length ds = Suc (Suc (Suc 0))"
    | "length ds = Suc (Suc (Suc (Suc 0)))" by linarith
  then have "r = Ok ''success'' \<and> s' = 3"
    using c(1-3) by cases (auto simp: unrolled_calls temporary_failure_def Let_def split: if_splits)
  then show ?thesis by (simp add: test_retry_with_backoff_success_def run)
qed

lemma retry_failure: "test_retry_with_backoff_failure seeds"
proof -
  from retry_calls [of persistent_failure 3 seeds 0] obtain r ds s' where
    run: "retry_with_backoff persistent_failure 3 (from_millis 10) 2 (from_millis 50) seeds 0 = (retry_outcome.Returned r, ds, s')"
    and ret: "retried persistent_failure 3 0 r ds s'"
    by auto
  from ret obtain errs where c: "Source.calls persistent_failure 0 (Suc (length ds)) = (map Inl errs @ [r], s')"
      "length errs = length ds" "is_ok r \<or> length ds = 2" "length ds < 3"
    unfolding retried_def by auto
  from c(4) consider "length ds = 0" | "length ds = Suc 0" | "length ds = Suc (Suc 0)" by linarith
  then have "r = Err ''persistent error'' \<and> s' = 3"
    using c(1-3) by cases (auto simp: unrolled_calls persistent_failure_def)
  then show ?thesis by (simp add: test_retry_with_backoff_failure_def run)
qed

lemma sync_tests: "test_sync_coordinator_loop_suppression now \<and> test_lww_conflict_resolution now"
  by (simp add: test_sync_coordinator_loop_suppression_def test_lww_conflict_resolution_def should_forward_def sync_new_def
      resolve_conflict_def event_of_def Let_def)

lemma kms_test: "test_kms_key_rotation"
  by (simp add: test_kms_key_rotation_def kms_new_def get_active_key_def rotate_key_def get_key_by_version_def
      hm_insert_def Let_def)

lemma wire_format_test: "test_confluent_wire_format_encoding_decoding"
  unfolding test_confluent_wire_format_encoding_decoding_def by code_simp

lemma avro_test:
  assumes "event_codec_ok J" and "event_to_vec J (avro_event now) = Ok raw"
  shows "test_avro_encoder_confluent_header J now"
proof -
  have "event_from_slice J raw = Ok (avro_event now)" using assms by (simp add: event_codec_ok_def)
  then show ?thesis
    by (simp add: test_avro_encoder_confluent_header_def avro_encoder_new_def encode_event_def decode_event_def register_subject_def
        assign_id_def confluent_new_def assms(2) Let_def decode_encode) (simp add: encode_wire_format_def avro_event_def event_of_def)
qed

lemma chunking_test: "test_parallel_snapshotter_chunking"
  by (simp add: test_parallel_snapshotter_chunking_def snapshotter_new_def chunk_loop.simps Let_def)

lemma dlq_test: "test_dlq_routing to_string now now'"
  by (simp add: test_dlq_routing_def route_to_dlq_def is_ok_def Let_def)

lemma simd_serialization_test:
  assumes "writes_fields to_string (simd_event now)"
  shows "test_simd_serialization to_string now"
proof -
  let ?a = "''{'' @ json_quote ''id'' @ '':'' @ [CHR 0x22]"
  let ?b = "[CHR 0x22] @ '','' @ json_quote ''source_database'' @ '':'' @ json_quote ''db''
      @ '','' @ json_quote ''source_table_or_collection'' @ '':'' @ [CHR 0x22]"
  have "plain_text ''evt-simd'' \<and> plain_text ''db'' \<and> plain_text ''users''" by (simp add: plain_text_def)
  then obtain w rest where w: "to_string (simd_event now) = Ok w"
      "w = ?a @ ''evt-simd'' @ ?b @ ''users'' @ [CHR 0x22] @ '','' @ rest"
    using assms by (auto simp: writes_fields_def simd_event_def event_of_def json_quote_def prefix_def)
  have "w = ?a @ ''evt-simd'' @ (?b @ ''users'' @ [CHR 0x22] @ '','' @ rest)"
    "w = (?a @ ''evt-simd'' @ ?b) @ ''users'' @ ([CHR 0x22] @ '','' @ rest)"
    unfolding w(2) append_assoc by (rule refl)+
  then have "sublist ''evt-simd'' w \<and> sublist ''users'' w" unfolding sublist_def by blast
  then show ?thesis by (simp add: test_simd_serialization_def serialize_event_def w(1))
qed

lemma observability_calls:
  "counter_total ''caminus_throughput'' test_observability_helpers = 1
     \<and> samples ''caminus_replication_lag_seconds'' test_observability_helpers = [fl (450 / 1000)]"
  by (simp add: test_observability_helpers_def counter_total_def samples_def record_processing_latency_def
      record_replication_lag_def increment_throughput_def List.map_filter_simps)

lemma forwarder_test: "is_ok (to_string (forwarded_event now)) \<Longrightarrow> test_cluster_forwarder_sink to_string now"
  unfolding test_cluster_forwarder_sink_def by (simp add: forwarder.send_Ok is_ok_def)

lemma security_test: "test_payload_security_redact_and_hash to_str now"
proof -
  have "length (hex_fixed 16 (unat (djb2 (as_bytes ''alice@example.com'')))) = 16" by (rule length_hex_fixed)
  then have "hex_fixed 16 (unat (djb2 (as_bytes ''alice@example.com''))) \<noteq> ''alice@example.com''"
    by (metis length_Cons list.size(3) numeral_eq_iff eval_nat_numeral semiring_norm(26,27,28) n_not_Suc_n Suc_inject)
  then show ?thesis
    by (simp add: test_payload_security_redact_and_hash_def apply_security_def transform_value_def add_rule_def engine_new_def
        apply_rule_def mask_value_def event_texts hm_insert_def Let_def)
qed

text \<open>Text that occurs in the rendering of a counter occurs in the whole.\<close>

lemma counter_line: "sublist (name @ '' '' @ value) (counter_text name descr value)"
  unfolding counter_text_def by (metis append_assoc sublist_appendI)

lemma sublist_concat: "x \<in> set xs \<Longrightarrow> sublist t x \<Longrightarrow> sublist t (concat xs)"
  by (induction xs) (auto simp: sublist_append)

lemma render_concat: "render m = concat
    [counter_text ''caminus_events_ingested_total'' ''Total events ingested by the sources.'' (show_nat (unat (events_ingested m))),
     counter_text ''caminus_events_processed_total''
       ''Total events successfully processed and dispatched.'' (show_nat (unat (events_processed m))),
     counter_text ''caminus_duplicates_filtered_total''
       ''Total duplicate events filtered out by deduplication.'' (show_nat (unat (duplicates_filtered m))),
     counter_text ''caminus_processing_latency_seconds_sum'' ''Latency sum of processing events in seconds.''
       (show_fixed6 (fdiv (f64_of_nat (unat (latency_sum_us m))) 1000000)),
     counter_text ''caminus_processing_latency_seconds_count'' ''Count of events processed for latency.''
       (show_nat (unat (latency_count m)))]"
  unfolding render_def Let_def by (simp only: concat.simps append_Nil2)

lemma rendered_lines:
  "sublist (''caminus_events_ingested_total'' @ '' '' @ show_nat (unat (events_ingested m))) (render m)"
  "sublist (''caminus_events_processed_total'' @ '' '' @ show_nat (unat (events_processed m))) (render m)"
  "sublist (''caminus_duplicates_filtered_total'' @ '' '' @ show_nat (unat (duplicates_filtered m))) (render m)"
  "sublist (''caminus_processing_latency_seconds_sum'' @ '' ''
     @ show_fixed6 (fdiv (f64_of_nat (unat (latency_sum_us m))) 1000000)) (render m)"
  "sublist (''caminus_processing_latency_seconds_count'' @ '' '' @ show_nat (unat (latency_count m))) (render m)"
  unfolding render_concat by (rule sublist_concat [OF _ counter_line], simp only: list.set, (rule insertI1 | rule insertI2)+)+

lemma digit_chars: "digit_char 0 = CHR ''0''" "digit_char (Suc 0) = CHR ''1''" "digit_char 5 = CHR ''5''"
  by code_simp+

lemma rendering_test: "test_metrics_rendering"
proof -
  let ?m = "record_latency 500000 (increment_duplicates (increment_processed (increment_ingested metrics_zero)))"
  have m: "?m = \<lparr>events_ingested = 1, events_processed = 1, duplicates_filtered = 1, latency_sum_us = 500000, latency_count = 1\<rparr>"
    by (simp add: metrics_zero_def increment_ingested_def increment_processed_def increment_duplicates_def record_latency_def)
  have "pad_digits (Suc (Suc (Suc (Suc (Suc (Suc 0)))))) 500000 = ''500000''"
    by (simp only: pad_digits.simps) (simp add: digit_chars)
  moreover have six: "(6 :: nat) = Suc (Suc (Suc (Suc (Suc (Suc 0)))))" by simp
  ultimately have "pad_digits 6 500000 = ''500000''" unfolding six by blast
  moreover have "show_nat 0 = ''0''" "show_nat 1 = ''1''" by (simp_all add: show_nat.simps digit_chars)
  ultimately have "show_fixed6 (fdiv (f64_of_nat 500000) 1000000) = ''0.500000''" by (simp add: show_fixed6_micros)
  moreover have "show_nat 1 = ''1''" by (simp add: show_nat.simps digit_chars)
  ultimately show ?thesis
    using rendered_lines [of ?m] unfolding test_metrics_rendering_def Let_def m by simp
qed

lemma server_test: "test_metrics_server m"
proof -
  have "sublist ''HTTP/1.1 200 OK'' (exporter_response m)"
    unfolding exporter_response_def Let_def by (rule sublist_append_rightI)
  moreover have "sublist (render m) (exporter_response m)"
    unfolding exporter_response_def Let_def append_assoc [symmetric] by (rule sublist_append_leftI)
  then have "sublist ''caminus_events_ingested_total'' (exporter_response m)"
    using rendered_lines(1) [of m] by (meson sublist_append_rightI sublist_order.order_trans)
  ultimately show ?thesis by (simp add: test_metrics_server_def start_exporter_def serve_def List.map_filter_simps)
qed

lemma consensus_tests:
  assumes "2 \<le> n"
  shows "test_consensus_leader_election n \<and> test_consensus_shutdown n"
proof -
  have "is_leader ((election_tick ^^ (2 + k)) (coordinator_new i))
      \<and> role ((election_tick ^^ (2 + k)) (coordinator_new i)) = Leader
      \<and> \<not> shutdown ((election_tick ^^ (2 + k)) (coordinator_new i))" for i k
    by (induction k) (simp_all add: election_tick_def role_step_def coordinator_new_def numeral_2_eq_2)
  moreover obtain k where "n = 2 + k" using assms le_Suc_ex by blast
  ultimately show ?thesis by (simp only: test_consensus_leader_election_def test_consensus_shutdown_def Let_def) simp
qed

lemma lease_test:
  assumes "now \<le> created + from_millis 100" and "created + from_millis 120 \<le> now'"
  shows "test_failover_controller_lease_claim created now now'"
  using assms by (auto simp: test_failover_controller_lease_claim_def failover_new_def check_and_claim_lease_def from_millis_def
      Let_def)

lemma wasm_passthrough_test:
  assumes "event_codec_ok J" and "event_to_vec J (wasm_event now) = Ok raw" and "length raw \<le> page"
  shows "test_wasm_passthrough J wat now"
proof -
  have "transform passthrough J () (wasm_event now) = Some (Ok (wasm_event now))"
    using event_json.passthrough_exact [OF event_json_ok [OF assms(1)] assms(2)] assms(3) by simp
  then show ?thesis by (simp add: test_wasm_passthrough_def transformer_new_def passthrough_def)
qed

text \<open>The name of the table is the only \<open>users\<close> in the JSON of the event, so replacing it gives
  the JSON of the event of the other table.\<close>

lemma wasm_replace_test:
  assumes "event_codec_ok J" and "event_to_vec J (wasm_event now) = Ok raw" and "length raw \<le> page"
    and "event_to_vec J ((wasm_event now)\<lparr>source_table_or_collection := ''audit''\<rparr>) = Ok (replace_users raw)"
  shows "test_wasm_inline_replace J wat now"
proof -
  have "event_from_slice J (replace_users raw) = Ok ((wasm_event now)\<lparr>source_table_or_collection := ''audit''\<rparr>)"
    using assms(1,4) by (simp add: event_codec_ok_def)
  moreover have "length raw < 2 ^ 31" using assms(3) by (simp add: page_def)
  ultimately have "run_guest replace_guest J (\<lambda>_. 0) raw = Some (Ok ((wasm_event now)\<lparr>source_table_or_collection := ''audit''\<rparr>))"
    using replace_guest_run [of raw J] assms(3) by simp
  then show ?thesis
    using assms(2) by (simp add: test_wasm_inline_replace_def transformer_new_def transform_def replace_guest_def passthrough_def)
qed

lemma plugin_test:
  "is_ok (module_new H (as_bytes ''(module)'')) \<Longrightarrow> test_wasm_plugin_registration_and_metadata H now"
  by (auto simp: test_wasm_plugin_registration_and_metadata_def register_plugin_def transformer_new_def registry_new_def
      registry_is_empty_def registry_len_def get_metadata_def hm_insert_def is_ok_def Let_def split: sum.splits)

text \<open>A refill adds nothing negative and stops at the capacity.\<close>

lemma refill_keeps:
  assumes "rat_of_nat k \<le> tokens b" and "k \<le> unat (capacity b)" and "0 \<le> refill_rate_per_sec b"
  shows "rat_of_nat k \<le> tokens (refill b now)"
proof -
  let ?e = "fmul (as_secs_f64 (now - last_refill b)) (refill_rate_per_sec b)"
  have "k < 2 ^ 53" using assms(2) u32_small [of "capacity b"] by linarith
  then have k: "fl (rat_of_nat k) = rat_of_nat k" by (rule fl_of_nat)
  have "0 \<le> ?e" using assms(3) by (simp add: fmul_def fl_nonneg)
  then have "fl (rat_of_nat k) \<le> fl (tokens b + ?e)" using assms(1) by (intro fl_mono) simp
  moreover have "rat_of_nat k \<le> f64_of_u32 (capacity b)" unfolding f64_of_u32_exact of_nat_le_iff by (rule assms(2))
  ultimately show ?thesis using k by (simp add: refill_def fadd_def Let_def)
qed

lemma refill_full: "tokens b = f64_of_u32 (capacity b) \<Longrightarrow> 0 \<le> refill_rate_per_sec b \<Longrightarrow> tokens (refill b now) = f64_of_u32 (capacity b)"
  using refill_keeps [of "unat (capacity b)" b now] refill_tokens_le [of b now] by (simp add: f64_of_u32_exact)

lemma token_bucket_test:
  assumes "stop - start < from_millis 50"
  shows "test_token_bucket_limiter created start now now' stop"
proof -
  let ?b = "bucket_new 10 100 created"
  have full: "tokens (refill ?b now) = 10"
    using refill_full [of ?b now] by (simp add: bucket_new_def f64_of_u32_exact)
  then have "try_acquire ?b 5 now = (True, (refill ?b now)\<lparr>tokens := 5\<rparr>)"
    using fl_of_nat [of 5] by (simp add: try_acquire_def fsub_def f64_of_u32_exact Let_def)
  moreover have "5 \<le> tokens (refill ((refill ?b now)\<lparr>tokens := 5\<rparr>) now')"
    using refill_keeps [of 5 "(refill ?b now)\<lparr>tokens := 5\<rparr>" now'] by (simp add: bucket_new_def)
  then have "fst (try_acquire ((refill ?b now)\<lparr>tokens := 5\<rparr>) 5 now')"
    by (simp add: try_acquire_def f64_of_u32_exact Let_def)
  ultimately show ?thesis
    using assms by (auto simp: test_token_bucket_limiter_def split: prod.split bool.split)
qed

text \<open>In 20 ms a rate of at most 10 per second adds less than a third of a token.\<close>

lemma fl_sixteenths: "fl (1 / 32) = 1 / 32" "fl (5 / 16) = 5 / 16" "fl (21 / 16) = 21 / 16" "fl (5 / 8) = 5 / 8"
  by code_simp+

lemma refill_soon:
  assumes "now - last_refill b \<le> from_millis 20" and "0 \<le> refill_rate_per_sec b" and "refill_rate_per_sec b \<le> 10"
    and "tokens b \<le> q"
  shows "tokens (refill b now) \<le> fl (q + 5 / 16)"
proof -
  let ?d = "now - last_refill b"
  have d: "?d \<le> 20000000" using assms(1) by (simp add: from_millis_def)
  then have "rat_of_nat ?d / 1000000000 \<le> 1 / 32" by simp
  then have "fl (fl (rat_of_nat ?d / 1000000000)) \<le> fl (fl (1 / 32))" by (intro fl_mono)
  then have "as_secs_f64 ?d \<le> 1 / 32"
    using d by (simp add: as_secs_f64_def fadd_def fdiv_def nanos_per_sec_def f64_of_nat_def fl_of_nat fl_sixteenths)
  then have "as_secs_f64 ?d * refill_rate_per_sec b \<le> 1 / 32 * 10"
    using assms(2,3) by (intro mult_mono) auto
  then have "fmul (as_secs_f64 ?d) (refill_rate_per_sec b) \<le> 5 / 16"
    using fl_mono [of _ "5 / 16"] by (simp add: fmul_def fl_sixteenths)
  then have "fl (tokens b + fmul (as_secs_f64 ?d) (refill_rate_per_sec b)) \<le> fl (q + 5 / 16)"
    using assms(4) by (intro fl_mono) simp
  then show ?thesis by (simp add: refill_def fadd_def Let_def)
qed

lemma tenant_quota_test:
  assumes "\<forall>i. now 0 \<le> now i \<and> now i \<le> now 0 + from_millis 20"
  shows "test_tenant_quota_limiter now"
proof -
  have soon: "now j - now i \<le> from_millis 20" for i j
    using assms [rule_format, of i] assms [rule_format, of j] by linarith
  let ?a0 = "bucket_new 1 1 (now 0)" and ?b0 = "bucket_new 2 10 (now 3)"
  let ?a1 = "(refill ?a0 (now 1))\<lparr>tokens := 0\<rparr>" and ?b1 = "(refill ?b0 (now 4))\<lparr>tokens := 1\<rparr>"
  let ?t = "tokens (refill ?b1 (now 5))"
  let ?b2 = "(refill ?b1 (now 5))\<lparr>tokens := fsub ?t 1\<rparr>"
  have a1: "try_acquire ?a0 1 (now 1) = (True, ?a1)"
    using refill_full [of ?a0 "now 1"] fl_of_nat [of 0] by (simp add: try_acquire_def fsub_def bucket_new_def Let_def)
  have "tokens (refill ?a1 (now 2)) < 1"
    using refill_soon [of "now 2" ?a1 0] soon by (simp add: bucket_new_def fl_sixteenths)
  then have a2: "try_acquire ?a1 1 (now 2) = (False, refill ?a1 (now 2))" by (simp add: try_acquire_def Let_def)
  have b1: "try_acquire ?b0 1 (now 4) = (True, ?b1)"
    using refill_full [of ?b0 "now 4"] fl_of_nat [of 1] by (simp add: try_acquire_def fsub_def bucket_new_def f64_of_u32_exact Let_def)
  have t: "1 \<le> ?t" "?t \<le> 21 / 16"
    using refill_keeps [of 1 ?b1 "now 5"] refill_soon [of "now 5" ?b1 1] soon by (simp_all add: bucket_new_def fl_sixteenths)
  then have b2: "try_acquire ?b1 1 (now 5) = (True, ?b2)" by (simp add: try_acquire_def Let_def)
  have "fsub ?t 1 \<le> 5 / 16" using t fl_mono [of "?t - 1" "5 / 16"] by (simp add: fsub_def fl_sixteenths)
  then have "tokens (refill ?b2 (now 6)) < 1"
    using refill_soon [of "now 6" ?b2 "5 / 16"] soon by (simp add: bucket_new_def fl_sixteenths)
  then have b3: "try_acquire ?b2 1 (now 6) = (False, refill ?b2 (now 6))" by (simp add: try_acquire_def Let_def)
  show ?thesis
    by (simp add: test_tenant_quota_limiter_def set_tenant_quota_def quota_new_def try_allow_def a1 a2 b1 b2 b3
        has_tenant_quota_def tenant_count_def hm_insert_def hm_contains_key_def Let_def del: One_nat_def)
qed

end
