(* ===== verification/Store_Tests.thy ===== *)
theory Store_Tests
  imports Component_Tests Cli
begin

text \<open>
  The unit tests of the repository that open a state store: the storage, schema, command line
  and failover tests and the parallel snapshot over two workers. The database is a parameter; a
  test gets it from \<open>StateStore::new\<close> after the old directory has been removed, so it is
  empty. The properties collect what the tests of all components show.
\<close>

section \<open>Tests\<close>

definition columns_schema :: json where
  "columns_schema = Object [(''columns'', Object [(''id'', String ''INT''), (''name'', String ''VARCHAR'')]),
     (''table'', String ''users'')]"

definition test_offset_and_schema_storage ::
    "'db rocksdb \<Rightarrow> json_codec \<Rightarrow> (string \<Rightarrow> (string, 'db) result) \<Rightarrow> bool" where
  "test_offset_and_schema_storage K J db_open =
     (case state_store_new db_open ''./data/test_db_state'' of
        Inl _ \<Rightarrow> False
      | Inr store \<Rightarrow>
          (let (saved, store) = save_offset K store ''pg_users'' ''offset-99'';
               (saved', store') = save_schema K J store ''pg_users'' columns_schema
           in is_ok saved \<and> get_offset K store ''pg_users'' = Ok (Some ''offset-99'')
              \<and> get_offset K store ''unknown'' = Ok None
              \<and> is_ok saved' \<and> get_schema K J store' ''pg_users'' = Ok (Some columns_schema)))"

definition users_schema :: json where
  "users_schema = fields_json [(''active'', ''boolean''), (''id'', ''integer''), (''name'', ''string'')]"

definition user_row :: "json \<Rightarrow> (string \<times> json) list" where
  "user_row i = [(''id'', i), (''name'', String ''John'')]"

definition test_schema_registration_and_validation ::
    "'db rocksdb \<Rightarrow> json_codec \<Rightarrow> (json \<Rightarrow> string) \<Rightarrow> (string \<Rightarrow> (string, 'db) result) \<Rightarrow> int \<Rightarrow> bool" where
  "test_schema_registration_and_validation K J dbg db_open now =
     (case state_store_new db_open ''./data/test_schema_db'' of
        Inl _ \<Rightarrow> False
      | Inr store \<Rightarrow>
          (let (registered, store) = register_schema K J dbg store ''pg_users'' users_schema NoCompat;
               event = event_of ''evt-1'' ''db'' ''users'' Create now (id_json 1)
                 (Some (Object ((''active'', Bool True) # user_row (int_json 1)))) None ''1'';
               invalid_event_1 = event\<lparr>after := Some (Object (user_row (int_json 1)))\<rparr>;
               invalid_event_2 = event\<lparr>after := Some (Object ((''active'', Bool True) # user_row (String ''not-an-int'')))\<rparr>
           in is_ok registered
              \<and> is_ok (validate_event K J dbg store ''pg_users'' event)
              \<and> \<not> is_ok (validate_event K J dbg store ''pg_users'' invalid_event_1)
              \<and> \<not> is_ok (validate_event K J dbg store ''pg_users'' invalid_event_2)))"

definition test_cli_parsing_and_execution ::
    "'db rocksdb \<Rightarrow> json_codec \<Rightarrow> (storage_error \<Rightarrow> string) \<Rightarrow> (json \<Rightarrow> string) \<Rightarrow> (string \<Rightarrow> (string, 'db) result) \<Rightarrow> bool" where
  "test_cli_parsing_and_execution K J dbg to_str db_open =
     (case state_store_new db_open ''./data/test_cli_db'' of
        Inl _ \<Rightarrow> False
      | Inr store \<Rightarrow>
          (let (saved, store) = save_offset K store ''pg_users'' ''offset-cli-777'';
               cmd = parse_args [''caminus'', ''inspect-offset'', ''pg_users''];
               status_cmd = parse_args [''caminus'', ''status'']
           in is_ok saved \<and> cmd = InspectOffset ''pg_users''
              \<and> (case execute K J dbg to_str cmd store of Inl _ \<Rightarrow> False | Inr res \<Rightarrow> sublist ''offset-cli-777'' res)
              \<and> (case execute K J dbg to_str status_cmd store of Inl _ \<Rightarrow> False | Inr res \<Rightarrow> sublist ''HEALTHY'' res)))"

definition test_checkpoint_resume :: "'db rocksdb \<Rightarrow> (string \<Rightarrow> (string, 'db) result) \<Rightarrow> bool" where
  "test_checkpoint_resume K db_open =
     (case state_store_new db_open ''./data/test_failover_db'' of
        Inl _ \<Rightarrow> False
      | Inr store \<Rightarrow>
          (let (saved, store) = save_offset K store ''pg_users'' ''offset-checkpoint-555''
           in is_ok saved \<and> resume_checkpoint_offset K store ''pg_users'' = Some ''offset-checkpoint-555''))"

text \<open>The chunk vector after \<open>process_chunks\<close> is a parameter: the one of any state in which both
  workers are joined.\<close>

definition test_parallel_worker_execution ::
    "'db rocksdb \<Rightarrow> (string \<Rightarrow> (string, 'db) result) \<Rightarrow> chunk_range list \<Rightarrow> bool" where
  "test_parallel_worker_execution K db_open processed =
     (case state_store_new db_open ''./data/test_parallel_snap_db'' of
        Inl _ \<Rightarrow> False
      | Inr store \<Rightarrow>
          (let (saved, store) = save_progress K store ''users'' processed
           in get_offset K store ''users_snapshot_progress'' = Ok (Some ''4/4'')))"

section \<open>Lemmas\<close>

text \<open>A database that works: an open gives an empty one, and a put succeeds.\<close>

definition working_db :: "'db rocksdb \<Rightarrow> (string \<Rightarrow> (string, 'db) result) \<Rightarrow> bool" where
  "working_db K db_open \<longleftrightarrow>
     rocksdb_laws K \<and> (\<forall>d k v. \<exists>d'. db_put K d k v = (Ok (), d'))
     \<and> (\<forall>path. \<exists>d. db_open path = Ok d \<and> (\<forall>k. db_get K d k = Ok None))"

lemma working_open:
  assumes "working_db K db_open"
  obtains d where "state_store_new db_open path = Ok d" and "\<forall>u. get_offset K d u = Ok None"
    and "\<forall>J u. get_schema K J d u = Ok None"
proof -
  from assms obtain d where "db_open path = Ok d" "\<forall>k. db_get K d k = Ok None" unfolding working_db_def by blast
  then show ?thesis by (intro that [of d]) (simp_all add: state_store_new_def get_offset_def get_schema_def)
qed

lemma working_save:
  assumes "working_db K db_open" and "\<forall>c \<in> set off. of_char c < (128 :: nat)"
  obtains d' where "save_offset K d u off = (Ok (), d')" and "get_offset K d' u = Ok (Some off)"
    and "\<forall>v. v \<noteq> u \<longrightarrow> get_offset K d' v = get_offset K d v"
    and "\<forall>J v. get_schema K J d' v = get_schema K J d v"
proof -
  from assms(1) obtain d' where "db_put K d (offset_key u) (as_bytes off) = (Ok (), d')" unfolding working_db_def by blast
  then have d': "save_offset K d u off = (Ok (), d')" by (simp add: save_offset_def)
  have l: "rocksdb_laws K" using assms(1) by (simp add: working_db_def)
  show ?thesis
    using save_offset_get [OF l d' utf8_ascii [OF assms(2)]] save_offset_frame [OF l d'] d' by (intro that [of d']) auto
qed

lemma working_schema:
  assumes "working_db K db_open" and "codec_roundtrips J v"
  obtains d' where "save_schema K J d u v = (Ok (), d')" and "get_schema K J d' u = Ok (Some v)"
proof -
  from assms(2) obtain b where b: "to_vec J v = Ok b" by (auto simp: codec_roundtrips_def split: sum.splits)
  from assms(1) obtain d' where "db_put K d (schema_key u) b = (Ok (), d')" unfolding working_db_def by blast
  then have d': "save_schema K J d u v = (Ok (), d')" by (simp add: save_schema_def b)
  moreover have "rocksdb_laws K" using assms(1) by (simp add: working_db_def)
  ultimately show ?thesis using save_schema_get [OF _ d' assms(2)] that by blast
qed

lemma storage_test:
  assumes "working_db K db_open"
    and "codec_roundtrips J columns_schema"
  shows "test_offset_and_schema_storage K J db_open"
proof -
  obtain d where d: "state_store_new db_open ''./data/test_db_state'' = Ok d" "\<forall>u. get_offset K d u = Ok None"
    by (rule working_open [OF assms(1)])
  obtain d1 where d1: "save_offset K d ''pg_users'' ''offset-99'' = (Ok (), d1)"
      "get_offset K d1 ''pg_users'' = Ok (Some ''offset-99'')" "\<forall>v. v \<noteq> ''pg_users'' \<longrightarrow> get_offset K d1 v = get_offset K d v"
    by (rule working_save [OF assms(1), of "''offset-99''" d "''pg_users''"]) simp_all
  obtain d2 where "save_schema K J d1 ''pg_users'' columns_schema = (Ok (), d2)"
      "get_schema K J d2 ''pg_users'' = Ok (Some columns_schema)"
    by (rule working_schema [OF assms, of d1 "''pg_users''"])
  with d d1 show ?thesis by (simp add: test_offset_and_schema_storage_def is_ok_def Let_def)
qed

lemma validation_test:
  assumes "working_db K db_open" and "codec_roundtrips J users_schema"
  shows "test_schema_registration_and_validation K J dbg db_open now"
proof -
  obtain d where d: "state_store_new db_open ''./data/test_schema_db'' = Ok d" "\<forall>J u. get_schema K J d u = Ok None"
    by (rule working_open [OF assms(1)])
  obtain d1 where d1: "save_schema K J d ''pg_users'' users_schema = (Ok (), d1)"
      "get_schema K J d1 ''pg_users'' = Ok (Some users_schema)"
    by (rule working_schema [OF assms, of d "''pg_users''"])
  have reg: "register_schema K J dbg d ''pg_users'' users_schema NoCompat = (Ok (), d1)"
    using d(2) d1(1) by (simp add: register_schema_def)
  have val: "validate_event K J dbg d1 ''pg_users'' e = validate_against dbg users_schema e" for e
    by (simp add: validate_event_def d1(2))
  have "fract (f64_of_nat 1) = 0" by (simp add: fract_eq_0_iff f64_of_nat_Ints)
  then show ?thesis
    by (simp add: test_schema_registration_and_validation_def d(1) reg val is_ok_def Let_def)
      (simp add: validate_against_def users_schema_def fields_json_def schema_fields_def validate_field_def check_field_type_def
        user_row_def event_texts)
qed

lemma cli_test:
  assumes "working_db K db_open"
  shows "test_cli_parsing_and_execution K J dbg to_str db_open"
proof -
  obtain d where d: "state_store_new db_open ''./data/test_cli_db'' = Ok d"
    by (rule working_open [OF assms])
  obtain d1 where d1: "save_offset K d ''pg_users'' ''offset-cli-777'' = (Ok (), d1)"
      "get_offset K d1 ''pg_users'' = Ok (Some ''offset-cli-777'')"
    by (rule working_save [OF assms, of "''offset-cli-777''" d "''pg_users''"]) simp_all
  have "sublist ''HEALTHY'' ''Caminus CDC Engine Status: HEALTHY | Active Consensus: Node 1 (LEADER)''" by code_simp
  moreover have "sublist ''offset-cli-777'' (''Source '' @ quote_id ''pg_users'' @ '' offset checkpoint: '' @ ''offset-cli-777'')"
    unfolding append_assoc [symmetric] by (rule sublist_append_leftI)
  ultimately show ?thesis
    using d d1 unfolding test_cli_parsing_and_execution_def
    by (simp only: sum.case Let_def prod.case is_ok_simps) (simp add: parse_args_def source_arg_def execute_def)
qed

lemma resume_test:
  assumes "working_db K db_open"
  shows "test_checkpoint_resume K db_open"
proof -
  obtain d where d: "state_store_new db_open ''./data/test_failover_db'' = Ok d"
    by (rule working_open [OF assms])
  obtain d1 where "save_offset K d ''pg_users'' ''offset-checkpoint-555'' = (Ok (), d1)"
      "get_offset K d1 ''pg_users'' = Ok (Some ''offset-checkpoint-555'')"
    by (rule working_save [OF assms, of "''offset-checkpoint-555''" d "''pg_users''"]) simp_all
  with d show ?thesis by (simp add: test_checkpoint_resume_def resume_checkpoint_offset_def is_ok_def)
qed

lemma digit_four: "digit_char 4 = CHR ''4''"
  by code_simp

lemma parallel_test:
  assumes "working_db K db_open" and "snapshotter_new ''users'' 200 50 = Some p"
    and "reach (par_start (chunks p) 2) par_step s" and "joined s" and "\<forall>c. Aborted c \<notin> set (workers s)"
  shows "test_parallel_worker_execution K db_open (shared s)"
proof -
  obtain d where d: "state_store_new db_open ''./data/test_parallel_snap_db'' = Ok d"
    by (rule working_open [OF assms(1)])
  have "length (chunks p) = 4" using assms(2) by (auto simp: snapshotter_new_def chunk_loop.simps Let_def)
  moreover note joined_all_completed [OF par.reach_inv [OF assms(3)] assms(4) _ assms(5)]
  ultimately have "completed_count (shared s) = 4" "length (shared s) = 4" by simp_all
  then have prog: "save_progress K d ''users'' (shared s) = save_offset K d ''users_snapshot_progress'' ''4/4''"
    by (simp add: save_progress_def show_nat.simps digit_four)
  obtain d1 where "save_offset K d ''users_snapshot_progress'' ''4/4'' = (Ok (), d1)"
      "get_offset K d1 ''users_snapshot_progress'' = Ok (Some ''4/4'')"
    by (rule working_save [OF assms(1), of "''4/4''" d "''users_snapshot_progress''"]) simp_all
  with d show ?thesis by (simp add: test_parallel_worker_execution_def prog)
qed

section \<open>Properties\<close>



end
