(* ===== verification/Spec2Isabelle.thy ===== *)
theory Spec2Isabelle
  imports Confluent Security Sync Parallel_Snapshot Cli Metrics Quota_Threads Leadership Engine_Progress
    Round_Schedule Store_Tests
begin

text \<open>
  \<^bold>\<open>Caminus, a change-data-capture engine: verification library.\<close>

  Caminus (\<^verbatim>\<open>src/src/\<close>, Rust) reads the changes of two databases and hands them on. Two
  replication tasks (\<^verbatim>\<open>main.rs\<close>) each take events from a source, drop them while the node does
  not lead, wait for a token of a shared limiter, and pass the event through a deduplication
  filter, the schema check and the watermark engine (PostgreSQL only), a transaction buffer and a
  WebAssembly transformer to the sinks; after each event sent they save its offset, from which
  the next start resumes. What fails the schema check or the transformer goes to a dead letter
  queue. Around this stand libraries the binary does not call yet: the parallel snapshotter, the
  Confluent registry and Avro encoder, quotas per tenant, key management and masking,
  active-active sync, the forwarder sink, the plugin registry, the command line and the metrics
  registry.

  \<^bold>\<open>Which theory models what.\<close>
  \<^item> \<open>Prelude\<close>: results as sums, hash maps as association lists, words, decimal and
    hexadecimal text, UTF-8, and the locales \<open>inductive_invariant\<close> (an invariant holds in
    every reachable state) and \<open>keyed_table\<close> (the laws of a map).
  \<^item> \<open>F64\<close>: IEEE double arithmetic on rationals, with the locale \<open>rounding\<close>.
  \<^item> \<open>Event\<close> (\<^verbatim>\<open>source/mod.rs\<close>): \<open>ChangeEvent\<close>, \<open>Operation\<close>, JSON values.
  \<^item> \<open>Source\<close> (\<^verbatim>\<open>source/mod.rs\<close>, \<^verbatim>\<open>postgres.rs\<close>, \<^verbatim>\<open>cassandra.rs\<close>): \<open>retry_with_backoff\<close>
    and both \<open>start_stream\<close>; the trait is the locale \<open>cdc_source\<close>.
  \<^item> \<open>Dedup\<close> (\<^verbatim>\<open>resiliency/dedup.rs\<close>): \<open>check_and_track\<close>, a refinement of a window over the
    accepted ids; locale \<open>id_filter\<close>.
  \<^item> \<open>Tx_Buffer\<close> (\<^verbatim>\<open>buffer/mod.rs\<close>): \<open>process\<close> and \<open>prune\<close>, a refinement of the history of
    each transaction.
  \<^item> \<open>Watermark\<close> (\<^verbatim>\<open>snapshot/watermark.rs\<close>): the window between two watermarks and what is
    left of the snapshot chunk after it.
  \<^item> \<open>Parallel_Snapshot\<close> (\<^verbatim>\<open>snapshot/parallel.rs\<close>): the chunk plan and the workers as a step
    relation over the locked vector.
  \<^item> \<open>State_Store\<close> (\<^verbatim>\<open>storage/mod.rs\<close>): offsets and schemas over RocksDB; locale
    \<open>checkpoint_store\<close>.
  \<^item> \<open>Schema_Registry\<close> (\<^verbatim>\<open>storage/schema.rs\<close>): the compatibility modes and event validation;
    locale \<open>evolution\<close>.
  \<^item> \<open>Confluent\<close> (\<^verbatim>\<open>storage/confluent.rs\<close>, \<^verbatim>\<open>serialize/avro.rs\<close>): schema ids (sequential and
    as interleaved steps), the wire header, the encoder; locale \<open>framing\<close>.
  \<^item> \<open>Rate_Limiter\<close> (\<^verbatim>\<open>resiliency/rate_limiter.rs\<close>): token bucket and tenant quotas; locale
    \<open>per_key\<close>. \<open>Quota_Threads\<close>: the quotas called by several threads over the lock of the map.
  \<^item> \<open>Router\<close> (\<^verbatim>\<open>router/mod.rs\<close>): partition and tenant routing.
  \<^item> \<open>Consensus\<close> (\<^verbatim>\<open>consensus/mod.rs\<close>, \<^verbatim>\<open>failover.rs\<close>): the election loop and \<open>shutdown\<close> as
    interleaved steps, and the failover lease.
  \<^item> \<open>Security\<close> (\<^verbatim>\<open>security/kms.rs\<close>, \<^verbatim>\<open>security/mod.rs\<close>): key rotation, masking rules.
  \<^item> \<open>Sync\<close> (\<^verbatim>\<open>sync/mod.rs\<close>): loop suppression and last-write-wins; locale
    \<open>last_write_wins\<close>.
  \<^item> \<open>Transform\<close> (\<^verbatim>\<open>transform/mod.rs\<close>, \<^verbatim>\<open>transform/registry.rs\<close>): the calls into the guest,
    the plugin registry, and the module embedded in \<^verbatim>\<open>main.rs\<close>; locales
    \<open>faithful_transform\<close> and \<open>event_json\<close>.
  \<^item> \<open>Sinks\<close> (\<^verbatim>\<open>serialize/mod.rs\<close>, \<^verbatim>\<open>sink/\<close>, \<^verbatim>\<open>resiliency/dlq.rs\<close>): the sinks and the dead
    letter queue; the trait is the locale \<open>cdc_sink\<close>.
  \<^item> \<open>Cli\<close> (\<^verbatim>\<open>cli/mod.rs\<close>) and \<open>Metrics\<close> (\<^verbatim>\<open>resiliency/metrics.rs\<close>).
  \<^item> \<open>Replace_Guest\<close> (\<^verbatim>\<open>transform/mod.rs\<close>): the guest module of the tests that rewrites text in
    place, as a loop on 32-bit addresses.
  \<^item> \<open>Observability\<close> (\<^verbatim>\<open>observability/mod.rs\<close>): the calls on the metrics recorder.
  \<^item> \<open>Pipeline\<close> (\<^verbatim>\<open>main.rs\<close>): one round of either task, composed of the operations above;
    locales \<open>healthy_engine\<close> and \<open>delivery_task\<close>, of which both tasks are instances.
  \<^item> \<open>Delivery_Trace\<close>: the shape of what a task does to the outside, and what its metrics count.
  \<^item> \<open>End_To_End\<close>: source, task and store together, across restarts between rounds.
  \<^item> \<open>Engine\<close> (\<^verbatim>\<open>main.rs\<close>): the start of the process, and both tasks as machines that stop at
    every await and every access to shared state, interleaved over the store, limiter and failover
    controller they share; a crash is an action of the schedule.
  \<^item> \<open>Task_Machine\<close>: the locale \<open>resumable_task\<close> (what a source and the stages of a task
    promise), what every step of a task does under it, and \<open>faithful_engine\<close>, in which both tasks are
    instances; \<open>At_Least_Once\<close>: what follows for the events sent; \<open>Engine_Correct\<close>: the theorem
    for the whole engine.
  \<^item> \<open>Engine_Progress\<close>: the locale \<open>paced_task\<close>, in which steps are paid by positions; both tasks
    are instances.
  \<^item> \<open>Node\<close> (\<^verbatim>\<open>main.rs\<close>, \<^verbatim>\<open>consensus/mod.rs\<close>): the engine with the election loop whose flag it reads,
    the end of the process, and the same with the timers of the loop and of the streams.
    \<open>Sessions\<close>: what a start of the node sends, whenever it comes to lead; \<open>Leadership\<close>: with the
    timers, it leads before there is anything to drop.
  \<^item> \<open>Round_Schedule\<close>: the rounds of \<open>Pipeline\<close> are schedules of \<open>Engine\<close>.
  \<^item> \<open>Component_Tests\<close> and \<open>Store_Tests\<close>: the repository's own unit tests as assertions over the
    model, with every clock reading and third-party value a parameter. That they hold checks the
    definitions against what the authors of the code expect of it.

  \<^bold>\<open>How code becomes definitions.\<close> A struct is a record, an enum a datatype, a method a function
  from the state to its result and the new state. A \<open>u32\<close> or \<open>u64\<close> is a word and its
  arithmetic wraps, as in a release build; a debug build would panic at the same places. An
  \<open>f64\<close> is the rational it denotes and each operation rounds to 53 bits. A panic is a value of
  its own (\<open>None\<close> of \<open>transform\<close>, \<open>Overflow\<close> of the retry loop, \<open>Panicked\<close> of
  \<open>acquire\<close>). Where tasks or threads share state behind a lock or an atomic (the chunk vector,
  the schema cache, the leader flag, the key store, the tenant buckets), each critical section is one step of an
  inductive relation and the theorems range over all interleavings; the two tasks of the engine are
  step functions under an explicit schedule, and with timers a step of the schedule carries its
  time. Log lines are left out, except where printing is
  all a component does (the sinks and the dead letter queue).

  \<^bold>\<open>Parameters.\<close> Code outside the repository is an argument with its documented laws as named
  predicates: RocksDB (\<open>rocksdb_laws\<close>: a successful put is read back and touches no other key;
  a failing one may leave anything), the codecs of \<open>serde_json\<close> and \<open>simd_json\<close>
  (\<open>codec_roundtrips\<close> and \<open>event_codec_ok\<close>), wasmtime (the record \<open>wasm_host\<close>), the hash
  of \<open>DefaultHasher\<close>, the text of a JSON value, RFC 3339 text, and every reading of a clock.
  Witnesses instantiate them with an association list as database and concrete codecs.

  \<^bold>\<open>Loops.\<close> The retry loop and all traversals are total functions. The planning loop of the
  parallel snapshotter may run for ever at 64 bits, so it is a partial function into
  \<^typ>\<open>'a option\<close>; that it returns is part of the theorem. \<open>acquire\<close> runs over the list of its
  clock readings, one per round, and running out of them is the outcome \<open>Waiting\<close>; a theorem
  bounds the readings that are enough. The workers of the snapshotter are shown to end by a
  measure on the state.

  \<^bold>\<open>What is shown.\<close>
  \<^item> End to end: while the node leads, however the tasks interleave and wherever the process
    crashes, each task has sent exactly the offsets due, in order, and a crash repeats at most the
    last event before it; crashes between rounds repeat nothing. The node comes to lead in time for
    this if its election loop is never late by 50 ms; if it comes late, exactly the items taken before
    are missing. A task can always go on, and nine of its steps move its checkpoint by a position.
    A task delivers exactly what the
    transaction specification releases, and the checkpoint is the last offset sent. Every delivery
    is complete (partition, Kafka, console, checkpoint, metrics) and counted once.
  \<^item> Transactions: the buffer releases a transaction's mutations at its commit, in order, and
    none of a rolled back or open one; every event is released, pending, dropped by a rollback or
    pruned.
  \<^item> Snapshots: the watermark window leaves the snapshot rows no change in the window touched;
    the chunk plan partitions the key range; the workers process each chunk once and end.
  \<^item> Stores and formats: last checkpoint wins, compatibility checks decide what they claim and
    carry validation over, wire format and encoder round trips, distinct subjects get distinct
    ids.
  \<^item> Resilience: the deduplication window, the token bounds of the bucket under IEEE rounding,
    isolation of tenants, concurrent quota calls that are linearizable and return, the retry loop and
    its sleeps, the leader flag.
  \<^item> Where the code does not do what it means to, a theorem states what it does: events lost by
    a follower, a checkpoint without delivery, watermark rows sent to the dead letter queue, a
    leader after shutdown, and a cipher that writes its key and plaintext.

  \<^bold>\<open>Not modelled.\<close> Log lines, and what a client writes to the metrics socket. Trait and module
  declarations and constructors of unit structs carry no behaviour of their own. In the timed node
  only the election loop has a bound on how late it runs; the tasks may be late without bound. The
  weak ordering of the relaxed atomics is not modelled: a flag or counter is read as last written.
\<close>

end
